(* ===== verification/Lsm_Prelude.thy ===== *)
theory Lsm_Prelude
  imports Main "HOL-Library.Word" "HOL-Library.List_Lexorder"
begin

text \<open>
  Shared vocabulary of the development: machine integers and byte strings, the outcome type of
  fallible code, Rust's slicing and checked arithmetic, the little-endian layout the \<open>zerocopy\<close>
  derives give on x86, and the binary search of Rust's slices.

  Conventions used by every component.
  \<^item> \<open>u8\<close>, \<open>u16\<close>, \<open>u32\<close> and \<open>u64\<close> values that are stored (sequence numbers, identifiers, header
    fields) are words. Sizes, lengths and positions (\<open>usize\<close>, and \<open>u32\<close> offsets into a block) are
    natural numbers with every \<open>as u32\<close> cast written as \<open>as_u32\<close>.
  \<^item> A panic of the source (an \<open>assert!\<close>, an \<open>unwrap\<close> of \<open>None\<close>, an index out of range, an
    arithmetic overflow under overflow checks) is the outcome \<open>Inl (Panic _)\<close>; an \<open>Err\<close> of the
    crate's error type is \<open>Inl (Fail _)\<close>. A theorem that an operation returns \<open>Inr\<close> therefore
    also shows that no check of the source fires.
  \<^item> Byte strings are ordered lexicographically, as \<open>Ord\<close> orders \<open>[u8]\<close>.
\<close>

section \<open>Machine integers and byte strings\<close>

type_synonym u8 = "8 word"
type_synonym u16 = "16 word"
type_synonym u32 = "32 word"
type_synonym u64 = "64 word"
type_synonym bytes = "u8 list"
type_synonym key = bytes
type_synonym val = bytes

named_theorems codec_simps "lengths and round trips of the on-disk encodings"
named_theorems result_simps "equations of the outcome type"

section \<open>Outcomes of fallible code\<close>

datatype error =
    Io string string
  | InvalidParams string
  | Serialization string

datatype fault = Fail error | Panic string

type_synonym 'a result = "fault + 'a"

definition bind_result :: "'a result \<Rightarrow> ('a \<Rightarrow> 'b result) \<Rightarrow> 'b result" where
  "bind_result m f = (case m of Inl e \<Rightarrow> Inl e | Inr x \<Rightarrow> f x)"

definition assert_that :: "bool \<Rightarrow> string \<Rightarrow> unit result" where
  "assert_that b msg = (if b then Inr () else Inl (Panic msg))"

lemma bind_result_Inr [simp, result_simps]: "bind_result (Inr x) f = f x"
  by (simp add: bind_result_def)

lemma bind_result_Inl [simp, result_simps]: "bind_result (Inl e) f = Inl e"
  by (simp add: bind_result_def)

lemma bind_result_eq_Inr [result_simps]:
  "bind_result m f = Inr y \<longleftrightarrow> (\<exists>x. m = Inr x \<and> f x = Inr y)"
  by (cases m) simp_all

lemma bind_result_assoc [result_simps]:
  "bind_result (bind_result m f) g = bind_result m (\<lambda>x. bind_result (f x) g)"
  by (cases m) simp_all

lemma bind_result_cong [fundef_cong]:
  "m = m' \<Longrightarrow> (\<And>x. m' = Inr x \<Longrightarrow> f x = g x) \<Longrightarrow> bind_result m f = bind_result m' g"
  by (cases m') auto

lemma assert_that_True [simp]: "b \<Longrightarrow> assert_that b msg = Inr ()"
  by (simp add: assert_that_def)

lemma assert_that_False [simp]: "\<not> b \<Longrightarrow> assert_that b msg = Inl (Panic msg)"
  by (simp add: assert_that_def)

lemma assert_that_eq_Inr [result_simps]: "assert_that b msg = Inr u \<longleftrightarrow> b"
  by (simp add: assert_that_def)

text \<open>A loop that folds a fallible operation over a list, stopping at the first fault.\<close>

primrec fold_result :: "('s \<Rightarrow> 'a \<Rightarrow> 's result) \<Rightarrow> 's \<Rightarrow> 'a list \<Rightarrow> 's result" where
  "fold_result f s [] = Inr s"
| "fold_result f s (x # xs) = bind_result (f s x) (\<lambda>s'. fold_result f s' xs)"

lemma fold_result_append:
  "fold_result f s (xs @ ys) = bind_result (fold_result f s xs) (\<lambda>s'. fold_result f s' ys)"
  by (induction xs arbitrary: s) (simp_all add: bind_result_assoc)

text \<open>
  Code whose loops may run forever: \<open>None\<close> is a run that never returns. \<open>bind_run\<close> continues a run
  that has returned a value.
\<close>

type_synonym 'a run = "'a result option"

definition bind_run :: "'a run \<Rightarrow> ('a \<Rightarrow> 'b run) \<Rightarrow> 'b run" where
  "bind_run m f = Option.bind m (\<lambda>r. case r of Inl e \<Rightarrow> Some (Inl e) | Inr x \<Rightarrow> f x)"

lemma bind_run_simps [simp, result_simps]:
  "bind_run (Some (Inr x)) f = f x" "bind_run (Some (Inl e)) f = Some (Inl e)" "bind_run None f = None"
  by (simp_all add: bind_run_def)

lemma bind_run_mono [partial_function_mono]:
  assumes "mono_option B" and "\<And>y. mono_option (\<lambda>f. C y f)"
  shows "mono_option (\<lambda>f. bind_run (B f) (\<lambda>y. C y f))"
  unfolding bind_run_def
proof (intro bind_mono assms(1))
  fix y
  show "mono_option (\<lambda>f. case y of Inl e \<Rightarrow> Some (Inl e) | Inr x \<Rightarrow> C x f)"
    by (cases y) (simp_all add: assms(2) option.const_mono)
qed

text \<open>Slicing \<open>&data[a..b]\<close> and indexing \<open>xs[i]\<close>, which panic out of range.\<close>

definition slice :: "'a list \<Rightarrow> nat \<Rightarrow> nat \<Rightarrow> 'a list result" where
  "slice xs a b =
     (if a \<le> b \<and> b \<le> length xs then Inr (take (b - a) (drop a xs))
      else Inl (Panic ''range out of bounds''))"

definition index :: "'a list \<Rightarrow> nat \<Rightarrow> 'a result" where
  "index xs i = (if i < length xs then Inr (xs ! i) else Inl (Panic ''index out of bounds''))"

definition expect :: "'a option \<Rightarrow> string \<Rightarrow> 'a result" where
  "expect x msg = (case x of None \<Rightarrow> Inl (Panic msg) | Some y \<Rightarrow> Inr y)"

lemma slice_ok [simp]:
  "a \<le> b \<Longrightarrow> b \<le> length xs \<Longrightarrow> slice xs a b = Inr (take (b - a) (drop a xs))"
  by (simp add: slice_def)

lemma slice_eq_Inr [result_simps]:
  "slice xs a b = Inr ys \<longleftrightarrow> a \<le> b \<and> b \<le> length xs \<and> ys = take (b - a) (drop a xs)"
  by (auto simp: slice_def)

lemma slice_mid:
  "a = length xs \<Longrightarrow> b = length xs + length ys \<Longrightarrow> slice (xs @ ys @ zs) a b = Inr ys"
  by simp

lemma index_ok [simp]: "i < length xs \<Longrightarrow> index xs i = Inr (xs ! i)"
  by (simp add: index_def)

lemma index_eq_Inr [result_simps]: "index xs i = Inr x \<longleftrightarrow> i < length xs \<and> x = xs ! i"
  by (auto simp: index_def)

lemma expect_Some [simp]: "expect (Some x) msg = Inr x"
  by (simp add: expect_def)

lemma expect_None [simp]: "expect None msg = Inl (Panic msg)"
  by (simp add: expect_def)

text \<open>\<open>Vec::insert\<close> and \<open>Vec::remove\<close>, which panic out of range.\<close>

definition vec_insert :: "'a list \<Rightarrow> nat \<Rightarrow> 'a \<Rightarrow> 'a list result" where
  "vec_insert xs i x =
     (if i \<le> length xs then Inr (take i xs @ x # drop i xs)
      else Inl (Panic ''insertion index should be <= len''))"

definition vec_remove :: "'a list \<Rightarrow> nat \<Rightarrow> ('a \<times> 'a list) result" where
  "vec_remove xs i =
     (if i < length xs then Inr (xs ! i, take i xs @ drop (Suc i) xs)
      else Inl (Panic ''removal index should be < len''))"

lemma vec_insert_ok [simp]:
  "i \<le> length xs \<Longrightarrow> vec_insert xs i x = Inr (take i xs @ x # drop i xs)"
  by (simp add: vec_insert_def)

lemma vec_remove_ok [simp]:
  "i < length xs \<Longrightarrow> vec_remove xs i = Inr (xs ! i, take i xs @ drop (Suc i) xs)"
  by (simp add: vec_remove_def)

text \<open>The cast \<open>as u32\<close> of a size, and checked subtraction and increment.\<close>

definition as_u32 :: "nat \<Rightarrow> nat" where
  "as_u32 n = n mod 2 ^ 32"

lemma as_u32_small [simp]: "n < 2 ^ 32 \<Longrightarrow> as_u32 n = n"
  by (simp add: as_u32_def)

lemma as_u32_less: "as_u32 n < 2 ^ 32"
  by (simp add: as_u32_def)

definition checked_sub :: "nat \<Rightarrow> nat \<Rightarrow> nat result" where
  "checked_sub a b =
     (if b \<le> a then Inr (a - b) else Inl (Panic ''attempt to subtract with overflow''))"

lemma checked_sub_ok [simp]: "b \<le> a \<Longrightarrow> checked_sub a b = Inr (a - b)"
  by (simp add: checked_sub_def)

lemma checked_sub_eq_Inr [result_simps]: "checked_sub a b = Inr c \<longleftrightarrow> b \<le> a \<and> c = a - b"
  by (auto simp: checked_sub_def)

definition u64_inc :: "u64 \<Rightarrow> u64 result" where
  "u64_inc n = (if n = - 1 then Inl (Panic ''attempt to add with overflow'') else Inr (n + 1))"

lemma unat_u32_less [simp]: "unat (w::u32) < 4294967296"
  using unsigned_less [of w, where 'a = nat] by simp

lemma unat_u64_less [simp]: "unat (w::u64) < 18446744073709551616"
  using unsigned_less [of w, where 'a = nat] by simp

lemma unat_max_word_iff: "n = - 1 \<longleftrightarrow> unat (n::u64) = 2 ^ 64 - 1"
  by (auto simp: word_unat_eq_iff unsigned_minus_1_eq_mask mask_eq_exp_minus_1)

lemma u64_inc_ok: "unat n < 2 ^ 64 - 1 \<Longrightarrow> u64_inc n = Inr (n + 1)"
  using unat_max_word_iff [of n] by (auto simp: u64_inc_def)

lemma unat_succ_u64: "unat (n::u64) < 2 ^ 64 - 1 \<Longrightarrow> unat (n + 1) = unat n + 1"
  by (simp add: unat_word_ariths)

lemma u64_inc_eq_Inr:
  assumes "u64_inc n = Inr m"
  shows "m = n + 1" "n < m" "unat m = unat n + 1" "unat n < 2 ^ 64 - 1"
proof -
  have m: "m = n + 1" and n: "n \<noteq> - 1"
    using assms by (auto simp: u64_inc_def split: if_splits)
  have "unat n < 2 ^ 64" by simp
  with n have lt: "unat n < 2 ^ 64 - 1"
    using unat_max_word_iff [of n] by linarith
  show "m = n + 1" by (rule m)
  show "unat m = unat n + 1" using unat_succ_u64 [OF lt] m by simp
  then show "n < m" by (simp add: word_less_nat_alt)
  show "unat n < 2 ^ 64 - 1" by (rule lt)
qed

section \<open>Little-endian integers\<close>

primrec le_bytes :: "nat \<Rightarrow> nat \<Rightarrow> bytes" where
  "le_bytes 0 n = []"
| "le_bytes (Suc k) n = of_nat n # le_bytes k (n div 256)"

primrec le_nat :: "bytes \<Rightarrow> nat" where
  "le_nat [] = 0"
| "le_nat (b # bs) = unat b + 256 * le_nat bs"

lemma length_le_bytes [simp, codec_simps]: "length (le_bytes k n) = k"
  by (induction k arbitrary: n) simp_all

lemma unat_of_nat_u8: "unat (of_nat n :: u8) = n mod 256"
  by (simp add: unat_of_nat)

lemma le_nat_le_bytes [codec_simps]: "le_nat (le_bytes k n) = n mod 256 ^ k"
proof (induction k arbitrary: n)
  case 0
  then show ?case by simp
next
  case (Suc k)
  have "le_nat (le_bytes (Suc k) n) = n mod 256 + 256 * (n div 256 mod 256 ^ k)"
    by (simp add: unat_of_nat_u8 Suc)
  also have "\<dots> = n mod (256 * 256 ^ k)"
    by (simp add: mod_mult2_eq)
  finally show ?case by simp
qed

definition u32_bytes :: "u32 \<Rightarrow> bytes" where
  "u32_bytes w = le_bytes 4 (unat w)"

definition u16_bytes :: "u16 \<Rightarrow> bytes" where
  "u16_bytes w = le_bytes 2 (unat w)"

definition u64_bytes :: "u64 \<Rightarrow> bytes" where
  "u64_bytes w = le_bytes 8 (unat w)"

definition read_u32 :: "bytes \<Rightarrow> u32" where
  "read_u32 bs = of_nat (le_nat bs)"

definition read_u16 :: "bytes \<Rightarrow> u16" where
  "read_u16 bs = of_nat (le_nat bs)"

definition read_u64 :: "bytes \<Rightarrow> u64" where
  "read_u64 bs = of_nat (le_nat bs)"

lemma length_u32_bytes [simp, codec_simps]: "length (u32_bytes w) = 4"
  by (simp add: u32_bytes_def)

lemma length_u16_bytes [simp, codec_simps]: "length (u16_bytes w) = 2"
  by (simp add: u16_bytes_def)

lemma length_u64_bytes [simp, codec_simps]: "length (u64_bytes w) = 8"
  by (simp add: u64_bytes_def)

lemma read_u32_bytes [simp, codec_simps]: "read_u32 (u32_bytes w) = w"
proof -
  have "unat w mod 256 ^ 4 = unat w" by simp
  then show ?thesis by (simp add: read_u32_def u32_bytes_def le_nat_le_bytes)
qed

lemma read_u16_bytes [simp, codec_simps]: "read_u16 (u16_bytes w) = w"
proof -
  have "unat w mod 256 ^ 2 = unat w" using unsigned_less [of w, where 'a = nat] by simp
  then show ?thesis by (simp add: read_u16_def u16_bytes_def le_nat_le_bytes)
qed

lemma read_u64_bytes [simp, codec_simps]: "read_u64 (u64_bytes w) = w"
proof -
  have "unat w mod 256 ^ 8 = unat w" by simp
  then show ?thesis by (simp add: read_u64_def u64_bytes_def le_nat_le_bytes)
qed

lemma unat_of_nat_u32 [simp]: "n < 2 ^ 32 \<Longrightarrow> unat (of_nat n :: u32) = n"
  by (simp add: unat_of_nat)

lemma unat_of_nat_u64 [simp]: "n < 2 ^ 64 \<Longrightarrow> unat (of_nat n :: u64) = n"
  by (simp add: unat_of_nat)

text \<open>Fields of a structure at a byte offset.\<close>

definition u64_at :: "bytes \<Rightarrow> nat \<Rightarrow> u64" where
  "u64_at bs i = read_u64 (take 8 (drop i bs))"

definition u32_at :: "bytes \<Rightarrow> nat \<Rightarrow> u32" where
  "u32_at bs i = read_u32 (take 4 (drop i bs))"

lemma u64_at_append [codec_simps]:
  "i = length xs \<Longrightarrow> u64_at (xs @ u64_bytes w @ ys) i = w"
  by (simp add: u64_at_def)

lemma u32_at_append [codec_simps]:
  "i = length xs \<Longrightarrow> u32_at (xs @ u32_bytes w @ ys) i = w"
  by (simp add: u32_at_def)

lemma u64_at_skip [codec_simps]:
  "length xs \<le> i \<Longrightarrow> u64_at (xs @ ys) i = u64_at ys (i - length xs)"
  by (simp add: u64_at_def)

lemma u32_at_skip [codec_simps]:
  "length xs \<le> i \<Longrightarrow> u32_at (xs @ ys) i = u32_at ys (i - length xs)"
  by (simp add: u32_at_def)

lemma u64_at_Cons [codec_simps]: "0 < i \<Longrightarrow> u64_at (x # ys) i = u64_at ys (i - 1)"
  by (cases i) (simp_all add: u64_at_def)

lemma u64_at_0 [simp]: "u64_at (u64_bytes w @ ys) 0 = w" "u64_at (u64_bytes w) 0 = w"
  by (simp_all add: u64_at_def)

lemma u32_at_0 [simp]: "u32_at (u32_bytes w @ ys) 0 = w"
  by (simp add: u32_at_def)

text \<open>Rust's \<open>x as u32\<close> on a stored field is \<open>of_nat\<close>, which reduces modulo \<open>2^32\<close>.\<close>

lemma unat_of_nat_as_u32: "unat (of_nat n :: u32) = as_u32 n"
  by (simp add: unat_of_nat as_u32_def)

section \<open>Strictly sorted lists and Rust's slice binary search\<close>

abbreviation sorted_strict :: "'a::linorder list \<Rightarrow> bool" where
  "sorted_strict \<equiv> sorted_wrt (<)"

lemma sorted_strict_nth_less:
  "sorted_strict xs \<Longrightarrow> i < j \<Longrightarrow> j < length xs \<Longrightarrow> xs ! i < xs ! j"
  by (rule sorted_wrt_nth_less)

lemma sorted_strict_nth_mono:
  "sorted_strict xs \<Longrightarrow> i \<le> j \<Longrightarrow> j < length xs \<Longrightarrow> xs ! i \<le> xs ! j"
  by (metis le_neq_implies_less order.strict_implies_order order_refl sorted_strict_nth_less)

lemma sorted_strict_nth_less_iff:
  "sorted_strict xs \<Longrightarrow> i < length xs \<Longrightarrow> j < length xs \<Longrightarrow> xs ! i < xs ! j \<longleftrightarrow> i < j"
  by (meson leD leI sorted_strict_nth_less sorted_strict_nth_mono)

lemma sorted_strict_distinct: "sorted_strict xs \<Longrightarrow> distinct xs"
  by (simp add: strict_sorted_iff)

text \<open>
  \<open>slice::binary_search_by_key\<close>: the loop halves \<open>size\<close> around \<open>base\<close>; the result is \<open>Ok\<close> of a
  matching position or \<open>Err\<close> of the insertion position.
\<close>

datatype search_pos = Found nat | Missing nat

function bsearch_loop :: "('k::linorder) list \<Rightarrow> 'k \<Rightarrow> nat \<Rightarrow> nat \<Rightarrow> nat" where
  "bsearch_loop ks k sz base =
     (if sz > 1
      then if ks ! (base + sz div 2) > k
           then bsearch_loop ks k (sz - sz div 2) base
           else bsearch_loop ks k (sz - sz div 2) (base + sz div 2)
      else base)"
  by pat_completeness auto
termination
  by (relation "measure (\<lambda>(ks, k, sz, base). sz)") auto

declare bsearch_loop.simps [simp del]

definition binary_search_by_key :: "('a \<Rightarrow> 'k::linorder) \<Rightarrow> 'a list \<Rightarrow> 'k \<Rightarrow> search_pos" where
  "binary_search_by_key f xs k =
     (let ks = map f xs in
      if ks = [] then Missing 0
      else let base = bsearch_loop ks k (length ks) 0
           in if ks ! base = k then Found base
              else Missing (base + (if ks ! base < k then 1 else 0)))"

lemma bsearch_loop_inv:
  assumes "sorted_strict ks" and "0 < sz" and "base + sz \<le> length ks"
    and "base = 0 \<or> ks ! base \<le> k" and "\<forall>j. base + sz \<le> j \<and> j < length ks \<longrightarrow> k < ks ! j"
  shows "bsearch_loop ks k sz base < length ks \<and>
         (bsearch_loop ks k sz base = 0 \<or> ks ! bsearch_loop ks k sz base \<le> k) \<and>
         (\<forall>j. bsearch_loop ks k sz base < j \<and> j < length ks \<longrightarrow> k < ks ! j)"
  using assms
proof (induction ks k sz base rule: bsearch_loop.induct)
  case (1 ks k sz base)
  show ?case
  proof (cases "sz > 1")
    case True
    let ?mid = "base + sz div 2"
    have half: "0 < sz div 2" "sz div 2 < sz" using True by auto
    show ?thesis
    proof (cases "ks ! ?mid > k")
      case gt: True
      have later: "\<forall>j. base + (sz - sz div 2) \<le> j \<and> j < length ks \<longrightarrow> k < ks ! j"
      proof (intro allI impI)
        fix j assume j: "base + (sz - sz div 2) \<le> j \<and> j < length ks"
        then have "ks ! ?mid \<le> ks ! j"
          using "1.prems"(1) by (intro sorted_strict_nth_mono) auto
        then show "k < ks ! j" using gt by simp
      qed
      have eq: "bsearch_loop ks k sz base = bsearch_loop ks k (sz - sz div 2) base"
        using True gt by (subst bsearch_loop.simps) simp
      have bound: "base + (sz - sz div 2) \<le> length ks" using "1.prems"(3) half by linarith
      show ?thesis
        unfolding eq using half by (intro "1.IH"(1) True gt "1.prems" later bound) simp
    next
      case le: False
      have eq: "bsearch_loop ks k sz base = bsearch_loop ks k (sz - sz div 2) ?mid"
        using True le by (subst bsearch_loop.simps) simp
      have mid: "?mid + (sz - sz div 2) = base + sz" using half by linarith
      show ?thesis
        unfolding eq using half le "1.prems"
        by (intro "1.IH"(2) True le) (simp_all only: mid, auto)
    qed
  next
    case False
    then have sz: "sz = 1" using "1.prems"(2) by simp
    have "bsearch_loop ks k sz base = base"
      using False by (subst bsearch_loop.simps) simp
    then show ?thesis using sz "1.prems"(3-5) by (simp add: Suc_le_eq)
  qed
qed

lemma binary_search_by_key_spec:
  assumes sorted: "sorted_strict (map f xs)"
  shows "case binary_search_by_key f xs k of
           Found i \<Rightarrow> i < length xs \<and> f (xs ! i) = k
         | Missing i \<Rightarrow> i \<le> length xs \<and> (\<forall>j<i. f (xs ! j) < k) \<and>
             (\<forall>j. i \<le> j \<and> j < length xs \<longrightarrow> k < f (xs ! j))"
proof (cases "xs = []")
  case True
  then show ?thesis by (simp add: binary_search_by_key_def)
next
  case False
  define ks where "ks = map f xs"
  define base where "base = bsearch_loop ks k (length ks) 0"
  have base: "base < length ks \<and> (base = 0 \<or> ks ! base \<le> k) \<and>
      (\<forall>j. base < j \<and> j < length ks \<longrightarrow> k < ks ! j)"
    unfolding base_def using sorted False by (intro bsearch_loop_inv) (auto simp: ks_def)
  have eq: "binary_search_by_key f xs k =
      (if ks ! base = k then Found base else Missing (base + (if ks ! base < k then 1 else 0)))"
    using False by (simp add: binary_search_by_key_def ks_def base_def)
  have below: "ks ! j < k" if "j < base" for j
  proof -
    have "sorted_strict ks" using sorted by (simp add: ks_def)
    then have "ks ! j < ks ! base" using that base by (intro sorted_strict_nth_less) auto
    also have "ks ! base \<le> k" using that base by auto
    finally show ?thesis .
  qed
  have *: "case binary_search_by_key f xs k of
           Found i \<Rightarrow> i < length ks \<and> ks ! i = k
         | Missing i \<Rightarrow> i \<le> length ks \<and> (\<forall>j<i. ks ! j < k) \<and>
             (\<forall>j. i \<le> j \<and> j < length ks \<longrightarrow> k < ks ! j)"
  proof (cases "ks ! base" k rule: linorder_cases)
    case less
    have "ks ! j < k" if "j < Suc base" for j
      using that below less by (cases "j = base") auto
    then show ?thesis using less base eq by (simp add: Suc_le_eq)
  next
    case equal
    then show ?thesis using base eq by simp
  next
    case greater
    have "k < ks ! j" if "base \<le> j" "j < length ks" for j
      using that base greater by (cases "j = base") auto
    moreover have "\<not> ks ! base < k" "ks ! base \<noteq> k" using greater by auto
    ultimately show ?thesis using base below eq by simp
  qed
  then show ?thesis
    by (cases "binary_search_by_key f xs k") (auto simp: ks_def)
qed

lemma binary_search_Found_iff:
  assumes "sorted_strict (map f xs)"
  shows "binary_search_by_key f xs k = Found i \<longleftrightarrow> i < length xs \<and> f (xs ! i) = k"
proof
  assume "binary_search_by_key f xs k = Found i"
  then show "i < length xs \<and> f (xs ! i) = k"
    using binary_search_by_key_spec [OF assms, of k] by simp
next
  assume i: "i < length xs \<and> f (xs ! i) = k"
  show "binary_search_by_key f xs k = Found i"
  proof (cases "binary_search_by_key f xs k")
    case (Found j)
    then have "j < length xs \<and> f (xs ! j) = k"
      using binary_search_by_key_spec [OF assms, of k] by simp
    then have "map f xs ! j = map f xs ! i" "j < length xs" using i by auto
    then have "j = i"
      using sorted_strict_distinct [OF assms] i nth_eq_iff_index_eq by (metis length_map)
    then show ?thesis using Found by simp
  next
    case (Missing j)
    then have "(\<forall>l<j. f (xs ! l) < k) \<and> (\<forall>l. j \<le> l \<and> l < length xs \<longrightarrow> k < f (xs ! l))"
      using binary_search_by_key_spec [OF assms, of k] by simp
    then have False using i by (metis leI order.irrefl)
    then show ?thesis ..
  qed
qed

lemma binary_search_MissingD:
  assumes "sorted_strict (map f xs)" and "binary_search_by_key f xs k = Missing i"
  shows "i \<le> length xs" "\<And>j. j < i \<Longrightarrow> f (xs ! j) < k"
    "\<And>j. i \<le> j \<Longrightarrow> j < length xs \<Longrightarrow> k < f (xs ! j)"
  using binary_search_by_key_spec [OF assms(1), of k] assms(2) by simp_all

end
