(* ===== verification/Lsm_Disk.thy ===== *)
theory Lsm_Disk
  imports Lsm_Prelude
begin

text \<open>
  The parameters of a database (\<open>src/src/params.rs\<close>), the alignment helpers of
  \<open>src/src/lib.rs\<close>, the names of the files a database consists of and the file access layer
  (\<open>src/src/disk.rs\<close>).

  The file system is a finite map from path names to file contents. Of the failures of the
  operating system only the one the code branches on is kept: opening a file that does not exist.
  The compressor of the \<open>snap\<close> crate is a parameter \<open>codec\<close>; \<open>plain_codec\<close> is the build without the
  \<open>snappy-compression\<close> feature, in which data is stored as it is.
\<close>

section \<open>Parameters\<close>

record params =
  db_path :: string
  max_memtable_size :: nat
  num_levels :: nat
  max_open_files :: nat
  max_key_block_size :: nat
  block_restart_interval :: nat
  log_level_stats :: "string option"
  compaction_concurrency :: nat
  seek_based_compaction :: "nat option"

definition default_params :: params where
  "default_params =
     \<lparr> db_path = ''./storage.lsm'',
       max_memtable_size = 5 * 1024 * 1024,
       num_levels = 5,
       max_open_files = 1000000,
       max_key_block_size = 512,
       block_restart_interval = 16,
       log_level_stats = None,
       compaction_concurrency = 4,
       seek_based_compaction = Some 10 \<rparr>"

datatype start_mode = CreateOrOpen | Open | CreateOrOverride

section \<open>Alignment\<close>

definition WORD_SIZE :: nat where
  "WORD_SIZE = 8"

definition compute_padding :: "nat \<Rightarrow> nat" where
  "compute_padding offset =
     (let remainder = offset mod WORD_SIZE
      in if remainder = 0 then 0 else WORD_SIZE - remainder)"

definition pad_offset :: "nat \<Rightarrow> nat" where
  "pad_offset offset = offset + compute_padding offset"

definition add_padding :: "bytes \<Rightarrow> bytes" where
  "add_padding data =
     (let padding = compute_padding (length data)
      in if padding > 0 then data @ replicate padding 0 else data)"

lemma compute_padding_less: "compute_padding n < WORD_SIZE"
  by (auto simp: compute_padding_def WORD_SIZE_def Let_def)

lemma length_add_padding [simp, codec_simps]: "length (add_padding d) = pad_offset (length d)"
  by (simp add: add_padding_def pad_offset_def Let_def)

lemma add_padding_prefix: "add_padding d = d @ replicate (compute_padding (length d)) 0"
  by (simp add: add_padding_def Let_def)

lemma pad_offset_ge: "n \<le> pad_offset n"
  by (simp add: pad_offset_def)

lemma pad_offset_dvd: "WORD_SIZE dvd pad_offset n"
proof -
  have "(n + (8 - n mod 8)) mod 8 = 0" if "n mod 8 \<noteq> 0"
    using that by presburger
  then show ?thesis
    by (auto simp: pad_offset_def compute_padding_def WORD_SIZE_def Let_def dvd_eq_mod_eq_0)
qed

section \<open>File names\<close>

text \<open>Rust's \<open>{:08}\<close>: the decimal digits, padded with zeros on the left to eight characters.\<close>

definition digit :: "nat \<Rightarrow> char" where
  "digit d = char_of (48 + d)"

fun dec :: "nat \<Rightarrow> string" where
  "dec n = (if n < 10 then [digit n] else dec (n div 10) @ [digit (n mod 10)])"

declare dec.simps [simp del]

definition pad08 :: "nat \<Rightarrow> string" where
  "pad08 n = replicate (8 - length (dec n)) (CHR ''0'') @ dec n"

definition join_path :: "string \<Rightarrow> string \<Rightarrow> string" where
  "join_path dir name = dir @ ''/'' @ name"

definition undec :: "string \<Rightarrow> nat" where
  "undec s = foldl (\<lambda>a c. 10 * a + (of_char c - 48)) 0 s"

lemma undec_snoc: "undec (s @ [c]) = 10 * undec s + (of_char c - 48)"
  by (simp add: undec_def)

lemma of_char_digit: "d < 10 \<Longrightarrow> (of_char (digit d) :: nat) = 48 + d"
  by (simp add: digit_def)

lemma undec_dec: "undec (dec n) = n"
proof (induction n rule: dec.induct)
  case (1 n)
  show ?case
  proof (cases "n < 10")
    case True
    then show ?thesis by (subst dec.simps) (simp add: undec_def of_char_digit)
  next
    case False
    then have "undec (dec n) = 10 * (n div 10) + n mod 10"
      using 1 by (subst dec.simps) (simp add: undec_snoc of_char_digit)
    then show ?thesis by simp
  qed
qed

lemma undec_replicate_zero: "undec (replicate k (CHR ''0'') @ s) = undec s"
proof (induction k)
  case (Suc k)
  then show ?case by (simp add: undec_def)
qed simp

lemma undec_pad08: "undec (pad08 n) = n"
  by (simp add: pad08_def undec_replicate_zero undec_dec)

lemma pad08_inj: "pad08 m = pad08 n \<longleftrightarrow> m = n"
  by (metis undec_pad08)

text \<open>
  The files of a database: data blocks (\<open>key\<close>), index blocks (\<open>idx\<close>), pages of the write-ahead log
  (\<open>log\<close>, numbered from one), value batches (\<open>val\<close>), value index pages (\<open>vindex\<close>), level metadata
  and the manifest.
\<close>

definition data_block_path :: "params \<Rightarrow> u64 \<Rightarrow> string" where
  "data_block_path p block_id = join_path (db_path p) (''key'' @ pad08 (unat block_id) @ ''.data'')"

definition index_block_path :: "params \<Rightarrow> u64 \<Rightarrow> string" where
  "index_block_path p table_id = join_path (db_path p) (''idx'' @ pad08 (unat table_id) @ ''.data'')"

definition wal_file_path :: "params \<Rightarrow> nat \<Rightarrow> string" where
  "wal_file_path p fpos = join_path (db_path p) (''log'' @ pad08 (fpos + 1) @ ''.data'')"

definition value_batch_path :: "params \<Rightarrow> u64 \<Rightarrow> string" where
  "value_batch_path p batch_id = join_path (db_path p) (''val'' @ pad08 (unat batch_id) @ ''.data'')"

definition value_index_path :: "params \<Rightarrow> u64 \<Rightarrow> string" where
  "value_index_path p page_id = join_path (db_path p) (''vindex'' @ pad08 (unat page_id) @ ''.data'')"

lemmas path_defs = data_block_path_def index_block_path_def wal_file_path_def
  value_batch_path_def value_index_path_def join_path_def

lemma path_inj [simp]:
  "data_block_path p i = data_block_path p j \<longleftrightarrow> i = j"
  "index_block_path p i = index_block_path p j \<longleftrightarrow> i = j"
  "value_batch_path p i = value_batch_path p j \<longleftrightarrow> i = j"
  "value_index_path p i = value_index_path p j \<longleftrightarrow> i = j"
  by (simp_all add: path_defs pad08_inj word_unat_eq_iff)

lemma wal_file_path_inj [simp]: "wal_file_path p m = wal_file_path p n \<longleftrightarrow> m = n"
  by (simp add: path_defs pad08_inj)

lemma path_kinds_disjoint [simp]:
  "data_block_path p i \<noteq> index_block_path p j" "index_block_path p j \<noteq> data_block_path p i"
  "data_block_path p i \<noteq> wal_file_path p n" "wal_file_path p n \<noteq> data_block_path p i"
  "index_block_path p i \<noteq> wal_file_path p n" "wal_file_path p n \<noteq> index_block_path p i"
  "data_block_path p i \<noteq> value_batch_path p j" "value_batch_path p j \<noteq> data_block_path p i"
  "value_batch_path p i \<noteq> value_index_path p j" "value_index_path p j \<noteq> value_batch_path p i"
  by (simp_all add: path_defs)

section \<open>File access\<close>

type_synonym fs = "string \<rightharpoonup> bytes"

datatype io_error = NotFound | InvalidData

record codec =
  compress :: "bytes \<Rightarrow> bytes"
  decompress :: "bytes \<Rightarrow> bytes option"

definition plain_codec :: codec where
  "plain_codec = \<lparr> compress = (\<lambda>d. d), decompress = Some \<rparr>"

definition codec_laws :: "codec \<Rightarrow> bool" where
  "codec_laws c \<longleftrightarrow> (\<forall>d. decompress c (compress c d) = Some d)"

lemma codec_laws_plain [simp]: "codec_laws plain_codec"
  by (simp add: codec_laws_def plain_codec_def)

definition display_io_error :: "io_error \<Rightarrow> string" where
  "display_io_error e =
     (case e of NotFound \<Rightarrow> ''No such file or directory (os error 2)''
      | InvalidData \<Rightarrow> ''snappy: corrupt input'')"

definition from_io_error :: "string \<Rightarrow> io_error \<Rightarrow> error" where
  "from_io_error ctxt inner = Io ctxt (display_io_error inner)"

definition read_uncompressed :: "fs \<Rightarrow> string \<Rightarrow> nat \<Rightarrow> io_error + bytes" where
  "read_uncompressed fs fpath offset =
     (case fs fpath of None \<Rightarrow> Inl NotFound | Some buf \<Rightarrow> Inr (drop offset buf))"

text \<open>
  The \<open>_async-io\<close> variant reads chunks into a 4096-byte buffer until a read returns no bytes. How
  many bytes a call of \<open>read_at\<close> delivers is up to the kernel, a parameter \<open>chunk\<close> of the position.
\<close>

definition read_at_laws :: "(nat \<Rightarrow> nat) \<Rightarrow> bytes \<Rightarrow> bool" where
  "read_at_laws chunk content \<longleftrightarrow>
     (\<forall>pos. chunk pos \<le> min 4096 (length content - pos) \<and> (chunk pos = 0 \<longleftrightarrow> length content \<le> pos))"

function read_chunks :: "(nat \<Rightarrow> nat) \<Rightarrow> bytes \<Rightarrow> nat \<Rightarrow> bytes \<Rightarrow> bytes" where
  "read_chunks chunk content pos result =
     (let n = min (chunk pos) (length content - pos) in
      if n = 0 then result
      else read_chunks chunk content (pos + n) (result @ take n (drop pos content)))"
  by pat_completeness auto
termination
  by (relation "measure (\<lambda>(chunk, content, pos, result). length content - pos)") (auto simp: Let_def)

declare read_chunks.simps [simp del]

definition read_uncompressed_async :: "(nat \<Rightarrow> nat) \<Rightarrow> fs \<Rightarrow> string \<Rightarrow> nat \<Rightarrow> io_error + bytes" where
  "read_uncompressed_async chunk fs fpath offset =
     (case fs fpath of None \<Rightarrow> Inl NotFound | Some content \<Rightarrow> Inr (read_chunks chunk content offset []))"

definition disk_read :: "codec \<Rightarrow> fs \<Rightarrow> string \<Rightarrow> nat \<Rightarrow> io_error + bytes" where
  "disk_read c fs fpath offset =
     (case read_uncompressed fs fpath offset of
        Inl err \<Rightarrow> Inl err
      | Inr compressed \<Rightarrow>
          (case decompress c compressed of None \<Rightarrow> Inl InvalidData | Some d \<Rightarrow> Inr d))"

definition write_uncompressed :: "fs \<Rightarrow> string \<Rightarrow> bytes \<Rightarrow> fs" where
  "write_uncompressed fs fpath data = fs(fpath \<mapsto> data)"

definition disk_write :: "codec \<Rightarrow> fs \<Rightarrow> string \<Rightarrow> bytes \<Rightarrow> fs" where
  "disk_write c fs fpath data = write_uncompressed fs fpath (compress c data)"

definition remove_file :: "fs \<Rightarrow> string \<Rightarrow> io_error + fs" where
  "remove_file fs fpath =
     (case fs fpath of None \<Rightarrow> Inl NotFound | Some _ \<Rightarrow> Inr (fs(fpath := None)))"

lemma read_chunks_drop:
  assumes "read_at_laws chunk content"
  shows "read_chunks chunk content pos result = result @ drop pos content"
  using assms
proof (induction chunk content pos result rule: read_chunks.induct)
  case (1 chunk content pos result)
  let ?n = "min (chunk pos) (length content - pos)"
  have n: "?n = chunk pos" and z: "chunk pos = 0 \<longleftrightarrow> length content \<le> pos"
    using "1.prems" by (auto simp: read_at_laws_def)
  show ?case
  proof (cases "?n = 0")
    case True
    then show ?thesis using n z by (subst read_chunks.simps) simp
  next
    case False
    have "read_chunks chunk content pos result =
        read_chunks chunk content (pos + ?n) (result @ take ?n (drop pos content))"
      using False by (simp add: read_chunks.simps [of chunk content pos result] Let_def)
    also have "\<dots> = (result @ take ?n (drop pos content)) @ drop (pos + ?n) content"
      using False "1.prems" by (intro "1.IH") auto
    also have "\<dots> = result @ drop pos content"
      by (metis append.assoc append_take_drop_id drop_drop add.commute)
    finally show ?thesis .
  qed
qed

lemma disk_read_write [simp]:
  "codec_laws c \<Longrightarrow> disk_read c (disk_write c fs p d) p 0 = Inr d"
  by (simp add: disk_read_def disk_write_def write_uncompressed_def read_uncompressed_def
      codec_laws_def)

lemma disk_read_other [simp]:
  "p \<noteq> q \<Longrightarrow> disk_read c (disk_write c fs q d) p off = disk_read c fs p off"
  by (simp add: disk_read_def disk_write_def write_uncompressed_def read_uncompressed_def)

lemma disk_write_apply: "disk_write c fs p d q = (if q = p then Some (compress c d) else fs q)"
  by (simp add: disk_write_def write_uncompressed_def)

end
