(* ===== verification/Lsm_WriteBatch.thy ===== *)
theory Lsm_WriteBatch
  imports Lsm_Prelude
begin

text \<open>
  Write operations and batches (\<open>src/src/write_batch.rs\<close>), the entries a write leaves in the store
  (\<open>MemtableEntry\<close> of \<open>src/src/memtable.rs\<close>) and the contract of a store that applies writes: every
  write of a key becomes its entry, stamped with the next sequence number.
\<close>

section \<open>Write batches\<close>

datatype write_op = Put key val | Delete key

record write_batch =
  writes :: "write_op list"

record write_options =
  sync_opt :: bool

definition PUT_OP :: u8 where "PUT_OP = 1"
definition DELETE_OP :: u8 where "DELETE_OP = 2"

primrec write_op_key :: "write_op \<Rightarrow> key" where
  "write_op_key (Put k v) = k"
| "write_op_key (Delete k) = k"

primrec write_op_type :: "write_op \<Rightarrow> u8" where
  "write_op_type (Put k v) = PUT_OP"
| "write_op_type (Delete k) = DELETE_OP"

definition write_op_key_length :: "write_op \<Rightarrow> u64" where
  "write_op_key_length op = of_nat (length (write_op_key op))"

primrec write_op_value_length :: "write_op \<Rightarrow> u64" where
  "write_op_value_length (Put k v) = of_nat (length v)"
| "write_op_value_length (Delete k) = 0"

definition write_batch_new :: write_batch where
  "write_batch_new = \<lparr> writes = [] \<rparr>"

definition write_batch_put :: "write_batch \<Rightarrow> key \<Rightarrow> val \<Rightarrow> write_batch" where
  "write_batch_put b k v = b\<lparr> writes := writes b @ [Put k v] \<rparr>"

definition write_batch_delete :: "write_batch \<Rightarrow> key \<Rightarrow> write_batch" where
  "write_batch_delete b k = b\<lparr> writes := writes b @ [Delete k] \<rparr>"

definition write_options_new :: write_options where
  "write_options_new = \<lparr> sync_opt = True \<rparr>"

section \<open>Entries\<close>

datatype memtable_entry = Value u64 val | Deletion u64

datatype data_entry_type = PutEntry | DeleteEntry

primrec entry_seq_number :: "memtable_entry \<Rightarrow> u64" where
  "entry_seq_number (Value s v) = s"
| "entry_seq_number (Deletion s) = s"

primrec entry_type_of :: "memtable_entry \<Rightarrow> data_entry_type" where
  "entry_type_of (Value s v) = PutEntry"
| "entry_type_of (Deletion s) = DeleteEntry"

primrec entry_value :: "memtable_entry \<Rightarrow> val option" where
  "entry_value (Value s v) = Some v"
| "entry_value (Deletion s) = None"

section \<open>What a sequence of writes means\<close>

text \<open>
  The entry a write leaves, the store contents after a sequence of writes and, without sequence
  numbers, the key-value map a user of the database sees.
\<close>

primrec op_entry :: "u64 \<Rightarrow> write_op \<Rightarrow> memtable_entry" where
  "op_entry s (Put k v) = Value s v"
| "op_entry s (Delete k) = Deletion s"

primrec apply_writes ::
    "u64 \<Rightarrow> write_op list \<Rightarrow> (key \<rightharpoonup> memtable_entry) \<Rightarrow> (key \<rightharpoonup> memtable_entry)" where
  "apply_writes s [] m = m"
| "apply_writes s (op # ops) m = apply_writes (s + 1) ops (m(write_op_key op \<mapsto> op_entry s op))"

definition visible :: "(key \<rightharpoonup> memtable_entry) \<Rightarrow> (key \<rightharpoonup> val)" where
  "visible m k = Option.bind (m k) entry_value"

primrec kv_apply :: "write_op \<Rightarrow> (key \<rightharpoonup> val) \<Rightarrow> (key \<rightharpoonup> val)" where
  "kv_apply (Put k v) m = m(k \<mapsto> v)"
| "kv_apply (Delete k) m = m(k := None)"

lemma visible_upd: "visible (m(write_op_key op \<mapsto> op_entry s op)) = kv_apply op (visible m)"
  by (cases op) (auto simp: visible_def fun_eq_iff)

lemma visible_apply_writes: "visible (apply_writes s ops m) = fold kv_apply ops (visible m)"
  by (induction ops arbitrary: s m) (simp_all add: visible_upd del: fun_upd_apply)

lemma visible_empty [simp]: "visible Map.empty = Map.empty"
  by (simp add: visible_def fun_eq_iff)

section \<open>The contract of a versioned store\<close>

locale versioned_store =
  fixes get :: "'m \<Rightarrow> key \<Rightarrow> memtable_entry option"
    and apply_op :: "'m \<Rightarrow> write_op \<Rightarrow> 'm result"
    and seq :: "'m \<Rightarrow> u64"
    and ok :: "'m \<Rightarrow> bool"
  assumes apply_ok: "ok m \<Longrightarrow> unat (seq m) < 2 ^ 64 - 1 \<Longrightarrow>
      \<exists>m'. apply_op m op = Inr m' \<and> ok m' \<and> seq m' = seq m + 1 \<and>
           get m' = (get m)(write_op_key op \<mapsto> op_entry (seq m) op)"
begin

lemma apply_all:
  assumes "ok m" and "unat (seq m) + length ops < 2 ^ 64"
  shows "\<exists>m'. fold_result apply_op m ops = Inr m' \<and> ok m' \<and>
      unat (seq m') = unat (seq m) + length ops \<and> get m' = apply_writes (seq m) ops (get m)"
  using assms
proof (induction ops arbitrary: m)
  case Nil
  then show ?case by simp
next
  case (Cons op ops)
  have lt: "unat (seq m) < 2 ^ 64 - 1" using Cons.prems(2) by simp
  obtain m1 where m1: "apply_op m op = Inr m1" "ok m1" "seq m1 = seq m + 1"
      "get m1 = (get m)(write_op_key op \<mapsto> op_entry (seq m) op)"
    using apply_ok [OF Cons.prems(1) lt] by blast
  have s1: "unat (seq m1) = unat (seq m) + 1" using unat_succ_u64 [OF lt] m1(3) by simp
  then have "unat (seq m1) + length ops < 2 ^ 64" using Cons.prems(2) by simp
  from Cons.IH [OF m1(2) this] obtain m' where m': "fold_result apply_op m1 ops = Inr m'" "ok m'"
      "unat (seq m') = unat (seq m1) + length ops" "get m' = apply_writes (seq m1) ops (get m1)"
    by blast
  have "get m' = apply_writes (seq m) (op # ops) (get m)"
    using m'(4) unfolding m1(3,4) apply_writes.simps .
  then show ?case using m1(1) m'(1-3) s1 by simp
qed

lemma apply_all_visible:
  assumes "ok m" and "unat (seq m) + length ops < 2 ^ 64"
  shows "\<exists>m'. fold_result apply_op m ops = Inr m' \<and> ok m' \<and>
      visible (get m') = fold kv_apply ops (visible (get m))"
  using apply_all [OF assms] visible_apply_writes by fastforce

end

end
