(* ===== verification/Lsm_Iterator.thy ===== *)
theory Lsm_Iterator
  imports Lsm_WriteBatch
begin

text \<open>
  The trait \<open>InternalIterator\<close> (\<open>src/src/sorted_table/iterator.rs\<close>) as an interface: an iterator
  stands for the list of entries it has still to deliver, the first of which its accessors read.
  \<open>skip_loop\<close> is the loop \<open>while !iter.at_end() && p(iter.get_key()) { iter.step() }\<close> its clients
  run; the lemma of the interface shows that it ends and drops exactly the entries in front.
\<close>

partial_function (option) skip_loop ::
    "('i \<Rightarrow> bool result) \<Rightarrow> ('i \<Rightarrow> 'i result) \<Rightarrow> ('i \<Rightarrow> key result) \<Rightarrow> (key \<Rightarrow> bool) \<Rightarrow> 'i \<Rightarrow> 'i run" where
  "skip_loop at_end step get_key p it =
     bind_run (Some (at_end it)) (\<lambda>done.
     if done then Some (Inr it)
     else bind_run (Some (get_key it)) (\<lambda>k.
          if p k
          then bind_run (Some (step it)) (\<lambda>it'. skip_loop at_end step get_key p it')
          else Some (Inr it)))"

text \<open>The iterator after \<open>n\<close> calls of \<open>step\<close>.\<close>

primrec steps :: "('i \<Rightarrow> 'i result) \<Rightarrow> nat \<Rightarrow> 'i \<Rightarrow> 'i result" where
  "steps step 0 it = Inr it"
| "steps step (Suc n) it = bind_result (step it) (steps step n)"

locale internal_iterator =
  fixes at_end :: "'i \<Rightarrow> bool result"
    and step :: "'i \<Rightarrow> 'i result"
    and get_key :: "'i \<Rightarrow> key result"
    and get_seq_number :: "'i \<Rightarrow> u64 result"
    and get_entry_type :: "'i \<Rightarrow> data_entry_type result"
    and delivers :: "'i \<Rightarrow> (key \<times> memtable_entry) list \<Rightarrow> bool"
  assumes at_end_ok: "delivers it xs \<Longrightarrow> at_end it = Inr (xs = [])"
    and step_ok: "delivers it (x # xs) \<Longrightarrow> \<exists>it'. step it = Inr it' \<and> delivers it' xs"
    and key_ok: "delivers it ((k, e) # xs) \<Longrightarrow> get_key it = Inr k"
    and seq_ok: "delivers it ((k, e) # xs) \<Longrightarrow> get_seq_number it = Inr (entry_seq_number e)"
    and type_ok: "delivers it ((k, e) # xs) \<Longrightarrow> get_entry_type it = Inr (entry_type_of e)"
begin

lemma skip_loop_ok:
  assumes "delivers it xs"
  shows "\<exists>it'. skip_loop at_end step get_key p it = Some (Inr it') \<and> delivers it' (dropWhile (p \<circ> fst) xs)"
  using assms
proof (induction xs arbitrary: it)
  case Nil
  then show ?case using at_end_ok [OF Nil] by (subst skip_loop.simps) simp
next
  case (Cons x xs)
  obtain k e where x: "x = (k, e)" by (cases x)
  have key: "get_key it = Inr k" using key_ok Cons.prems x by blast
  have ne: "at_end it = Inr False" using at_end_ok [OF Cons.prems] by simp
  obtain it1 where it1: "step it = Inr it1" "delivers it1 xs" using step_ok [OF Cons.prems] by blast
  show ?case
  proof (cases "p k")
    case True
    have "skip_loop at_end step get_key p it = skip_loop at_end step get_key p it1"
      using True key ne it1(1) by (subst skip_loop.simps) simp
    then show ?thesis using Cons.IH [OF it1(2)] True x by simp
  next
    case False
    then show ?thesis using key ne Cons.prems x by (subst skip_loop.simps) simp
  qed
qed

lemma steps_ok:
  assumes "delivers it xs" and "n \<le> length xs"
  shows "\<exists>it'. steps step n it = Inr it' \<and> delivers it' (drop n xs)"
  using assms
proof (induction n arbitrary: it xs)
  case 0
  then show ?case by simp
next
  case (Suc n)
  then obtain x ys where xs: "xs = x # ys" by (cases xs) auto
  obtain it1 where it1: "step it = Inr it1" "delivers it1 ys"
    using step_ok Suc.prems(1) unfolding xs by blast
  show ?case using Suc.IH [OF it1(2)] Suc.prems(2) it1 xs by simp
qed

text \<open>The sequence of entries an iterator delivers, one \<open>step\<close> after the other.\<close>

lemma enumerates:
  assumes "delivers it xs" and "n \<le> length xs"
  shows "\<exists>it'. steps step n it = Inr it' \<and> at_end it' = Inr (n = length xs) \<and>
      (n < length xs \<longrightarrow>
         get_key it' = Inr (fst (xs ! n)) \<and>
         get_seq_number it' = Inr (entry_seq_number (snd (xs ! n))) \<and>
         get_entry_type it' = Inr (entry_type_of (snd (xs ! n))))"
proof -
  obtain it' where it': "steps step n it = Inr it'" "delivers it' (drop n xs)"
    using steps_ok [OF assms] by blast
  have cur: "get_key it' = Inr (fst (xs ! n)) \<and> get_seq_number it' = Inr (entry_seq_number (snd (xs ! n))) \<and>
      get_entry_type it' = Inr (entry_type_of (snd (xs ! n)))" if "n < length xs"
  proof -
    have "drop n xs = (fst (xs ! n), snd (xs ! n)) # drop (Suc n) xs"
      using that by (simp add: Cons_nth_drop_Suc)
    then have d: "delivers it' ((fst (xs ! n), snd (xs ! n)) # drop (Suc n) xs)" using it'(2) by simp
    show ?thesis using key_ok [OF d] seq_ok [OF d] type_ok [OF d] by simp
  qed
  show ?thesis using it' at_end_ok [OF it'(2)] cur assms(2) by auto
qed

end

text \<open>
  The trait documents that \<open>get_entry\<close> returns \<open>None\<close> when the current entry is a deletion; an
  iterator that keeps this clause extends the interface.
\<close>

locale deletion_aware_iterator = internal_iterator +
  fixes get_value :: "'i \<Rightarrow> val option result"
  assumes value_ok: "delivers it ((k, e) # xs) \<Longrightarrow> get_value it = Inr (entry_value e)"

end
