(* ===== verification/Lsm_Memtable.thy ===== *)
theory Lsm_Memtable
  imports Lsm_Disk Lsm_Iterator
begin

text \<open>
  The memtable (\<open>src/src/memtable.rs\<close>): a vector of entries sorted by key, its size in bytes and the next
  sequence number, with the operations of \<open>Memtable\<close> and the iterator \<open>MemtableIterator\<close>.

  The lemmas show that the vector stays strictly sorted, that the size is exact, that lookups see
  exactly the last write of a key and that iterators enumerate the entries in either direction.
\<close>

section \<open>The memtable\<close>

record memtable =
  entries :: "(key \<times> memtable_entry) list"
  mt_size :: nat
  next_seq_number :: u64

definition memtable_new :: "u64 \<Rightarrow> memtable" where
  "memtable_new n = \<lparr> entries = [], mt_size = 0, next_seq_number = n \<rparr>"

definition get_min_max_key :: "memtable \<Rightarrow> (key \<times> key) result" where
  "get_min_max_key m =
     (let len = length (entries m) in
      if len = 0 then Inl (Panic ''Memtable is empty'')
      else Inr (fst (entries m ! 0), fst (entries m ! (len - 1))))"

definition memtable_get :: "memtable \<Rightarrow> key \<Rightarrow> memtable_entry option" where
  "memtable_get m k =
     (case binary_search_by_key fst (entries m) k of
        Found pos \<Rightarrow> Some (snd (entries m ! pos))
      | Missing _ \<Rightarrow> None)"

text \<open>The bytes an entry accounts for, as \<open>get_key_pos\<close> computes them.\<close>

definition entry_len :: "key \<Rightarrow> memtable_entry \<Rightarrow> nat" where
  "entry_len k e = (case e of Value s v \<Rightarrow> length k + length v | Deletion s \<Rightarrow> length k)"

definition get_key_pos :: "memtable \<Rightarrow> key \<Rightarrow> (memtable \<times> nat) result" where
  "get_key_pos m k =
     (case binary_search_by_key fst (entries m) k of
        Found pos \<Rightarrow>
          bind_result (vec_remove (entries m) pos) (\<lambda>(old, es).
          bind_result (checked_sub (mt_size m) (entry_len k (snd old))) (\<lambda>sz.
          Inr (m\<lparr> entries := es, mt_size := sz \<rparr>, pos)))
      | Missing pos \<Rightarrow> Inr (m, pos))"

definition memtable_put :: "memtable \<Rightarrow> key \<Rightarrow> val \<Rightarrow> memtable result" where
  "memtable_put m k v =
     bind_result (get_key_pos m k) (\<lambda>(m, pos).
     bind_result (vec_insert (entries m) pos (k, Value (next_seq_number m) v)) (\<lambda>es.
     bind_result (u64_inc (next_seq_number m)) (\<lambda>seq.
     Inr (m\<lparr> entries := es, mt_size := mt_size m + (length k + length v),
             next_seq_number := seq \<rparr>))))"

definition memtable_delete :: "memtable \<Rightarrow> key \<Rightarrow> memtable result" where
  "memtable_delete m k =
     bind_result (get_key_pos m k) (\<lambda>(m, pos).
     bind_result (vec_insert (entries m) pos (k, Deletion (next_seq_number m))) (\<lambda>es.
     bind_result (u64_inc (next_seq_number m)) (\<lambda>seq.
     Inr (m\<lparr> entries := es, mt_size := mt_size m + length k, next_seq_number := seq \<rparr>))))"

definition is_full :: "memtable \<Rightarrow> params \<Rightarrow> bool" where
  "is_full m p \<longleftrightarrow> mt_size m \<ge> max_memtable_size p"

definition memtable_apply :: "memtable \<Rightarrow> write_op \<Rightarrow> memtable result" where
  "memtable_apply m op =
     (case op of Put k v \<Rightarrow> memtable_put m k v | Delete k \<Rightarrow> memtable_delete m k)"

text \<open>
  \<open>MemtableRef::take\<close>: the current contents become immutable, a fresh memtable takes their place.
\<close>

definition memtable_take :: "memtable \<Rightarrow> u64 \<Rightarrow> memtable \<times> memtable" where
  "memtable_take m n = (m, memtable_new n)"

subsection \<open>The invariant\<close>

definition mt_ok :: "memtable \<Rightarrow> bool" where
  "mt_ok m \<longleftrightarrow>
     sorted_strict (map fst (entries m)) \<and>
     mt_size m = sum_list (map (\<lambda>(k, e). entry_len k e) (entries m)) \<and>
     (\<forall>(k, e) \<in> set (entries m). entry_seq_number e < next_seq_number m)"

text \<open>The abstract contents of a memtable.\<close>

definition mt_map :: "memtable \<Rightarrow> key \<rightharpoonup> memtable_entry" where
  "mt_map m = map_of (entries m)"

lemma mt_okD:
  assumes "mt_ok m"
  shows "sorted_strict (map fst (entries m))"
    "mt_size m = sum_list (map (\<lambda>(k, e). entry_len k e) (entries m))"
    "\<And>k e. (k, e) \<in> set (entries m) \<Longrightarrow> entry_seq_number e < next_seq_number m"
  using assms by (auto simp: mt_ok_def)

lemma mt_ok_new [simp]: "mt_ok (memtable_new n)"
  by (simp add: mt_ok_def memtable_new_def)

lemma memtable_new_seq [simp]: "next_seq_number (memtable_new n) = n"
  by (simp add: memtable_new_def)

lemma mt_map_new [simp]: "mt_map (memtable_new n) = Map.empty"
  by (simp add: mt_map_def memtable_new_def)

lemma memtable_get_eq:
  assumes "mt_ok m"
  shows "memtable_get m k = mt_map m k"
proof (cases "binary_search_by_key fst (entries m) k")
  case (Found pos)
  then have "pos < length (entries m)" "fst (entries m ! pos) = k"
    using binary_search_Found_iff mt_okD(1) [OF assms] by auto
  then have "(k, snd (entries m ! pos)) \<in> set (entries m)"
    by (metis nth_mem prod.collapse)
  then show ?thesis
    using Found sorted_strict_distinct [OF mt_okD(1) [OF assms]]
    by (simp add: memtable_get_def mt_map_def)
next
  case (Missing pos)
  note less = binary_search_MissingD(2,3) [OF mt_okD(1) [OF assms] Missing]
  have "k \<notin> fst ` set (entries m)"
  proof
    assume "k \<in> fst ` set (entries m)"
    then obtain j where "j < length (entries m)" "fst (entries m ! j) = k"
      by (metis (no_types, lifting) image_iff in_set_conv_nth)
    then show False using less [of j] by (cases "j < pos") auto
  qed
  then show ?thesis
    using Missing map_of_eq_None_iff [of "entries m" k] by (simp add: memtable_get_def mt_map_def)
qed

text \<open>
  \<open>get_key_pos\<close> splits the vector at the key: what it leaves holds no entry of the key, and the
  position it returns separates the smaller from the greater keys.
\<close>

definition key_split :: "memtable \<Rightarrow> key \<Rightarrow> memtable \<Rightarrow> nat \<Rightarrow> bool" where
  "key_split m k m' pos \<longleftrightarrow>
     mt_ok m' \<and> pos \<le> length (entries m') \<and>
     (\<forall>x \<in> set (take pos (entries m')). fst x < k) \<and>
     (\<forall>x \<in> set (drop pos (entries m')). k < fst x) \<and>
     mt_map m' = (mt_map m)(k := None) \<and> next_seq_number m' = next_seq_number m"

lemma sum_list_split_nth:
  "i < length xs \<Longrightarrow> sum_list (map f xs) = sum_list (map f (take i xs)) + f (xs ! i) +
     (sum_list (map f (drop (Suc i) xs)) :: nat)"
  by (subst id_take_nth_drop [of i xs]) (auto simp del: append_take_drop_id)

lemma get_key_pos_ok:
  assumes ok: "mt_ok m"
  shows "\<exists>m' pos. get_key_pos m k = Inr (m', pos) \<and> key_split m k m' pos"
proof (cases "binary_search_by_key fst (entries m) k")
  case (Found pos)
  let ?es = "entries m" and ?rest = "take pos (entries m) @ drop (Suc pos) (entries m)"
  let ?len = "\<lambda>es. sum_list (map (\<lambda>(k, e). entry_len k e) es)"
  have sorted: "sorted_strict (map fst ?es)" by (rule mt_okD(1) [OF ok])
  have pos: "pos < length ?es" and key: "fst (?es ! pos) = k"
    using Found binary_search_Found_iff [OF sorted] by auto
  have split: "?es = take pos ?es @ ?es ! pos # drop (Suc pos) ?es"
    using pos by (rule id_take_nth_drop)
  have sorted_split: "sorted_strict (map fst (take pos ?es) @ k # map fst (drop (Suc pos) ?es))"
    using sorted split key by (metis list.simps(9) map_append)
  have size: "mt_size m = ?len ?rest + entry_len k (snd (?es ! pos))"
    using mt_okD(2) [OF ok] sum_list_split_nth [OF pos] key by (simp add: case_prod_beta)
  define m' where "m' = m\<lparr> entries := ?rest, mt_size := ?len ?rest \<rparr>"
  have "get_key_pos m k = Inr (m', pos)"
    using Found pos size by (simp add: get_key_pos_def m'_def)
  moreover have "mt_ok m'"
    using sorted_split mt_okD(3) [OF ok]
    by (auto simp: mt_ok_def m'_def sorted_wrt_append dest: in_set_takeD in_set_dropD)
  moreover have "mt_map m' = (mt_map m)(k := None)"
  proof -
    have "k \<notin> fst ` set ?rest"
      using sorted_split by (auto simp: sorted_wrt_append)
    then have none: "map_of ?rest k = None" by (simp add: map_of_eq_None_iff del: map_of_append)
    have "map_of ?es k' = map_of ?rest k'" if "k' \<noteq> k" for k'
      using key that by (subst split) (simp add: map_add_def split: option.split)
    then show ?thesis using none by (auto simp: mt_map_def m'_def fun_eq_iff)
  qed
  ultimately show ?thesis
    using pos sorted_split
    by (auto simp: key_split_def m'_def sorted_wrt_append intro!: exI [of _ m'] exI [of _ pos])
next
  case (Missing pos)
  note miss = binary_search_MissingD [OF mt_okD(1) [OF ok] Missing]
  have "mt_map m k = None"
    using Missing memtable_get_eq [OF ok, of k] by (simp add: memtable_get_def)
  then have "mt_map m = (mt_map m)(k := None)" by auto
  moreover have "fst x < k" if "x \<in> set (take pos (entries m))" for x
    using that miss(1,2) by (auto simp: in_set_conv_nth)
  moreover have "k < fst x" if "x \<in> set (drop pos (entries m))" for x
    using that miss(3) by (auto simp: in_set_conv_nth)
  ultimately have "key_split m k m pos"
    using ok miss(1) by (auto simp: key_split_def)
  then show ?thesis using Missing by (auto simp: get_key_pos_def)
qed

text \<open>Inserting at the position \<open>get_key_pos\<close> returns keeps the vector sorted and updates the map.\<close>

lemma insert_entry_ok:
  assumes split: "key_split m k m' pos" and seq: "u64_inc (next_seq_number m) = Inr n"
    and e: "entry_seq_number e = next_seq_number m"
  defines "r \<equiv> m'\<lparr> entries := take pos (entries m') @ (k, e) # drop pos (entries m'),
                   mt_size := mt_size m' + entry_len k e, next_seq_number := n \<rparr>"
  shows "mt_ok r" "mt_map r = (mt_map m)(k \<mapsto> e)" "next_seq_number r = next_seq_number m + 1"
proof -
  let ?pre = "take pos (entries m')" and ?post = "drop pos (entries m')"
  have ok: "mt_ok m'" and lt: "\<forall>x \<in> set ?pre. fst x < k" and gt: "\<forall>x \<in> set ?post. k < fst x"
    and map: "mt_map m' = (mt_map m)(k := None)" and nsn: "next_seq_number m' = next_seq_number m"
    using split by (auto simp: key_split_def)
  have es: "entries m' = ?pre @ ?post" by simp
  have n: "n = next_seq_number m + 1" "next_seq_number m < n" using u64_inc_eq_Inr [OF seq] by auto
  have sorted: "sorted_strict (map fst ?pre @ map fst ?post)"
    using mt_okD(1) [OF ok] by (metis append_take_drop_id map_append)
  have "sorted_strict (map fst (entries r))"
    using sorted lt gt by (auto simp: r_def sorted_wrt_append)
  moreover have "mt_size r = sum_list (map (\<lambda>(k, e). entry_len k e) (entries r))"
  proof -
    have "mt_size m' = sum_list (map (\<lambda>(k, e). entry_len k e) (?pre @ ?post))"
      using mt_okD(2) [OF ok] by simp
    then show ?thesis by (simp add: r_def del: append_take_drop_id)
  qed
  moreover have "entry_seq_number e' < n" if "(k', e') \<in> set (entries r)" for k' e'
  proof -
    have "(k', e') = (k, e) \<or> (k', e') \<in> set (entries m')"
      using that by (auto simp: r_def dest: in_set_takeD in_set_dropD)
    then show ?thesis using e n(2) mt_okD(3) [OF ok] nsn by (auto intro: less_trans)
  qed
  ultimately show "mt_ok r" by (auto simp: mt_ok_def r_def)
  have pre: "map_of ?pre k = None" using lt by (fastforce simp: map_of_eq_None_iff)
  have "map_of (?pre @ (k, e) # ?post) = (map_of (?pre @ ?post))(k \<mapsto> e)"
    using pre by (auto simp: map_add_def fun_eq_iff simp del: append_take_drop_id
        split: option.splits)
  then show "mt_map r = (mt_map m)(k \<mapsto> e)"
    using map by (simp add: mt_map_def r_def)
  show "next_seq_number r = next_seq_number m + 1" using n by (simp add: r_def)
qed

lemma memtable_put_ok:
  assumes "mt_ok m" and "u64_inc (next_seq_number m) = Inr n"
  obtains m' where "memtable_put m k v = Inr m'" "mt_ok m'"
    "mt_map m' = (mt_map m)(k \<mapsto> Value (next_seq_number m) v)"
    "next_seq_number m' = next_seq_number m + 1"
proof -
  obtain m1 pos where g: "get_key_pos m k = Inr (m1, pos)" and s: "key_split m k m1 pos"
    using get_key_pos_ok [OF assms(1)] by blast
  have n1: "next_seq_number m1 = next_seq_number m" "pos \<le> length (entries m1)"
    using s by (auto simp: key_split_def)
  let ?e = "Value (next_seq_number m) v"
  show thesis
    using that insert_entry_ok [OF s assms(2), of ?e] g n1 assms(2)
    by (simp add: memtable_put_def entry_len_def)
qed

lemma memtable_delete_ok:
  assumes "mt_ok m" and "u64_inc (next_seq_number m) = Inr n"
  obtains m' where "memtable_delete m k = Inr m'" "mt_ok m'"
    "mt_map m' = (mt_map m)(k \<mapsto> Deletion (next_seq_number m))"
    "next_seq_number m' = next_seq_number m + 1"
proof -
  obtain m1 pos where g: "get_key_pos m k = Inr (m1, pos)" and s: "key_split m k m1 pos"
    using get_key_pos_ok [OF assms(1)] by blast
  have n1: "next_seq_number m1 = next_seq_number m" "pos \<le> length (entries m1)"
    using s by (auto simp: key_split_def)
  let ?e = "Deletion (next_seq_number m)"
  show thesis
    using that insert_entry_ok [OF s assms(2), of ?e] g n1 assms(2)
    by (simp add: memtable_delete_def entry_len_def)
qed

text \<open>The memtable is a versioned store.\<close>

interpretation mt: versioned_store memtable_get memtable_apply next_seq_number mt_ok
proof unfold_locales
  fix m op
  assume ok: "mt_ok m" and lt: "unat (next_seq_number m) < 2 ^ 64 - 1"
  note inc = u64_inc_ok [OF lt]
  show "\<exists>m'. memtable_apply m op = Inr m' \<and> mt_ok m' \<and>
      next_seq_number m' = next_seq_number m + 1 \<and>
      memtable_get m' = (memtable_get m)(write_op_key op \<mapsto> op_entry (next_seq_number m) op)"
  proof (cases op)
    case (Put k v)
    obtain m' where "memtable_put m k v = Inr m'" "mt_ok m'"
        "mt_map m' = (mt_map m)(k \<mapsto> Value (next_seq_number m) v)"
        "next_seq_number m' = next_seq_number m + 1"
      using memtable_put_ok [OF ok inc] by blast
    then show ?thesis
      using Put memtable_get_eq [OF ok] memtable_get_eq [of m']
      by (auto simp: memtable_apply_def fun_eq_iff)
  next
    case (Delete k)
    obtain m' where "memtable_delete m k = Inr m'" "mt_ok m'"
        "mt_map m' = (mt_map m)(k \<mapsto> Deletion (next_seq_number m))"
        "next_seq_number m' = next_seq_number m + 1"
      using memtable_delete_ok [OF ok inc] by blast
    then show ?thesis
      using Delete memtable_get_eq [OF ok] memtable_get_eq [of m']
      by (auto simp: memtable_apply_def fun_eq_iff)
  qed
qed

section \<open>The memtable iterator\<close>

record memtable_iterator =
  mi_inner :: memtable
  mi_next_index :: int
  mi_key :: "key option"
  mi_entry :: "memtable_entry option"
  mi_reverse :: bool

definition memtable_iter_step :: "memtable_iterator \<Rightarrow> memtable_iterator result" where
  "memtable_iter_step it =
     (let es = entries (mi_inner it); num_entries = int (length es); i = mi_next_index it in
      if mi_reverse it
      then if i < - 1 then Inl (Panic ''Cannot step(); already at end'')
           else if i = - 1 then Inr (it\<lparr> mi_next_index := i - 1 \<rparr>)
           else bind_result (index es (nat i)) (\<lambda>(k, e).
                Inr (it\<lparr> mi_key := Some k, mi_entry := Some e, mi_next_index := i - 1 \<rparr>))
      else if i > num_entries then Inl (Panic ''Cannot step(); already at end'')
           else if i = num_entries then Inr (it\<lparr> mi_next_index := i + 1 \<rparr>)
           else bind_result (index es (nat i)) (\<lambda>(k, e).
                Inr (it\<lparr> mi_key := Some k, mi_entry := Some e, mi_next_index := i + 1 \<rparr>)))"

definition memtable_iter_new :: "memtable \<Rightarrow> bool \<Rightarrow> memtable_iterator result" where
  "memtable_iter_new m reverse =
     memtable_iter_step
       \<lparr> mi_inner = m,
         mi_next_index = (if reverse then int (length (entries m)) - 1 else 0),
         mi_key = None, mi_entry = None, mi_reverse = reverse \<rparr>"

definition memtable_iter_at_end :: "memtable_iterator \<Rightarrow> bool" where
  "memtable_iter_at_end it =
     (if mi_reverse it then mi_next_index it < - 1
      else mi_next_index it > int (length (entries (mi_inner it))))"

definition memtable_iter_get_key :: "memtable_iterator \<Rightarrow> key result" where
  "memtable_iter_get_key it = expect (mi_key it) ''Not a valid iterator''"

text \<open>
  \<open>get_entry\<close> wraps whatever entry the iterator is at; the reference it returns yields a value only
  when the entry is not a deletion.
\<close>

definition memtable_iter_get_entry :: "memtable_iterator \<Rightarrow> memtable_entry option" where
  "memtable_iter_get_entry it = mi_entry it"

definition memtable_iter_get_seq_number :: "memtable_iterator \<Rightarrow> u64 result" where
  "memtable_iter_get_seq_number it =
     bind_result (expect (mi_entry it) ''called `Option::unwrap()` on a `None` value'')
       (\<lambda>e. Inr (entry_seq_number e))"

definition memtable_iter_get_entry_type :: "memtable_iterator \<Rightarrow> data_entry_type result" where
  "memtable_iter_get_entry_type it =
     bind_result (expect (mi_entry it) ''called `Option::unwrap()` on a `None` value'')
       (\<lambda>e. Inr (entry_type_of e))"

text \<open>
  The entries still to come: the current one (if the iterator is not at its end) and those the
  index has not reached.
\<close>

definition mi_remaining :: "memtable_iterator \<Rightarrow> (key \<times> memtable_entry) list" where
  "mi_remaining it =
     (if memtable_iter_at_end it then []
      else if mi_reverse it then rev (take (nat (mi_next_index it + 2)) (entries (mi_inner it)))
      else drop (nat (mi_next_index it - 1)) (entries (mi_inner it)))"

definition mi_ok :: "memtable_iterator \<Rightarrow> bool" where
  "mi_ok it \<longleftrightarrow>
     (memtable_iter_at_end it \<or>
      (let es = entries (mi_inner it); cur = mi_next_index it + (if mi_reverse it then 1 else - 1) in
       0 \<le> cur \<and> cur < int (length es) \<and>
       mi_key it = Some (fst (es ! nat cur)) \<and> mi_entry it = Some (snd (es ! nat cur))))"

lemma mi_remaining_forward:
  assumes "mi_ok it" "\<not> memtable_iter_at_end it" "\<not> mi_reverse it"
  obtains n where "mi_next_index it = int n + 1" "n < length (entries (mi_inner it))"
    "mi_key it = Some (fst (entries (mi_inner it) ! n))"
    "mi_entry it = Some (snd (entries (mi_inner it) ! n))"
    "mi_remaining it = entries (mi_inner it) ! n # drop (Suc n) (entries (mi_inner it))"
proof -
  define n where "n = nat (mi_next_index it - 1)"
  have n: "mi_next_index it = int n + 1" "n < length (entries (mi_inner it))"
    using assms by (auto simp: mi_ok_def n_def Let_def)
  show thesis
  proof (rule that [OF n])
    show "mi_key it = Some (fst (entries (mi_inner it) ! n))"
      "mi_entry it = Some (snd (entries (mi_inner it) ! n))"
      using assms n by (auto simp: mi_ok_def Let_def)
    show "mi_remaining it = entries (mi_inner it) ! n # drop (Suc n) (entries (mi_inner it))"
      using assms n by (simp add: mi_remaining_def Cons_nth_drop_Suc)
  qed
qed

lemma mi_remaining_reverse:
  assumes "mi_ok it" "\<not> memtable_iter_at_end it" "mi_reverse it"
  obtains n where "mi_next_index it = int n - 1" "n < length (entries (mi_inner it))"
    "mi_key it = Some (fst (entries (mi_inner it) ! n))"
    "mi_entry it = Some (snd (entries (mi_inner it) ! n))"
    "mi_remaining it = entries (mi_inner it) ! n # rev (take n (entries (mi_inner it)))"
proof -
  define n where "n = nat (mi_next_index it + 1)"
  have n: "mi_next_index it = int n - 1" "n < length (entries (mi_inner it))"
    using assms by (auto simp: mi_ok_def n_def Let_def)
  have two: "nat (mi_next_index it + 2) = Suc n" using n(1) by simp
  show thesis
  proof (rule that [OF n])
    show "mi_key it = Some (fst (entries (mi_inner it) ! n))"
      "mi_entry it = Some (snd (entries (mi_inner it) ! n))"
      using assms n by (auto simp: mi_ok_def Let_def)
    show "mi_remaining it = entries (mi_inner it) ! n # rev (take n (entries (mi_inner it)))"
      using assms n two by (simp add: mi_remaining_def take_Suc_conv_app_nth)
  qed
qed

lemmas mi_step_simps = memtable_iter_step_def memtable_iter_at_end_def mi_ok_def mi_remaining_def
  Let_def

lemma memtable_iter_step_ok:
  assumes "mi_ok it" and "\<not> memtable_iter_at_end it"
  shows "\<exists>it'. memtable_iter_step it = Inr it' \<and> mi_ok it' \<and> mi_remaining it' = tl (mi_remaining it)"
proof (cases "mi_reverse it")
  case True
  let ?es = "entries (mi_inner it)"
  obtain n where n: "mi_next_index it = int n - 1" "n < length ?es"
      "mi_remaining it = ?es ! n # rev (take n ?es)"
    using mi_remaining_reverse [OF assms True] by metis
  show ?thesis
  proof (cases n)
    case 0
    then show ?thesis using n True by (simp add: mi_step_simps)
  next
    case (Suc m)
    then have m: "mi_next_index it = int m" "m < length ?es" using n by auto
    have "nat (int m + 1) = Suc m" "nat (1 + int m) = Suc m" by simp_all
    then show ?thesis using n m True Suc by (simp add: mi_step_simps case_prod_beta)
  qed
next
  case False
  let ?es = "entries (mi_inner it)"
  obtain n where n: "mi_next_index it = int n + 1" "n < length ?es"
      "mi_remaining it = ?es ! n # drop (Suc n) ?es"
    using mi_remaining_forward [OF assms False] by metis
  have nat: "nat (int n + 1) = Suc n" "nat (1 + int n) = Suc n" by simp_all
  show ?thesis
  proof (cases "Suc n = length ?es")
    case True
    then show ?thesis using n False by (simp add: mi_step_simps)
  next
    case neq: False
    then show ?thesis using n nat False by (simp add: mi_step_simps case_prod_beta)
  qed
qed

definition mi_delivers :: "memtable_iterator \<Rightarrow> (key \<times> memtable_entry) list \<Rightarrow> bool" where
  "mi_delivers it xs \<longleftrightarrow> mi_ok it \<and> mi_remaining it = xs"

lemma mi_current:
  assumes "mi_delivers it ((k, e) # xs)"
  shows "mi_key it = Some k" "mi_entry it = Some e"
proof -
  have ok: "mi_ok it" and r: "mi_remaining it = (k, e) # xs" using assms by (simp_all add: mi_delivers_def)
  have ne: "\<not> memtable_iter_at_end it" using r by (auto simp: mi_remaining_def)
  show "mi_key it = Some k" "mi_entry it = Some e"
    using mi_remaining_reverse [OF ok ne] mi_remaining_forward [OF ok ne] r
    by (metis fst_conv list.inject snd_conv)+
qed

interpretation mi: internal_iterator "\<lambda>it. Inr (memtable_iter_at_end it)" memtable_iter_step memtable_iter_get_key
  memtable_iter_get_seq_number memtable_iter_get_entry_type mi_delivers
proof unfold_locales
  fix it xs
  assume "mi_delivers it xs"
  then have ok: "mi_ok it" and xs: "mi_remaining it = xs" by (simp_all add: mi_delivers_def)
  have "memtable_iter_at_end it \<longleftrightarrow> xs = []"
    using mi_remaining_forward [OF ok] mi_remaining_reverse [OF ok] xs
    by (metis list.distinct(1) mi_remaining_def)
  then show "Inr (memtable_iter_at_end it) = Inr (xs = [])" by simp
next
  fix it x xs
  assume "mi_delivers it (x # xs)"
  then have ok: "mi_ok it" and r: "mi_remaining it = x # xs" by (simp_all add: mi_delivers_def)
  have "\<not> memtable_iter_at_end it" using r by (auto simp: mi_remaining_def)
  from memtable_iter_step_ok [OF ok this] r
  show "\<exists>it'. memtable_iter_step it = Inr it' \<and> mi_delivers it' xs" by (simp add: mi_delivers_def)
qed (simp_all add: mi_current memtable_iter_get_key_def memtable_iter_get_seq_number_def
    memtable_iter_get_entry_type_def)

lemma memtable_iter_new_ok:
  "\<exists>it. memtable_iter_new m reverse = Inr it \<and>
        mi_delivers it (if reverse then rev (entries m) else entries m)"
proof (cases "entries m = []")
  case True
  then show ?thesis by (simp add: memtable_iter_new_def mi_delivers_def mi_step_simps)
next
  case False
  have nat: "nat (int (length (entries m)) - 1) = length (entries m) - 1" by simp
  show ?thesis
    using False nat by (cases reverse) (auto simp: memtable_iter_new_def mi_delivers_def mi_step_simps case_prod_beta)
qed

section \<open>Properties of the memtable\<close>

text \<open>C1: Applying any sequence of puts and deletes to a well-formed memtable succeeds as long as the
  sequence numbers last, keeps the vector sorted and the size exact, stamps every write with the next
  sequence number, and afterwards every lookup sees the last write of its key; seen as a key-value
  map, the memtable is the old one with the writes applied in order.\<close>

theorem memtable_writes:
  assumes "mt_ok m" and "unat (next_seq_number m) + length ops < 2 ^ 64"
  shows "\<exists>m'. fold_result memtable_apply m ops = Inr m' \<and> mt_ok m' \<and>
      unat (next_seq_number m') = unat (next_seq_number m) + length ops \<and>
      memtable_get m' = apply_writes (next_seq_number m) ops (memtable_get m) \<and>
      visible (memtable_get m') = fold kv_apply ops (visible (memtable_get m))"
  using mt.apply_all [OF assms] visible_apply_writes by fastforce

theorem memtable_writes_witness:
  "\<exists>m'. fold_result memtable_apply (memtable_new 1) [Put [7] [1], Put [3] [2], Delete [7]] = Inr m' \<and>
      mt_ok m' \<and> visible (memtable_get m') = [[3] \<mapsto> [2]]"
proof -
  have get: "visible (memtable_get (memtable_new 1)) = Map.empty"
    by (simp add: visible_def memtable_get_eq fun_eq_iff)
  have kv: "fold kv_apply [Put [7] [1], Put [3] [2], Delete [7]] Map.empty = [[3] \<mapsto> [2]]"
    by (auto simp: fun_eq_iff)
  show ?thesis
    using memtable_writes [of "memtable_new 1" "[Put [7] [1], Put [3] [2], Delete [7]]",
        unfolded get kv] by auto
qed

text \<open>C2: A new memtable iterator delivers exactly the entries of the memtable, in ascending key order or,
  for a reverse iterator, in descending order: after any number of steps up to the number of entries
  it is at its end exactly when all were delivered, and otherwise its accessors return the key,
  sequence number and type of the next one. No check of the source fires.\<close>

theorem memtable_iterator_enumerates:
  assumes "es = (if reverse then rev (entries m) else entries m)" and "n \<le> length es"
  shows "\<exists>it0 it. memtable_iter_new m reverse = Inr it0 \<and> steps memtable_iter_step n it0 = Inr it \<and>
      (memtable_iter_at_end it \<longleftrightarrow> n = length es) \<and>
      (n < length es \<longrightarrow>
         memtable_iter_get_key it = Inr (fst (es ! n)) \<and>
         memtable_iter_get_seq_number it = Inr (entry_seq_number (snd (es ! n))) \<and>
         memtable_iter_get_entry_type it = Inr (entry_type_of (snd (es ! n))))"
proof -
  obtain it0 where "memtable_iter_new m reverse = Inr it0" "mi_delivers it0 es"
    using memtable_iter_new_ok [of m reverse] assms(1) by metis
  then show ?thesis using mi.enumerates [of it0 es n] assms(2) by simp
qed

theorem memtable_iterator_enumerates_witness:
  "\<exists>it0 it. memtable_iter_new \<lparr> entries = [([1], Value 1 [5]), ([2], Deletion 2)], mt_size = 3,
                next_seq_number = 3 \<rparr> True = Inr it0 \<and>
      steps memtable_iter_step 1 it0 = Inr it \<and> \<not> memtable_iter_at_end it \<and>
      memtable_iter_get_key it = Inr [1]"
  using memtable_iterator_enumerates [of "[([2], Deletion 2), ([1], Value 1 [5])]" True
      "\<lparr> entries = [([1], Value 1 [5]), ([2], Deletion 2)], mt_size = 3, next_seq_number = 3 \<rparr>" 1]
  by auto

end
