(* ===== verification/Lsm_Wal.thy ===== *)
theory Lsm_Wal
  imports Lsm_Memtable
begin

text \<open>
  The write-ahead log: the entries and their encoding and the status shared between clients and the
  writer task (\<open>src/src/wal/mod.rs\<close>), and the writer that lays the byte stream of the log out in
  files of one page each (\<open>src/src/wal/writer.rs\<close>).

  The log is one stream of bytes; page \<open>i\<close> of it lives in the file \<open>wal_file_path p i\<close>. The lemmas
  show that the writer keeps the files equal to the pages of the stream of everything written.
\<close>

section \<open>Log entries and their encoding\<close>

datatype log_entry =
    Write write_op
  | DeleteBatch u64 u16
  | DeleteValue u64 u16

datatype log_entry_type = WriteType | DeleteValueType | DeleteBatchType

primrec log_entry_type_u8 :: "log_entry_type \<Rightarrow> u8" where
  "log_entry_type_u8 WriteType = 0"
| "log_entry_type_u8 DeleteValueType = 1"
| "log_entry_type_u8 DeleteBatchType = 2"

definition log_entry_type_try_from :: "u8 \<Rightarrow> log_entry_type option" where
  "log_entry_type_try_from x =
     find (\<lambda>t. x = log_entry_type_u8 t) [WriteType, DeleteValueType, DeleteBatchType]"

primrec log_entry_get_type :: "log_entry \<Rightarrow> log_entry_type" where
  "log_entry_get_type (Write op) = WriteType"
| "log_entry_get_type (DeleteValue page off) = DeleteValueType"
| "log_entry_get_type (DeleteBatch page off) = DeleteBatchType"

primrec encode_entry :: "log_entry \<Rightarrow> bytes" where
  "encode_entry (Write op) =
     [log_entry_type_u8 (log_entry_get_type (Write op))] @
     [write_op_type op] @ u64_bytes (write_op_key_length op) @ write_op_key op @
     (case op of Put k v \<Rightarrow> u64_bytes (write_op_value_length op) @ v | Delete k \<Rightarrow> [])"
| "encode_entry (DeleteValue page_id offset) =
     [log_entry_type_u8 (log_entry_get_type (DeleteValue page_id offset))] @
     u64_bytes page_id @ u16_bytes offset"
| "encode_entry (DeleteBatch page_id offset) =
     [log_entry_type_u8 (log_entry_get_type (DeleteBatch page_id offset))] @
     u64_bytes page_id @ u16_bytes offset"

lemma log_entry_type_round_trip [simp]:
  "log_entry_type_try_from (log_entry_type_u8 t) = Some t"
  by (cases t) (simp_all add: log_entry_type_try_from_def)

lemma encode_entry_length:
  "length (encode_entry (Write op)) =
     (case op of Put k v \<Rightarrow> 18 + length k + length v | Delete k \<Rightarrow> 10 + length k)"
  by (cases op) simp_all

section \<open>The shared status\<close>

record log_status =
  queue_pos :: nat
  write_pos :: nat
  sync_pos :: nat
  queue :: "bytes list"
  sync_flag :: bool
  offset_pos :: nat
  flush_pos :: nat
  stop_flag :: bool

definition log_status_new :: "nat \<Rightarrow> nat \<Rightarrow> log_status" where
  "log_status_new position start_position =
     \<lparr> queue_pos = position, write_pos = position, sync_pos = position, queue = [],
       sync_flag = False, offset_pos = start_position, flush_pos = start_position,
       stop_flag = False \<rparr>"

text \<open>The part of \<open>store\<close> that runs under the lock: every encoded entry is queued.\<close>

definition store_enqueue :: "log_status \<Rightarrow> log_entry list \<Rightarrow> log_status \<times> nat" where
  "store_enqueue st batch =
     fold (\<lambda>data (st, end_pos).
             (st\<lparr> queue := queue st @ [data], queue_pos := queue_pos st + length data \<rparr>,
              end_pos + length data))
       (map encode_entry batch) (st, queue_pos st)"

section \<open>The writer\<close>

definition PAGE_SIZE :: nat where
  "PAGE_SIZE = 4 * 1024"

lemma PAGE_SIZE_pos [simp]: "0 < PAGE_SIZE"
  by (simp add: PAGE_SIZE_def)

text \<open>
  An open file is its path and its cursor. Without the \<open>_async-io\<close> feature \<open>write_all\<close> writes at the
  cursor; with it \<open>write_all_at\<close> writes at the offset it is given.
\<close>

datatype io_mode = StdIo | AsyncIo

record file_handle =
  fh_path :: string
  fh_cursor :: nat

record wal_writer =
  log_file :: file_handle
  position :: nat

definition overwrite :: "bytes \<Rightarrow> nat \<Rightarrow> bytes \<Rightarrow> bytes" where
  "overwrite old pos data =
     take pos old @ replicate (pos - length old) 0 @ data @ drop (pos + length data) old"

definition file_write :: "io_mode \<Rightarrow> fs \<Rightarrow> file_handle \<Rightarrow> nat \<Rightarrow> bytes \<Rightarrow> fs \<times> file_handle" where
  "file_write mode fs h file_offset data =
     (let pos = (case mode of StdIo \<Rightarrow> fh_cursor h | AsyncIo \<Rightarrow> file_offset) in
      ((case fs (fh_path h) of
          None \<Rightarrow> fs
        | Some old \<Rightarrow> fs(fh_path h \<mapsto> overwrite old pos data)),
       (case mode of StdIo \<Rightarrow> h\<lparr> fh_cursor := pos + length data \<rparr> | AsyncIo \<Rightarrow> h)))"

definition create_file :: "params \<Rightarrow> fs \<Rightarrow> nat \<Rightarrow> fs \<times> file_handle" where
  "create_file p fs file_pos =
     (let fpath = wal_file_path p file_pos
      in (fs(fpath \<mapsto> []), \<lparr> fh_path = fpath, fh_cursor = 0 \<rparr>))"

definition open_file :: "params \<Rightarrow> fs \<Rightarrow> nat \<Rightarrow> io_error + file_handle" where
  "open_file p fs fpos =
     (let fpath = wal_file_path p fpos
      in case fs fpath of
           None \<Rightarrow> Inl NotFound
         | Some _ \<Rightarrow> Inr \<lparr> fh_path = fpath, fh_cursor = 0 \<rparr>)"

definition wal_writer_new :: "params \<Rightarrow> fs \<Rightarrow> fs \<times> wal_writer" where
  "wal_writer_new p fs =
     (let (fs', h) = create_file p fs 0
      in (fs', \<lparr> log_file = h, position = 0 \<rparr>))"

definition continue_from :: "params \<Rightarrow> fs \<Rightarrow> nat \<Rightarrow> (fs \<times> wal_writer) result" where
  "continue_from p fs pos =
     (let fpos = pos div PAGE_SIZE in
      if pos mod PAGE_SIZE = 0
      then let (fs', h) = create_file p fs fpos
           in Inr (fs', \<lparr> log_file = h, position = pos \<rparr>)
      else case open_file p fs fpos of
             Inl err \<Rightarrow> Inl (Panic ''Failed to open WAL file in directory'')
           | Inr h \<Rightarrow> Inr (fs, \<lparr> log_file = h, position = pos \<rparr>))"

text \<open>
  \<open>write_all\<close>: one round of its loop writes what fits into the current page and opens the next file
  when the page is full.
\<close>

definition wal_write_page ::
    "params \<Rightarrow> io_mode \<Rightarrow> fs \<Rightarrow> wal_writer \<Rightarrow> bytes \<Rightarrow> nat \<Rightarrow> fs \<times> wal_writer \<times> nat" where
  "wal_write_page p mode fs w data buf_pos =
     (let file_offset = position w mod PAGE_SIZE;
          page_remaining = PAGE_SIZE - file_offset;
          buffer_remaining = length data - buf_pos;
          write_len = min buffer_remaining page_remaining;
          to_write = take write_len (drop buf_pos data);
          (fs1, file1) = file_write mode fs (log_file w) file_offset to_write;
          pos1 = position w + write_len;
          (fs2, file2) =
            (if file_offset + write_len = PAGE_SIZE
             then create_file p fs1 (pos1 div PAGE_SIZE) else (fs1, file1))
      in (fs2, \<lparr> log_file = file2, position = pos1 \<rparr>, buf_pos + write_len))"

lemma wal_write_page_progress:
  assumes "buf_pos < length data" and "wal_write_page p mode fs w data buf_pos = (fs', w', buf')"
  shows "buf_pos < buf'" "buf' \<le> length data"
proof -
  have "buf' = buf_pos + min (length data - buf_pos) (PAGE_SIZE - position w mod PAGE_SIZE)"
    using assms(2) by (auto simp: wal_write_page_def Let_def split: prod.splits if_splits)
  moreover have "0 < PAGE_SIZE - position w mod PAGE_SIZE" by simp
  ultimately show "buf_pos < buf'" "buf' \<le> length data" using assms(1) by auto
qed

lemma wal_write_page_less:
  assumes "buf_pos < length data" and "(fs', w', buf') = wal_write_page p mode fs w data buf_pos"
  shows "length data - buf' < length data - buf_pos"
  using wal_write_page_progress [OF assms(1) assms(2) [symmetric]] assms(1) by linarith

function wal_write_all ::
    "params \<Rightarrow> io_mode \<Rightarrow> fs \<Rightarrow> wal_writer \<Rightarrow> bytes \<Rightarrow> nat \<Rightarrow> fs \<times> wal_writer" where
  "wal_write_all p mode fs w data buf_pos =
     (if buf_pos < length data
      then case wal_write_page p mode fs w data buf_pos of
             (fs', w', buf') \<Rightarrow> wal_write_all p mode fs' w' data buf'
      else (fs, w))"
  by pat_completeness auto
termination
proof (relation "measure (\<lambda>(p, mode, fs, w, data, buf_pos). length data - buf_pos)", goal_cases)
  case (2 p mode fs w data buf_pos fs' y w' buf')
  then show ?case using wal_write_page_less [of buf_pos data fs' w' buf' p mode fs w] by simp
qed simp

declare wal_write_all.simps [simp del]

definition wal_write_bufs ::
    "params \<Rightarrow> io_mode \<Rightarrow> fs \<Rightarrow> wal_writer \<Rightarrow> bytes list \<Rightarrow> fs \<times> wal_writer" where
  "wal_write_bufs p mode fs w bufs =
     fold (\<lambda>buf (fs, w). wal_write_all p mode fs w buf 0) bufs (fs, w)"

text \<open>\<open>WalWriter::set_offset\<close> removes the pages in front of the new offset.\<close>

definition remove_page :: "params \<Rightarrow> fs \<Rightarrow> nat \<Rightarrow> fs result" where
  "remove_page p fs fpos =
     (let fpath = wal_file_path p fpos in
      case remove_file fs fpath of
        Inl err \<Rightarrow> Inl (Fail (from_io_error (''Failed to remove log file '' @ fpath) err))
      | Inr fs' \<Rightarrow> Inr fs')"

definition wal_set_offset :: "params \<Rightarrow> fs \<Rightarrow> nat \<Rightarrow> nat \<Rightarrow> fs result" where
  "wal_set_offset p fs new_offset old_offset =
     (let old_file_pos = old_offset div PAGE_SIZE; new_file_pos = new_offset div PAGE_SIZE
      in fold_result (remove_page p) fs [old_file_pos ..< new_file_pos])"

section \<open>The files are the pages of the stream\<close>

definition page_of :: "bytes \<Rightarrow> nat \<Rightarrow> bytes" where
  "page_of stream i = take PAGE_SIZE (drop (i * PAGE_SIZE) stream)"

definition log_files_ok :: "params \<Rightarrow> fs \<Rightarrow> nat \<Rightarrow> bytes \<Rightarrow> bool" where
  "log_files_ok p fs start stream \<longleftrightarrow>
     (\<forall>i. start div PAGE_SIZE \<le> i \<and> i \<le> length stream div PAGE_SIZE \<longrightarrow>
        fs (wal_file_path p i) = Some (page_of stream i))"

text \<open>The writer is at the end of the stream, with its file open at the end of the last page.\<close>

definition writer_ok :: "params \<Rightarrow> io_mode \<Rightarrow> fs \<Rightarrow> nat \<Rightarrow> wal_writer \<Rightarrow> bytes \<Rightarrow> bool" where
  "writer_ok p mode fs start w stream \<longleftrightarrow>
     log_files_ok p fs start stream \<and> start \<le> length stream \<and> position w = length stream \<and>
     fh_path (log_file w) = wal_file_path p (length stream div PAGE_SIZE) \<and>
     (mode = StdIo \<longrightarrow> fh_cursor (log_file w) = length stream mod PAGE_SIZE)"

lemma length_page_of: "length (page_of s i) = min PAGE_SIZE (length s - i * PAGE_SIZE)"
  by (simp add: page_of_def)

lemma page_of_last:
  assumes "i = length s div PAGE_SIZE"
  shows "page_of s i = drop (i * PAGE_SIZE) s" "length (page_of s i) = length s mod PAGE_SIZE"
proof -
  have mod: "length s - i * PAGE_SIZE = length s mod PAGE_SIZE"
    using assms by (simp add: modulo_nat_def)
  have "length s mod PAGE_SIZE < PAGE_SIZE" by simp
  then show "page_of s i = drop (i * PAGE_SIZE) s" using mod by (simp add: page_of_def)
  show "length (page_of s i) = length s mod PAGE_SIZE" using mod by (simp add: length_page_of)
qed

lemma page_of_append_full:
  assumes "i < length s div PAGE_SIZE"
  shows "page_of (s @ c) i = page_of s i"
proof -
  have "Suc i * PAGE_SIZE \<le> length s div PAGE_SIZE * PAGE_SIZE"
    using assms by (intro mult_le_mono1) simp
  also have "\<dots> \<le> length s" by simp
  finally show ?thesis by (simp add: page_of_def)
qed

lemma page_of_append_last:
  assumes "i = length s div PAGE_SIZE" and "length s mod PAGE_SIZE + length c \<le> PAGE_SIZE"
  shows "page_of (s @ c) i = page_of s i @ c"
proof -
  have "i * PAGE_SIZE \<le> length s" using assms(1) by simp
  then have "page_of (s @ c) i = take PAGE_SIZE (drop (i * PAGE_SIZE) s @ c)"
    by (simp add: page_of_def)
  also have "\<dots> = drop (i * PAGE_SIZE) s @ c"
    using assms(2) page_of_last [OF assms(1)] by simp
  finally show ?thesis using page_of_last(1) [OF assms(1)] by simp
qed

lemma page_of_beyond: "length s \<le> i * PAGE_SIZE \<Longrightarrow> page_of s i = []"
  by (simp add: page_of_def)

lemma overwrite_at_end: "pos = length old \<Longrightarrow> overwrite old pos data = old @ data"
  by (simp add: overwrite_def)

lemma div_within_page:
  assumes "n mod PAGE_SIZE + m < PAGE_SIZE"
  shows "(n + m) div PAGE_SIZE = n div PAGE_SIZE" "(n + m) mod PAGE_SIZE = n mod PAGE_SIZE + m"
proof -
  have "m < PAGE_SIZE" using assms by simp
  then show "(n + m) div PAGE_SIZE = n div PAGE_SIZE" using assms div_add1_eq [of n m PAGE_SIZE] by simp
  show "(n + m) mod PAGE_SIZE = n mod PAGE_SIZE + m"
    using assms mod_add_left_eq [of n PAGE_SIZE m] by simp
qed

lemma div_page_full:
  assumes "n mod PAGE_SIZE + m = PAGE_SIZE"
  shows "(n + m) div PAGE_SIZE = Suc (n div PAGE_SIZE)" "(n + m) mod PAGE_SIZE = 0"
proof -
  have eq: "n + m = Suc (n div PAGE_SIZE) * PAGE_SIZE"
    using assms div_mult_mod_eq [of n PAGE_SIZE] by (simp only: mult_Suc)
  show "(n + m) div PAGE_SIZE = Suc (n div PAGE_SIZE)" by (simp only: eq) simp
  show "(n + m) mod PAGE_SIZE = 0" by (simp only: eq) simp
qed

text \<open>The files after more bytes were put into the last page, and after they have filled it.\<close>

lemma log_files_ok_extend:
  assumes files: "log_files_ok p fs start s" and lt: "length s mod PAGE_SIZE + length c < PAGE_SIZE"
    and i: "i = length s div PAGE_SIZE"
  shows "log_files_ok p (fs(wal_file_path p i \<mapsto> page_of s i @ c)) start (s @ c)"
  unfolding log_files_ok_def
proof (intro allI impI)
  fix j assume j: "start div PAGE_SIZE \<le> j \<and> j \<le> length (s @ c) div PAGE_SIZE"
  then have "j < i \<or> j = i" using div_within_page [OF lt] i by auto
  then show "(fs(wal_file_path p i \<mapsto> page_of s i @ c)) (wal_file_path p j) = Some (page_of (s @ c) j)"
    using files j lt i by (auto simp: log_files_ok_def page_of_append_full page_of_append_last)
qed

lemma log_files_ok_full:
  assumes files: "log_files_ok p fs start s" and eq: "length s mod PAGE_SIZE + length c = PAGE_SIZE"
    and i: "i = length s div PAGE_SIZE"
  shows "log_files_ok p (fs(wal_file_path p i \<mapsto> page_of s i @ c, wal_file_path p (Suc i) \<mapsto> []))
           start (s @ c)"
  unfolding log_files_ok_def
proof (intro allI impI)
  note dv = div_page_full [OF eq]
  fix j assume j: "start div PAGE_SIZE \<le> j \<and> j \<le> length (s @ c) div PAGE_SIZE"
  have "length (s @ c) = Suc i * PAGE_SIZE"
    using dv i div_mult_mod_eq [of "length s + length c" PAGE_SIZE] by simp
  then have last: "page_of (s @ c) (Suc i) = []" by (intro page_of_beyond) simp
  have "j < i \<or> j = i \<or> j = Suc i" using j dv i by auto
  then show "(fs(wal_file_path p i \<mapsto> page_of s i @ c, wal_file_path p (Suc i) \<mapsto> []))
               (wal_file_path p j) = Some (page_of (s @ c) j)"
    using files j eq i last by (auto simp: log_files_ok_def page_of_append_full page_of_append_last)
qed

lemma wal_write_page_eq:
  assumes "n = min (length data - buf_pos) (PAGE_SIZE - position w mod PAGE_SIZE)"
    and "file_write mode fs (log_file w) (position w mod PAGE_SIZE) (take n (drop buf_pos data)) = (fs1, h1)"
  shows "wal_write_page p mode fs w data buf_pos =
           (if position w mod PAGE_SIZE + n = PAGE_SIZE
            then let fpath = wal_file_path p ((position w + n) div PAGE_SIZE)
                 in (fs1(fpath \<mapsto> []),
                     \<lparr> log_file = \<lparr> fh_path = fpath, fh_cursor = 0 \<rparr>, position = position w + n \<rparr>,
                     buf_pos + n)
            else (fs1, \<lparr> log_file = h1, position = position w + n \<rparr>, buf_pos + n))"
  unfolding wal_write_page_def Let_def assms(1) [symmetric] assms(2) create_file_def by simp

lemma writer_file_write:
  assumes ok: "writer_ok p mode fs start w s" and i: "i = length s div PAGE_SIZE"
  shows "file_write mode fs (log_file w) (length s mod PAGE_SIZE) c =
           (fs(wal_file_path p i \<mapsto> page_of s i @ c),
            case mode of StdIo \<Rightarrow> (log_file w)\<lparr> fh_cursor := length s mod PAGE_SIZE + length c \<rparr>
            | AsyncIo \<Rightarrow> log_file w)"
proof -
  have "fs (wal_file_path p i) = Some (page_of s i)"
    using ok i by (simp add: writer_ok_def log_files_ok_def div_le_mono)
  then show ?thesis
    using ok i page_of_last(2) [OF i]
    by (cases mode) (simp_all add: writer_ok_def file_write_def overwrite_at_end)
qed

text \<open>One round of \<open>write_all\<close> extends the stream by the bytes it takes from the buffer.\<close>

lemma wal_write_page_ok:
  assumes ok: "writer_ok p mode fs start w s" and lt: "buf_pos < length data"
    and step: "wal_write_page p mode fs w data buf_pos = (fs', w', buf')"
  shows "writer_ok p mode fs' start w' (s @ take (buf' - buf_pos) (drop buf_pos data))"
    and "\<And>q. (\<forall>i. q \<noteq> wal_file_path p i) \<Longrightarrow> fs' q = fs q"
proof -
  define n where "n = min (length data - buf_pos) (PAGE_SIZE - position w mod PAGE_SIZE)"
  define c where "c = take n (drop buf_pos data)"
  define i where "i = length s div PAGE_SIZE"
  have pos: "position w = length s" and files: "log_files_ok p fs start s"
    and start: "start \<le> length s" and path: "fh_path (log_file w) = wal_file_path p i"
    using ok by (simp_all add: writer_ok_def i_def)
  have len: "length c = n" by (simp add: c_def n_def)
  have "length s mod PAGE_SIZE \<le> PAGE_SIZE" by (simp add: less_imp_le)
  then have le: "length s mod PAGE_SIZE + n \<le> PAGE_SIZE" unfolding n_def pos by linarith
  note eq = wal_write_page_eq [where p = p, OF n_def writer_file_write [OF ok i_def, of c, folded pos, unfolded c_def],
      unfolded step, folded c_def]
  have buf': "buf' - buf_pos = n" using eq by (simp add: Let_def split: if_splits)
  have "writer_ok p mode fs' start w' (s @ c)"
  proof (cases "length s mod PAGE_SIZE + n = PAGE_SIZE")
    case True
    then show ?thesis
      using eq start div_page_full [OF True] log_files_ok_full [OF files, of c i] len i_def
      by (simp add: writer_ok_def pos Let_def)
  next
    case False
    then have less: "length s mod PAGE_SIZE + n < PAGE_SIZE" using le by simp
    then show ?thesis
      using eq start div_within_page [OF less] log_files_ok_extend [OF files, of c i] len i_def path
      by (cases mode) (simp_all add: writer_ok_def pos)
  qed
  then show "writer_ok p mode fs' start w' (s @ take (buf' - buf_pos) (drop buf_pos data))"
    using buf' by (simp add: c_def)
  show "fs' q = fs q" if "\<forall>i. q \<noteq> wal_file_path p i" for q
    using eq that by (simp add: Let_def split: if_splits)
qed

lemma wal_write_all_step:
  "wal_write_page p mode fs w data buf_pos = (fs1, w1, b1) \<Longrightarrow> buf_pos < length data \<Longrightarrow>
   wal_write_all p mode fs w data buf_pos = wal_write_all p mode fs1 w1 data b1"
  by (subst wal_write_all.simps) simp

lemma wal_write_all_done:
  "\<not> buf_pos < length data \<Longrightarrow> wal_write_all p mode fs w data buf_pos = (fs, w)"
  by (subst wal_write_all.simps) simp

lemma wal_write_all_ok:
  assumes "writer_ok p mode fs start w s"
    and "wal_write_all p mode fs w data buf_pos = (fs', w')"
  shows "writer_ok p mode fs' start w' (s @ drop buf_pos data) \<and>
         (\<forall>q. (\<forall>i. q \<noteq> wal_file_path p i) \<longrightarrow> fs' q = fs q)"
  using assms
proof (induction "length data - buf_pos" arbitrary: buf_pos fs w s rule: less_induct)
  case less
  show ?case
  proof (cases "buf_pos < length data")
    case True
    obtain fs1 w1 b1 where step: "wal_write_page p mode fs w data buf_pos = (fs1, w1, b1)"
      by (cases "wal_write_page p mode fs w data buf_pos")
    note b1 = wal_write_page_progress [OF True step]
    note ok1 = wal_write_page_ok [OF less.prems(1) True step]
    have rest: "wal_write_all p mode fs1 w1 data b1 = (fs', w')"
      using less.prems(2) wal_write_all_step [OF step True] by simp
    note smaller = wal_write_page_less [OF True step [symmetric]]
    have "take (b1 - buf_pos) (drop buf_pos data) @ drop b1 data = drop buf_pos data"
      using b1(1) append_take_drop_id [of "b1 - buf_pos" "drop buf_pos data"] by simp
    with less.hyps [OF smaller ok1(1) rest] ok1(2) show ?thesis by (metis append_assoc)
  next
    case False
    then show ?thesis using less.prems wal_write_all_done [OF False] by simp
  qed
qed

lemma wal_write_bufs_ok:
  assumes "writer_ok p mode fs start w s" and "wal_write_bufs p mode fs w bufs = (fs', w')"
  shows "writer_ok p mode fs' start w' (s @ concat bufs) \<and>
         (\<forall>q. (\<forall>i. q \<noteq> wal_file_path p i) \<longrightarrow> fs' q = fs q)"
  using assms unfolding wal_write_bufs_def
proof (induction bufs arbitrary: fs w s)
  case Nil
  then show ?case by simp
next
  case (Cons buf bufs)
  obtain fs1 w1 where step: "wal_write_all p mode fs w buf 0 = (fs1, w1)"
    by (cases "wal_write_all p mode fs w buf 0")
  note ok1 = wal_write_all_ok [OF Cons.prems(1) step]
  have "writer_ok p mode fs1 start w1 (s @ buf)" using ok1 by simp
  from Cons.IH [OF this] Cons.prems(2) step ok1 show ?case by simp
qed

lemma wal_writer_new_ok:
  assumes "wal_writer_new p fs = (fs', w)"
  shows "writer_ok p mode fs' 0 w []"
  using assms
  by (auto simp: wal_writer_new_def create_file_def writer_ok_def log_files_ok_def page_of_def Let_def)

text \<open>Raising the offset removes exactly the pages in front of it.\<close>

lemma remove_pages:
  assumes "\<forall>i. a \<le> i \<and> i < b \<longrightarrow> fs (wal_file_path p i) \<noteq> None"
  shows "\<exists>fs'. fold_result (remove_page p) fs [a ..< b] = Inr fs' \<and>
           (\<forall>i. fs' (wal_file_path p i) = (if a \<le> i \<and> i < b then None else fs (wal_file_path p i))) \<and>
           (\<forall>q. (\<forall>i. q \<noteq> wal_file_path p i) \<longrightarrow> fs' q = fs q)"
  using assms
proof (induction "b - a" arbitrary: a fs)
  case 0
  then show ?case by auto
next
  case (Suc n)
  then have lt: "a < b" by simp
  define fs1 where "fs1 = fs(wal_file_path p a := None)"
  have rem: "remove_page p fs a = Inr fs1"
    using Suc.prems lt by (auto simp: remove_page_def remove_file_def fs1_def)
  have "\<forall>i. Suc a \<le> i \<and> i < b \<longrightarrow> fs1 (wal_file_path p i) \<noteq> None"
    using Suc.prems by (simp add: fs1_def)
  moreover have "n = b - Suc a" using Suc.hyps(2) by simp
  ultimately obtain fs' where fs': "fold_result (remove_page p) fs1 [Suc a ..< b] = Inr fs'"
      "\<forall>i. fs' (wal_file_path p i) = (if Suc a \<le> i \<and> i < b then None else fs1 (wal_file_path p i))"
      "\<forall>q. (\<forall>i. q \<noteq> wal_file_path p i) \<longrightarrow> fs' q = fs1 q"
    using Suc.hyps(1) [of "Suc a" fs1] by blast
  have "fs' (wal_file_path p i) = (if a \<le> i \<and> i < b then None else fs (wal_file_path p i))" for i
    using fs'(2) lt by (cases "i = a") (auto simp: fs1_def)
  then show ?case
    using lt rem fs'(1,3) by (auto simp: upt_conv_Cons fs1_def)
qed

lemma wal_set_offset_ok:
  assumes files: "log_files_ok p fs old s" and le: "old \<le> new" "new \<le> length s"
  shows "\<exists>fs'. wal_set_offset p fs new old = Inr fs' \<and> log_files_ok p fs' new s \<and>
      (\<forall>i. fs' (wal_file_path p i) =
             (if old div PAGE_SIZE \<le> i \<and> i < new div PAGE_SIZE then None else fs (wal_file_path p i))) \<and>
      (\<forall>q. (\<forall>i. q \<noteq> wal_file_path p i) \<longrightarrow> fs' q = fs q)"
proof -
  have mono: "old div PAGE_SIZE \<le> new div PAGE_SIZE" "new div PAGE_SIZE \<le> length s div PAGE_SIZE"
    using le by (simp_all add: div_le_mono)
  then have "\<forall>i. old div PAGE_SIZE \<le> i \<and> i < new div PAGE_SIZE \<longrightarrow> fs (wal_file_path p i) \<noteq> None"
    using files by (auto simp: log_files_ok_def)
  from remove_pages [OF this] obtain fs' where fs': "wal_set_offset p fs new old = Inr fs'"
      "\<forall>i. fs' (wal_file_path p i) =
        (if old div PAGE_SIZE \<le> i \<and> i < new div PAGE_SIZE then None else fs (wal_file_path p i))"
      "\<forall>q. (\<forall>i. q \<noteq> wal_file_path p i) \<longrightarrow> fs' q = fs q"
    unfolding wal_set_offset_def Let_def by blast
  have "log_files_ok p fs' new s"
    using files fs'(2) mono by (auto simp: log_files_ok_def)
  then show ?thesis using fs' by blast
qed

text \<open>
  A writer whose cursor is at the beginning of a page that already has contents, as \<open>continue_from\<close>
  leaves it, puts the next bytes over the old ones.
\<close>

lemma wal_write_all_std_start:
  assumes cur: "fs (fh_path (log_file w)) = Some old" and "fh_cursor (log_file w) = 0"
    and data: "data \<noteq> []" and fits: "position w mod PAGE_SIZE + length data < PAGE_SIZE"
  shows "fst (wal_write_all p StdIo fs w data 0) (fh_path (log_file w)) =
         Some (data @ drop (length data) old)"
proof -
  define fs1 where "fs1 = fs(fh_path (log_file w) \<mapsto> data @ drop (length data) old)"
  define w1 where "w1 = \<lparr> log_file = (log_file w)\<lparr> fh_cursor := length data \<rparr>, position = position w + length data \<rparr>"
  have n: "length data = min (length data - 0) (PAGE_SIZE - position w mod PAGE_SIZE)"
    using fits by simp
  have upd: "file_write StdIo fs (log_file w) (position w mod PAGE_SIZE) (take (length data) (drop 0 data)) =
      (fs1, log_file w1)"
    using assms by (simp add: file_write_def overwrite_def fs1_def w1_def)
  have "wal_write_page p StdIo fs w data 0 = (fs1, w1, length data)"
    using wal_write_page_eq [OF n upd, of p] fits by (simp add: w1_def)
  then have "wal_write_all p StdIo fs w data 0 = (fs1, w1)"
    using data wal_write_all_done [of "length data" data p StdIo fs1 w1]
    by (simp add: wal_write_all_step)
  then show ?thesis by (simp add: fs1_def)
qed

end
