(* ===== verification/Lsm_WalReader.thy ===== *)
theory Lsm_WalReader
  imports Lsm_Wal
begin

text \<open>
  Recovery: the reader of the write-ahead log (\<open>src/src/wal/reader.rs\<close>) and \<open>WriteAheadLog::open\<close>
  (\<open>src/src/wal/mod.rs\<close>), in the configuration without the \<open>wisckey\<close> feature.

  The loop of \<open>read_from_log\<close> reopens the next page whenever the position is at a page boundary, so
  it need not end; it and the recovery loop are partial functions with \<open>None\<close> for a run that never
  returns. The lemmas show that recovery replays exactly the logged operations when the log does not
  end at a page boundary and no logged key or value is empty, and what happens otherwise.
\<close>

section \<open>The reader\<close>

record wal_reader =
  rd_position :: nat
  rd_page :: bytes

definition wal_open_error :: "io_error \<Rightarrow> fault" where
  "wal_open_error err = Fail (from_io_error ''Failed to open WAL file'' err)"

definition wal_reader_new :: "params \<Rightarrow> fs \<Rightarrow> nat \<Rightarrow> wal_reader result" where
  "wal_reader_new p fs start_position =
     (let fpos = start_position div PAGE_SIZE in
      case read_uncompressed fs (wal_file_path p fpos) 0 of
        Inl err \<Rightarrow> Inl (wal_open_error err)
      | Inr page \<Rightarrow> Inr \<lparr> rd_position = start_position, rd_page = page \<rparr>)"

text \<open>
  The loop of \<open>read_from_log\<close>. The argument \<open>out\<close> is the part of the buffer that has been filled; the
  rest of the buffer of \<open>n\<close> bytes is still zero.
\<close>

partial_function (option) read_loop ::
    "params \<Rightarrow> fs \<Rightarrow> bool \<Rightarrow> nat \<Rightarrow> wal_reader \<Rightarrow> bytes \<Rightarrow> (wal_reader \<times> bytes \<times> bool) run" where
  "read_loop p fs maybe n rd out =
     (if length out < n
      then
        let pos = rd_position rd; offset = pos mod PAGE_SIZE in
        if length (rd_page rd) < offset
        then Some (Inl (Panic ''Invalid offset. Page too small?''))
        else
          let file_remaining = length (rd_page rd) - offset;
              len = min (n - length out) file_remaining in
          if len = 0 \<and> offset \<noteq> 0
          then if length (rd_page rd) < PAGE_SIZE then Some (Inr (rd, out, False))
               else Some (Inl (Panic ''assertion failed: self.current_page.len() < PAGE_SIZE''))
          else
            let out' = out @ take len (drop offset (rd_page rd)); pos' = pos + len in
            if pos' mod PAGE_SIZE = 0
            then case read_uncompressed fs (wal_file_path p (pos' div PAGE_SIZE)) 0 of
                   Inr data \<Rightarrow> read_loop p fs maybe n \<lparr> rd_position = pos', rd_page = data \<rparr> out'
                 | Inl err \<Rightarrow>
                     if maybe \<and> err = NotFound
                     then Some (Inr (rd\<lparr> rd_position := pos' \<rparr>, out', False))
                     else Some (Inl (wal_open_error err))
            else read_loop p fs maybe n (rd\<lparr> rd_position := pos' \<rparr>) out'
      else Some (Inr (rd, out, True)))"

definition read_from_log ::
    "params \<Rightarrow> fs \<Rightarrow> wal_reader \<Rightarrow> nat \<Rightarrow> bool \<Rightarrow> (wal_reader \<times> bytes \<times> bool) run" where
  "read_from_log p fs rd buffer_len maybe =
     (if buffer_len > 0
      then bind_run (read_loop p fs maybe buffer_len rd [])
             (\<lambda>(rd, out, success).
                Some (Inr (rd, out @ replicate (buffer_len - length out) 0, success)))
      else Some (Inl (Panic ''assertion failed: buffer_len > 0'')))"

text \<open>\<open>read_value\<close> and the reads of keys and values ignore whether the buffer could be filled.\<close>

definition read_value :: "params \<Rightarrow> fs \<Rightarrow> wal_reader \<Rightarrow> nat \<Rightarrow> (wal_reader \<times> bytes) run" where
  "read_value p fs rd sz =
     bind_run (read_from_log p fs rd sz False) (\<lambda>(rd, data, success). Some (Inr (rd, data)))"

definition parse_write_entry ::
    "params \<Rightarrow> fs \<Rightarrow> wal_reader \<Rightarrow> memtable \<Rightarrow> (wal_reader \<times> memtable) run" where
  "parse_write_entry p fs rd mem =
     bind_run (read_value p fs rd 1) (\<lambda>(rd, op_type).
     bind_run (read_value p fs rd 8) (\<lambda>(rd, key_len).
     bind_run (read_from_log p fs rd (unat (read_u64 key_len)) False) (\<lambda>(rd, k, success).
     if op_type = [PUT_OP] then
       bind_run (read_value p fs rd 8) (\<lambda>(rd, val_len).
       bind_run (read_from_log p fs rd (unat (read_u64 val_len)) False) (\<lambda>(rd, v, success).
       bind_run (Some (memtable_put mem k v)) (\<lambda>mem.
       Some (Inr (rd, mem)))))
     else if op_type = [DELETE_OP] then
       bind_run (Some (memtable_delete mem k)) (\<lambda>mem.
       Some (Inr (rd, mem)))
     else Some (Inl (Panic ''Unexpected op type!'')))))"

record recovery_result =
  new_position :: nat
  entries_recovered :: nat

partial_function (option) wal_run_loop ::
    "params \<Rightarrow> fs \<Rightarrow> wal_reader \<Rightarrow> memtable \<Rightarrow> nat \<Rightarrow> (wal_reader \<times> memtable \<times> nat) run" where
  "wal_run_loop p fs rd mem n =
     bind_run (read_from_log p fs rd 1 True) (\<lambda>r. case r of (rd, log_type, success) \<Rightarrow>
       if \<not> success then Some (Inr (rd, mem, n))
       else if log_type = [log_entry_type_u8 WriteType] then
         bind_run (parse_write_entry p fs rd mem) (\<lambda>r. case r of (rd, mem) \<Rightarrow>
           wal_run_loop p fs rd mem (n + 1))
       else Some (Inl (Panic ''Unexpected log entry type!'')))"

definition wal_run :: "params \<Rightarrow> fs \<Rightarrow> wal_reader \<Rightarrow> memtable \<Rightarrow> (memtable \<times> recovery_result) run" where
  "wal_run p fs rd mem =
     bind_run (wal_run_loop p fs rd mem 0) (\<lambda>(rd, mem, n).
       Some (Inr (mem, \<lparr> new_position = rd_position rd, entries_recovered = n \<rparr>)))"

text \<open>
  \<open>WriteAheadLog::open\<close>: replay the log, then let the writer task continue where the reader stopped.
\<close>

definition wal_open ::
    "params \<Rightarrow> fs \<Rightarrow> u64 \<Rightarrow> memtable \<Rightarrow>
     (fs \<times> log_status \<times> wal_writer \<times> memtable \<times> recovery_result) run" where
  "wal_open p fs start mem =
     (let start_position = unat start in
      bind_run (Some (wal_reader_new p fs start_position)) (\<lambda>rd.
      bind_run (wal_run p fs rd mem) (\<lambda>(mem, res).
      bind_run (Some (continue_from p fs (new_position res))) (\<lambda>(fs, w).
      Some (Inr (fs, log_status_new (new_position res) start_position, w, mem, res))))))"

section \<open>Reading the bytes of the stream\<close>

definition reader_ok :: "params \<Rightarrow> fs \<Rightarrow> nat \<Rightarrow> bytes \<Rightarrow> wal_reader \<Rightarrow> bool" where
  "reader_ok p fs start s rd \<longleftrightarrow>
     log_files_ok p fs start s \<and> start \<le> rd_position rd \<and> rd_position rd \<le> length s \<and>
     rd_page rd = page_of s (rd_position rd div PAGE_SIZE)"

lemma drop_page_of:
  "drop (pos mod PAGE_SIZE) (page_of s (pos div PAGE_SIZE)) =
     take (PAGE_SIZE - pos mod PAGE_SIZE) (drop pos s)"
proof -
  have "pos div PAGE_SIZE * PAGE_SIZE + pos mod PAGE_SIZE = pos" by simp
  then show ?thesis by (simp add: page_of_def drop_take add.commute)
qed

lemma page_of_offset_le:
  assumes "pos \<le> length s"
  shows "pos mod PAGE_SIZE \<le> length (page_of s (pos div PAGE_SIZE))"
    and "length (page_of s (pos div PAGE_SIZE)) - pos mod PAGE_SIZE =
           min (PAGE_SIZE - pos mod PAGE_SIZE) (length s - pos)"
proof -
  have eq: "pos div PAGE_SIZE * PAGE_SIZE + pos mod PAGE_SIZE = pos" by simp
  have "pos mod PAGE_SIZE \<le> PAGE_SIZE" by (simp add: less_imp_le)
  then show "pos mod PAGE_SIZE \<le> length (page_of s (pos div PAGE_SIZE))"
    using assms eq unfolding length_page_of by linarith
  show "length (page_of s (pos div PAGE_SIZE)) - pos mod PAGE_SIZE =
           min (PAGE_SIZE - pos mod PAGE_SIZE) (length s - pos)"
    using eq unfolding length_page_of by linarith
qed

text \<open>The reader after \<open>len\<close> more bytes of the current page, with the next page opened if necessary.\<close>

definition reader_at :: "bytes \<Rightarrow> nat \<Rightarrow> wal_reader" where
  "reader_at s pos = \<lparr> rd_position = pos, rd_page = page_of s (pos div PAGE_SIZE) \<rparr>"

lemma reader_ok_at:
  "log_files_ok p fs start s \<Longrightarrow> start \<le> pos \<Longrightarrow> pos \<le> length s \<Longrightarrow>
   reader_ok p fs start s (reader_at s pos)"
  by (simp add: reader_ok_def reader_at_def)

lemma reader_ok_eq: "reader_ok p fs start s rd \<Longrightarrow> rd = reader_at s (rd_position rd)"
  by (simp add: reader_ok_def reader_at_def)

lemma read_loop_round:
  assumes files: "log_files_ok p fs start s" and start: "start \<le> pos" and pos: "pos < length s"
    and out: "length out < n"
    and len: "len = min (n - length out) (min (PAGE_SIZE - pos mod PAGE_SIZE) (length s - pos))"
  shows "read_loop p fs maybe n (reader_at s pos) out =
         read_loop p fs maybe n (reader_at s (pos + len)) (out @ take len (drop pos s))"
proof -
  have off: "pos mod PAGE_SIZE < PAGE_SIZE" by simp
  have len0: "0 < len" using len out pos off by linarith
  have inside: "pos mod PAGE_SIZE + len \<le> PAGE_SIZE" using len off by linarith
  have "pos + len \<le> length s" using len pos by linarith
  then have page: "fs (wal_file_path p ((pos + len) div PAGE_SIZE)) =
      Some (page_of s ((pos + len) div PAGE_SIZE))"
    using files start by (simp add: log_files_ok_def div_le_mono)
  have bytes: "take len (take (PAGE_SIZE - pos mod PAGE_SIZE) (drop pos s)) = take len (drop pos s)"
    using inside by (simp add: min_def)
  have same: "(pos + len) div PAGE_SIZE = pos div PAGE_SIZE" if "(pos + len) mod PAGE_SIZE \<noteq> 0"
  proof -
    have "pos mod PAGE_SIZE + len \<noteq> PAGE_SIZE" using that div_page_full(2) [of pos len] by auto
    then show ?thesis using div_within_page(1) [of pos len] inside by linarith
  qed
  note le = page_of_offset_le [OF less_imp_le [OF pos]]
  have body: "read_loop p fs maybe n (reader_at s pos) out =
      (if (pos + len) mod PAGE_SIZE = 0
       then read_loop p fs maybe n (reader_at s (pos + len)) (out @ take len (drop pos s))
       else read_loop p fs maybe n (reader_at s pos\<lparr> rd_position := pos + len \<rparr>)
              (out @ take len (drop pos s)))"
    unfolding read_loop.simps [of p fs maybe n "reader_at s pos" out]
    using out len0 le(1) page
    by (simp only: reader_at_def Let_def le(2) len [symmetric] drop_page_of bytes if_True if_False
        wal_reader.select_convs not_less [symmetric] read_uncompressed_def page option.case sum.case
        drop_0 simp_thms less_numeral_extra not_gr0 neq0_conv cong: if_cong) simp
  show ?thesis unfolding body using same by (simp add: reader_at_def)
qed

lemma read_loop_ok:
  assumes "log_files_ok p fs start s" and "start \<le> pos"
    and "length out \<le> n" and "pos + (n - length out) \<le> length s"
  shows "read_loop p fs maybe n (reader_at s pos) out =
         Some (Inr (reader_at s (pos + (n - length out)),
                    out @ take (n - length out) (drop pos s), True))"
  using assms(2-)
proof (induction "n - length out" arbitrary: pos out rule: less_induct)
  case less
  show ?case
  proof (cases "length out < n")
    case True
    define len where
      "len = min (n - length out) (min (PAGE_SIZE - pos mod PAGE_SIZE) (length s - pos))"
    let ?out = "out @ take len (drop pos s)"
    have "pos mod PAGE_SIZE < PAGE_SIZE" by simp
    then have len0: "0 < len" using less.prems True len_def by linarith
    have lenle: "len \<le> n - length out" "len \<le> length s - pos" by (simp_all add: len_def)
    then have out: "length ?out = length out + len" by simp
    have "read_loop p fs maybe n (reader_at s pos) out =
        read_loop p fs maybe n (reader_at s (pos + len)) ?out"
      using less.prems True by (intro read_loop_round [OF assms(1)] len_def) auto
    also have "\<dots> = Some (Inr (reader_at s (pos + len + (n - length ?out)),
        ?out @ take (n - length ?out) (drop (pos + len) s), True))"
      by (intro less.hyps) (use less.prems len0 lenle out True in \<open>simp_all\<close>)
    also have "pos + len + (n - length ?out) = pos + (n - length out)" using out lenle by simp
    also have "?out @ take (n - length ?out) (drop (pos + len) s) = out @ take (n - length out) (drop pos s)"
    proof -
      have "n - length ?out = (n - length out) - len" using out by simp
      moreover have "take (len + (n - length out - len)) (drop pos s) =
          take len (drop pos s) @ take (n - length out - len) (drop len (drop pos s))"
        by (rule take_add)
      moreover have "len + (n - length out - len) = n - length out" using lenle by simp
      ultimately show ?thesis by (simp add: add.commute)
    qed
    finally show ?thesis .
  next
    case False
    then show ?thesis using less.prems by (subst read_loop.simps) simp
  qed
qed

text \<open>
  Reads within the stream return its bytes; a read at the end of a stream that does not fill its last
  page reports that there is nothing more.
\<close>

lemma read_from_log_ok:
  assumes "log_files_ok p fs start s" and "start \<le> pos" and "0 < n" and "pos + n \<le> length s"
  shows "read_from_log p fs (reader_at s pos) n maybe =
         Some (Inr (reader_at s (pos + n), take n (drop pos s), True))"
  using assms read_loop_ok [of p fs start s pos "[]" n maybe] by (simp add: read_from_log_def)

lemma read_value_ok:
  assumes "log_files_ok p fs start s" and "start \<le> pos" and "0 < n" and "pos + n \<le> length s"
  shows "read_value p fs (reader_at s pos) n = Some (Inr (reader_at s (pos + n), take n (drop pos s)))"
  using read_from_log_ok [OF assms] by (simp add: read_value_def)

lemma read_from_log_end:
  assumes "length s mod PAGE_SIZE \<noteq> 0" and "0 < n"
  shows "read_from_log p fs (reader_at s (length s)) n maybe =
         Some (Inr (reader_at s (length s), replicate n 0, False))"
proof -
  note page = page_of_last(2) [OF refl, of s]
  have "length s mod PAGE_SIZE < PAGE_SIZE" by simp
  then have "read_loop p fs maybe n (reader_at s (length s)) [] =
      Some (Inr (reader_at s (length s), [], False))"
    using assms page by (subst read_loop.simps) (simp add: reader_at_def Let_def)
  then show ?thesis using assms by (simp add: read_from_log_def)
qed

text \<open>
  At the end of a stream that fills its last page the loop reopens the same empty file for ever.
\<close>

lemma read_loop_page_end:
  assumes files: "log_files_ok p fs start s" and start: "start \<le> length s"
    and full: "length s mod PAGE_SIZE = 0" and out: "length out < n"
  shows "read_loop p fs maybe n (reader_at s (length s)) out = None"
proof (rule ccontr)
  let ?stuck = "\<lambda>p' fs' (maybe::bool) n rd (out::bytes) y.
      \<not> (p' = p \<and> fs' = fs \<and> rd = reader_at s (length s) \<and> length out < n)"
  assume "read_loop p fs maybe n (reader_at s (length s)) out \<noteq> None"
  then obtain y where y: "read_loop p fs maybe n (reader_at s (length s)) out = Some y" by auto
  have page: "page_of s (length s div PAGE_SIZE) = []"
    using page_of_last(2) [OF refl, of s] full by simp
  have cur: "fs (wal_file_path p (length s div PAGE_SIZE)) = Some []"
    using files start page by (simp add: log_files_ok_def div_le_mono)
  have "?stuck p fs maybe n (reader_at s (length s)) out y"
  proof (rule read_loop.raw_induct [where P = ?stuck, OF _ y], goal_cases)
    case (1 f p' fs' maybe n rd out y)
    show ?case
    proof (rule notI, elim conjE)
      assume eqs: "p' = p" "fs' = fs" "rd = reader_at s (length s)" "length out < n"
      have "f p fs maybe n (reader_at s (length s)) out = Some y"
        using 1(2) eqs by (simp add: reader_at_def page full cur read_uncompressed_def)
      from 1(1) [OF this] eqs show False by simp
    qed
  qed
  then show False using out by simp
qed

lemma read_from_log_page_end:
  assumes "log_files_ok p fs start s" and "start \<le> length s"
    and "length s mod PAGE_SIZE = 0" and "0 < n"
  shows "read_from_log p fs (reader_at s (length s)) n maybe = None"
  using read_loop_page_end [OF assms(1-3), of "[]" n maybe] assms(4) by (simp add: read_from_log_def)

section \<open>Recovery of logged operations\<close>

text \<open>The bytes of a part of the stream, and their read.\<close>

lemma read_part:
  assumes "log_files_ok p fs start (a @ b @ c)" and "start \<le> length a" and "b \<noteq> []"
  shows "read_from_log p fs (reader_at (a @ b @ c) (length a)) (length b) maybe =
         Some (Inr (reader_at (a @ b @ c) (length (a @ b)), b, True))"
  using read_from_log_ok [OF assms(1,2), of "length b" maybe] assms(3) by simp

lemma read_part_value:
  assumes "log_files_ok p fs start (a @ b @ c)" and "start \<le> length a" and "b \<noteq> []"
  shows "read_value p fs (reader_at (a @ b @ c) (length a)) (length b) =
         Some (Inr (reader_at (a @ b @ c) (length (a @ b)), b))"
  using read_part [OF assms, of False] by (simp add: read_value_def)

text \<open>
  The operations the recovery code can read back: reading a key or value of length zero fails the
  assertion at the head of \<open>read_from_log\<close>.
\<close>

definition recoverable :: "write_op \<Rightarrow> bool" where
  "recoverable op \<longleftrightarrow>
     write_op_key op \<noteq> [] \<and> length (write_op_key op) < 2 ^ 64 \<and>
     (case op of Put k v \<Rightarrow> v \<noteq> [] \<and> length v < 2 ^ 64 | Delete k \<Rightarrow> True)"

lemma parse_put_entry:
  assumes s_def: "s = pre @ encode_entry (Write (Put k v)) @ post" and files: "log_files_ok p fs start s" and start: "start \<le> length pre"
    and k: "k \<noteq> []" "length k < 2 ^ 64" and v: "v \<noteq> []" "length v < 2 ^ 64"
  shows "parse_write_entry p fs (reader_at s (length pre + 1)) mem =
         bind_run (Some (memtable_put mem k v))
           (\<lambda>mem. Some (Inr (reader_at s (length (pre @ encode_entry (Write (Put k v)))), mem)))"
proof -
  define q where "q n = length pre + n" for n
  let ?kl = "u64_bytes (of_nat (length k))" and ?vl = "u64_bytes (of_nat (length v))"
  have s: "s = pre @ [0] @ [PUT_OP] @ ?kl @ k @ ?vl @ v @ post"
    by (simp add: s_def write_op_key_length_def)
  have r1: "read_value p fs (reader_at s (q 1)) 1 =
      Some (Inr (reader_at s (q 2), [PUT_OP]))"
    using read_part_value [of p fs start "pre @ [0]" "[PUT_OP]"] files start by (simp add: s q_def)
  have r2: "read_value p fs (reader_at s (q 2)) 8 =
      Some (Inr (reader_at s (q 10), ?kl))"
    using read_part_value [of p fs start "pre @ [0] @ [PUT_OP]" ?kl] files start
    by (simp add: s q_def flip: length_greater_0_conv)
  have r3: "read_from_log p fs (reader_at s (q 10)) (length k) False =
      Some (Inr (reader_at s (q (10 + length k)), k, True))"
    using read_part [of p fs start "pre @ [0] @ [PUT_OP] @ ?kl" k] files start k by (simp add: s q_def add_ac)
  have r4: "read_value p fs (reader_at s (q (10 + length k))) 8 =
      Some (Inr (reader_at s (q (18 + length k)), ?vl))"
    using read_part_value [of p fs start "pre @ [0] @ [PUT_OP] @ ?kl @ k" ?vl] files start
    by (simp add: s q_def add_ac flip: length_greater_0_conv)
  have r5: "read_from_log p fs (reader_at s (q (18 + length k))) (length v) False =
      Some (Inr (reader_at s (q (18 + length k + length v)), v, True))"
    using read_part [of p fs start "pre @ [0] @ [PUT_OP] @ ?kl @ k @ ?vl" v] files start v
    by (simp add: s q_def add_ac)
  have "length (pre @ encode_entry (Write (Put k v))) = q (18 + length k + length v)"
    by (simp add: q_def encode_entry_length del: encode_entry.simps)
  moreover have "length pre + 1 = q 1" by (simp add: q_def)
  ultimately show ?thesis
    using k v unfolding parse_write_entry_def
    by (simp only: r1 r2 r3 r4 r5 bind_run_simps prod.case read_u64_bytes unat_of_nat_u64 if_True simp_thms)
qed

lemma parse_delete_entry:
  assumes s_def: "s = pre @ encode_entry (Write (Delete k)) @ post" and files: "log_files_ok p fs start s" and start: "start \<le> length pre"
    and k: "k \<noteq> []" "length k < 2 ^ 64"
  shows "parse_write_entry p fs (reader_at s (length pre + 1)) mem =
         bind_run (Some (memtable_delete mem k))
           (\<lambda>mem. Some (Inr (reader_at s (length (pre @ encode_entry (Write (Delete k)))), mem)))"
proof -
  define q where "q n = length pre + n" for n
  let ?kl = "u64_bytes (of_nat (length k))"
  have s: "s = pre @ [0] @ [DELETE_OP] @ ?kl @ k @ post"
    by (simp add: s_def write_op_key_length_def)
  have r1: "read_value p fs (reader_at s (q 1)) 1 =
      Some (Inr (reader_at s (q 2), [DELETE_OP]))"
    using read_part_value [of p fs start "pre @ [0]" "[DELETE_OP]"] files start by (simp add: s q_def)
  have r2: "read_value p fs (reader_at s (q 2)) 8 =
      Some (Inr (reader_at s (q 10), ?kl))"
    using read_part_value [of p fs start "pre @ [0] @ [DELETE_OP]" ?kl] files start
    by (simp add: s q_def flip: length_greater_0_conv)
  have r3: "read_from_log p fs (reader_at s (q 10)) (length k) False =
      Some (Inr (reader_at s (q (10 + length k)), k, True))"
    using read_part [of p fs start "pre @ [0] @ [DELETE_OP] @ ?kl" k] files start k
    by (simp add: s q_def add_ac)
  have "length (pre @ encode_entry (Write (Delete k))) = q (10 + length k)"
    by (simp add: q_def encode_entry_length del: encode_entry.simps)
  moreover have "DELETE_OP \<noteq> PUT_OP" by (simp add: DELETE_OP_def PUT_OP_def)
  moreover have "length pre + 1 = q 1" by (simp add: q_def)
  ultimately show ?thesis
    using k unfolding parse_write_entry_def
    by (simp only: r1 r2 r3 bind_run_simps prod.case read_u64_bytes unat_of_nat_u64 if_True if_False
        list.inject simp_thms)
qed

lemma parse_entry:
  assumes s_def: "s = pre @ encode_entry (Write op) @ post" and "log_files_ok p fs start s" and "start \<le> length pre" and "recoverable op"
  shows "parse_write_entry p fs (reader_at s (length pre + 1)) mem =
         bind_run (Some (memtable_apply mem op))
           (\<lambda>mem. Some (Inr (reader_at s (length (pre @ encode_entry (Write op))), mem)))"
  using assms parse_put_entry [of s pre] parse_delete_entry [of s pre]
  by (cases op) (simp_all add: recoverable_def memtable_apply_def del: encode_entry.simps)

text \<open>The recovery loop replays the entries of a stream one by one.\<close>

definition log_bytes :: "write_op list \<Rightarrow> bytes" where
  "log_bytes ops = concat (map (\<lambda>op. encode_entry (Write op)) ops)"

lemma log_bytes_simps [simp]:
  "log_bytes [] = []" "log_bytes (op # ops) = encode_entry (Write op) @ log_bytes ops"
  "log_bytes (ops @ ops') = log_bytes ops @ log_bytes ops'"
  by (simp_all add: log_bytes_def)

lemma wal_run_loop_step:
  assumes s_def: "s = pre @ encode_entry (Write op) @ post" and "log_files_ok p fs start s" and "start \<le> length pre" and "recoverable op"
    and "memtable_apply mem op = Inr mem'"
  shows "wal_run_loop p fs (reader_at s (length pre)) mem n =
         wal_run_loop p fs (reader_at s (length (pre @ encode_entry (Write op)))) mem' (n + 1)"
proof -
  obtain rest where enc: "encode_entry (Write op) = [0] @ rest" by (simp del: One_nat_def)
  have "read_from_log p fs (reader_at s (length pre)) 1 True =
      Some (Inr (reader_at s (length pre + 1), [0], True))"
    using read_part [of p fs start pre "[0]" "rest @ post" True] assms(2,3)
    by (simp add: s_def enc del: encode_entry.simps)
  then show ?thesis
    using parse_entry [OF assms(1-4), of mem] assms(5)
    by (subst wal_run_loop.simps) (simp del: encode_entry.simps)
qed

lemma wal_run_loop_ok:
  assumes "log_files_ok p fs start (pre @ log_bytes ops @ post)" and "start \<le> length pre"
    and "\<forall>op \<in> set ops. recoverable op" and "fold_result memtable_apply mem ops = Inr mem'"
  shows "wal_run_loop p fs (reader_at (pre @ log_bytes ops @ post) (length pre)) mem n =
         wal_run_loop p fs (reader_at (pre @ log_bytes ops @ post) (length (pre @ log_bytes ops)))
           mem' (n + length ops)"
  using assms
proof (induction ops arbitrary: pre mem n)
  case Nil
  then show ?case by simp
next
  case (Cons op ops)
  obtain mem1 where mem1: "memtable_apply mem op = Inr mem1" "fold_result memtable_apply mem1 ops = Inr mem'"
    using Cons.prems(4) by (auto simp: bind_result_eq_Inr)
  show ?case
    using wal_run_loop_step [OF refl, of p fs start pre op "log_bytes ops @ post" mem mem1 n]
      Cons.IH [of "pre @ encode_entry (Write op)" mem1 "n + 1"] Cons.prems mem1
    by (simp del: encode_entry.simps)
qed

lemma wal_run_loop_end:
  assumes "length s mod PAGE_SIZE \<noteq> 0"
  shows "wal_run_loop p fs (reader_at s (length s)) mem n = Some (Inr (reader_at s (length s), mem, n))"
  using read_from_log_end [OF assms, of 1] by (subst wal_run_loop.simps) simp

lemma wal_run_loop_page_end:
  assumes "log_files_ok p fs start s" and "start \<le> length s" and "length s mod PAGE_SIZE = 0"
  shows "wal_run_loop p fs (reader_at s (length s)) mem n = None"
  using read_from_log_page_end [OF assms, of 1] by (subst wal_run_loop.simps) simp

lemma wal_reader_new_ok:
  assumes "log_files_ok p fs start s" and "start \<le> length s"
  shows "wal_reader_new p fs start = Inr (reader_at s start)"
  using assms
  by (simp add: wal_reader_new_def read_uncompressed_def log_files_ok_def div_le_mono reader_at_def)

text \<open>
  Two ways in which recovery does not return a memtable: at an entry with an empty value the length
  assertion of \<open>read_from_log\<close> fires, and at a log that fills its last page the reader never stops.
\<close>

lemma wal_run_loop_empty_value:
  assumes s_def: "s = pre @ encode_entry (Write (Put k [])) @ post" and files: "log_files_ok p fs start s"
    and start: "start \<le> length pre" and k: "k \<noteq> []" "length k < 2 ^ 64"
  shows "wal_run_loop p fs (reader_at s (length pre)) mem n =
         Some (Inl (Panic ''assertion failed: buffer_len > 0''))"
proof -
  define q where "q n = length pre + n" for n
  let ?kl = "u64_bytes (of_nat (length k))" and ?vl = "u64_bytes 0"
  have s: "s = pre @ [0] @ [PUT_OP] @ ?kl @ k @ ?vl @ post"
    by (simp add: s_def write_op_key_length_def)
  have r0: "read_from_log p fs (reader_at s (length pre)) 1 True =
      Some (Inr (reader_at s (q 1), [0], True))"
    using read_part [of p fs start pre "[0]"] files start by (simp add: s q_def)
  have r1: "read_value p fs (reader_at s (q 1)) 1 = Some (Inr (reader_at s (q 2), [PUT_OP]))"
    using read_part_value [of p fs start "pre @ [0]" "[PUT_OP]"] files start by (simp add: s q_def)
  have r2: "read_value p fs (reader_at s (q 2)) 8 = Some (Inr (reader_at s (q 10), ?kl))"
    using read_part_value [of p fs start "pre @ [0] @ [PUT_OP]" ?kl] files start
    by (simp add: s q_def flip: length_greater_0_conv)
  have r3: "read_from_log p fs (reader_at s (q 10)) (length k) False =
      Some (Inr (reader_at s (q (10 + length k)), k, True))"
    using read_part [of p fs start "pre @ [0] @ [PUT_OP] @ ?kl" k] files start k
    by (simp add: s q_def add_ac)
  have r4: "read_value p fs (reader_at s (q (10 + length k))) 8 =
      Some (Inr (reader_at s (q (18 + length k)), ?vl))"
    using read_part_value [of p fs start "pre @ [0] @ [PUT_OP] @ ?kl @ k" ?vl] files start
    by (simp add: s q_def add_ac flip: length_greater_0_conv)
  have "parse_write_entry p fs (reader_at s (q 1)) mem =
      Some (Inl (Panic ''assertion failed: buffer_len > 0''))"
    using k unfolding parse_write_entry_def
    by (simp only: r1 r2 r3 r4 bind_run_simps prod.case read_u64_bytes unat_of_nat_u64 if_True simp_thms)
      (simp add: read_from_log_def)
  then show ?thesis by (subst wal_run_loop.simps) (simp add: r0 [simplified])
qed

section \<open>Properties of recovery\<close>

lemma continue_from_ok:
  assumes "log_files_ok p fs start s" and "start \<le> length s" and "length s mod PAGE_SIZE \<noteq> 0"
  defines "i \<equiv> length s div PAGE_SIZE"
  defines "w \<equiv> \<lparr> log_file = \<lparr> fh_path = wal_file_path p i, fh_cursor = 0 \<rparr>, position = length s \<rparr>"
  shows "fs (wal_file_path p i) = Some (page_of s i)" "continue_from p fs (length s) = Inr (fs, w)"
    "writer_ok p AsyncIo fs start w s"
proof -
  show cur: "fs (wal_file_path p i) = Some (page_of s i)"
    using assms(1,2) by (simp add: log_files_ok_def div_le_mono i_def)
  show "continue_from p fs (length s) = Inr (fs, w)"
    using assms(3) cur by (simp add: continue_from_def open_file_def w_def i_def Let_def)
  show "writer_ok p AsyncIo fs start w s"
    using assms(1,2) by (simp add: writer_ok_def w_def i_def)
qed

lemma wal_open_replays_aux:
  assumes "log_files_ok p fs (unat start) (pre @ log_bytes ops)" and "length pre = unat start"
    and "\<forall>op \<in> set ops. recoverable op" and "length (pre @ log_bytes ops) mod PAGE_SIZE \<noteq> 0"
    and "mt_ok mem" and "unat (next_seq_number mem) + length ops < 2 ^ 64"
  shows "\<exists>w mem'. wal_open p fs start mem =
           Some (Inr (fs, log_status_new (length (pre @ log_bytes ops)) (unat start), w, mem',
                      \<lparr> new_position = length (pre @ log_bytes ops), entries_recovered = length ops \<rparr>)) \<and>
         fold_result memtable_apply mem ops = Inr mem' \<and> mt_ok mem' \<and>
         memtable_get mem' = apply_writes (next_seq_number mem) ops (memtable_get mem) \<and>
         writer_ok p AsyncIo fs (unat start) w (pre @ log_bytes ops)"
proof -
  let ?s = "pre @ log_bytes ops"
  obtain mem' where mem': "fold_result memtable_apply mem ops = Inr mem'" "mt_ok mem'"
      "memtable_get mem' = apply_writes (next_seq_number mem) ops (memtable_get mem)"
    using mt.apply_all [OF assms(5,6)] by blast
  have rd: "wal_reader_new p fs (unat start) = Inr (reader_at ?s (unat start))"
    using wal_reader_new_ok [OF assms(1)] assms(2) by simp
  have run: "wal_run p fs (reader_at ?s (unat start)) mem =
      Some (Inr (mem', \<lparr> new_position = length ?s, entries_recovered = length ops \<rparr>))"
    using wal_run_loop_ok [of p fs "unat start" pre ops "[]" mem mem' 0] assms(1-3) mem'(1)
      wal_run_loop_end [OF assms(4), of p fs mem' "length ops"]
    by (simp add: wal_run_def reader_at_def)
  obtain w where "continue_from p fs (length ?s) = Inr (fs, w)" "writer_ok p AsyncIo fs (unat start) w ?s"
    using continue_from_ok(2,3) [OF assms(1) _ assms(4)] assms(2) by simp
  then show ?thesis using rd run mem' by (simp add: wal_open_def)
qed

text \<open>C3: Recovery replays the log. When the log files hold a stream whose part after the start offset
  is the encoding of a sequence of writes with non-empty keys and values, and the stream does not
  end at a page boundary, \<open>WriteAheadLog::open\<close> returns: the memtable it leaves is the given one with
  exactly these writes applied in order, it counts them, and it reports the end of the stream as the
  position to continue from, leaving the files as they are.\<close>

theorem wal_open_replays:
  assumes "log_files_ok p fs (unat start) (pre @ log_bytes ops)" and "length pre = unat start"
    and "\<forall>op \<in> set ops. recoverable op" and "length (pre @ log_bytes ops) mod PAGE_SIZE \<noteq> 0"
    and "mt_ok mem" and "unat (next_seq_number mem) + length ops < 2 ^ 64"
  shows "\<exists>w mem'. wal_open p fs start mem =
           Some (Inr (fs, log_status_new (length (pre @ log_bytes ops)) (unat start), w, mem',
                      \<lparr> new_position = length (pre @ log_bytes ops), entries_recovered = length ops \<rparr>)) \<and>
         fold_result memtable_apply mem ops = Inr mem' \<and> mt_ok mem' \<and>
         memtable_get mem' = apply_writes (next_seq_number mem) ops (memtable_get mem)"
  using wal_open_replays_aux [OF assms] by blast

definition example_params :: params where
  "example_params = default_params\<lparr> db_path := ''db'' \<rparr>"

definition example_ops :: "write_op list" where
  "example_ops = [Put [7] [1, 2], Delete [7]]"

lemma example_ops_stream:
  "length (log_bytes example_ops) = 32" "\<forall>op \<in> set example_ops. recoverable op"
  "length example_ops = 2"
  by (simp_all add: example_ops_def recoverable_def log_bytes_def write_op_key_length_def)

theorem wal_open_replays_witness:
  "\<exists>w mem'. wal_open example_params [wal_file_path example_params 0 \<mapsto> log_bytes example_ops] 0 (memtable_new 1) =
     Some (Inr ([wal_file_path example_params 0 \<mapsto> log_bytes example_ops], log_status_new 32 0, w, mem',
                \<lparr> new_position = 32, entries_recovered = 2 \<rparr>)) \<and>
     fold_result memtable_apply (memtable_new 1) example_ops = Inr mem'"
proof -
  have "log_files_ok example_params [wal_file_path example_params 0 \<mapsto> log_bytes example_ops] 0
      (log_bytes example_ops)"
    using example_ops_stream(1) by (simp add: log_files_ok_def page_of_def PAGE_SIZE_def)
  then show ?thesis
    using wal_open_replays [of example_params "[wal_file_path example_params 0 \<mapsto> log_bytes example_ops]"
        0 "[]" example_ops "memtable_new 1"] example_ops_stream
    by (auto simp: PAGE_SIZE_def)
qed

text \<open>C4: Writing to a fresh log and reopening it restores the data. Whatever writes with non-empty
  keys and values the writer task has put into the log files, in either I/O mode, opening the log
  again yields a memtable that shows exactly the key-value map these writes produce, unless the log
  ends at a page boundary.\<close>

theorem wal_write_then_open:
  assumes "wal_writer_new p fs0 = (fs1, w1)"
    and "wal_write_bufs p mode fs1 w1 (map (\<lambda>op. encode_entry (Write op)) ops) = (fs2, w2)"
    and "\<forall>op \<in> set ops. recoverable op" and "length (log_bytes ops) mod PAGE_SIZE \<noteq> 0"
    and "unat seq + length ops < 2 ^ 64"
  shows "\<exists>st w mem' res. wal_open p fs2 0 (memtable_new seq) = Some (Inr (fs2, st, w, mem', res)) \<and>
      entries_recovered res = length ops \<and> mt_ok mem' \<and>
      visible (memtable_get mem') = fold kv_apply ops Map.empty"
proof -
  have "writer_ok p mode fs2 0 w2 (log_bytes ops)"
    using wal_write_bufs_ok [OF wal_writer_new_ok [OF assms(1)] assms(2)] by (simp add: log_bytes_def)
  then have files: "log_files_ok p fs2 (unat 0) ([] @ log_bytes ops)" by (simp add: writer_ok_def)
  have "visible (memtable_get (memtable_new seq)) = Map.empty"
    by (simp add: visible_def memtable_get_eq fun_eq_iff)
  then show ?thesis
    using wal_open_replays_aux [OF files _ assms(3), of "memtable_new seq"] assms(4,5)
    by (fastforce simp: visible_apply_writes)
qed

theorem wal_write_then_open_witness:
  "\<exists>fs2 w2 st w mem' res.
     wal_write_bufs example_params StdIo (fst (wal_writer_new example_params Map.empty))
       (snd (wal_writer_new example_params Map.empty)) (map (\<lambda>op. encode_entry (Write op)) example_ops) = (fs2, w2) \<and>
     wal_open example_params fs2 0 (memtable_new 1) = Some (Inr (fs2, st, w, mem', res)) \<and>
     visible (memtable_get mem') = fold kv_apply example_ops Map.empty"
proof -
  obtain fs1 w1 where new: "wal_writer_new example_params Map.empty = (fs1, w1)" by fastforce
  obtain fs2 w2 where bufs: "wal_write_bufs example_params StdIo fs1 w1
      (map (\<lambda>op. encode_entry (Write op)) example_ops) = (fs2, w2)" by fastforce
  show ?thesis
    using wal_write_then_open [OF new bufs, of 1] example_ops_stream
    by (auto simp: new bufs PAGE_SIZE_def simp del: encode_entry.simps)
qed

text \<open>C5: A log that ends exactly at a page boundary cannot be reopened: the writer has already created
  the next, empty page, and the recovery loop reads it again and again without ever returning. This
  includes the log of a database that was created and never written.\<close>

theorem wal_open_diverges_at_page_end:
  assumes "log_files_ok p fs (unat start) (pre @ log_bytes ops)" and "length pre = unat start"
    and "\<forall>op \<in> set ops. recoverable op" and "length (pre @ log_bytes ops) mod PAGE_SIZE = 0"
    and "mt_ok mem" and "unat (next_seq_number mem) + length ops < 2 ^ 64"
  shows "wal_open p fs start mem = None"
proof -
  let ?s = "pre @ log_bytes ops"
  obtain mem' where mem': "fold_result memtable_apply mem ops = Inr mem'"
    using mt.apply_all [OF assms(5,6)] by blast
  have rd: "wal_reader_new p fs (unat start) = Inr (reader_at ?s (unat start))"
    using wal_reader_new_ok [OF assms(1)] assms(2) by simp
  have "wal_run p fs (reader_at ?s (unat start)) mem = None"
    using wal_run_loop_ok [of p fs "unat start" pre ops "[]" mem mem' 0] assms(1-3) mem'
      wal_run_loop_page_end [OF assms(1) _ assms(4), of mem' "length ops"]
    by (simp add: wal_run_def)
  then show ?thesis using rd by (simp add: wal_open_def)
qed

theorem wal_open_diverges_at_page_end_witness:
  "wal_open example_params (fst (wal_writer_new example_params Map.empty)) 0 (memtable_new 1) = None"
proof -
  obtain fs1 w1 where new: "wal_writer_new example_params Map.empty = (fs1, w1)" by fastforce
  show ?thesis
    using wal_open_diverges_at_page_end [of example_params fs1 0 "[]" "[]" "memtable_new 1"] new
      wal_writer_new_ok [OF new, of StdIo]
    by (simp add: writer_ok_def)
qed

text \<open>C6: A put of an empty value is accepted and logged, but the log can then not be recovered: opening
  it fails the assertion \<open>buffer_len > 0\<close> at that entry.\<close>

theorem wal_open_panics_on_empty_value:
  assumes "log_files_ok p fs (unat start) (pre @ log_bytes (ops @ Put k [] # ops'))"
    and "length pre = unat start" and "\<forall>op \<in> set ops. recoverable op" and "k \<noteq> []" "length k < 2 ^ 64"
    and "mt_ok mem" and "unat (next_seq_number mem) + length ops < 2 ^ 64"
  shows "wal_open p fs start mem = Some (Inl (Panic ''assertion failed: buffer_len > 0''))"
proof -
  let ?post = "encode_entry (Write (Put k [])) @ log_bytes ops'"
  let ?s = "pre @ log_bytes ops @ ?post"
  have files: "log_files_ok p fs (unat start) ?s" using assms(1) by simp
  obtain mem' where mem': "fold_result memtable_apply mem ops = Inr mem'"
    using mt.apply_all [OF assms(6,7)] by blast
  have rd: "wal_reader_new p fs (unat start) = Inr (reader_at ?s (unat start))"
    using wal_reader_new_ok [OF files] assms(2) by simp
  have "wal_run_loop p fs (reader_at ?s (unat start)) mem 0 =
      Some (Inl (Panic ''assertion failed: buffer_len > 0''))"
    using wal_run_loop_ok [OF files _ assms(3) mem', of 0] assms(2,4,5)
      wal_run_loop_empty_value [of ?s "pre @ log_bytes ops" k "log_bytes ops'" p fs "unat start" mem'
        "length ops"] files
    by (simp del: encode_entry.simps)
  then show ?thesis using rd by (simp add: wal_open_def wal_run_def)
qed

theorem wal_open_panics_on_empty_value_witness:
  "wal_open example_params [wal_file_path example_params 0 \<mapsto> log_bytes [Put [7] []]] 0 (memtable_new 1) =
     Some (Inl (Panic ''assertion failed: buffer_len > 0''))"
proof -
  have "length (log_bytes [Put [7] []]) = 19" by (simp add: log_bytes_def)
  then have "log_files_ok example_params [wal_file_path example_params 0 \<mapsto> log_bytes [Put [7] []]] 0
      (log_bytes [Put [7] []])"
    by (simp add: log_files_ok_def page_of_def PAGE_SIZE_def del: log_bytes_simps)
  then show ?thesis
    using wal_open_panics_on_empty_value [of example_params
        "[wal_file_path example_params 0 \<mapsto> log_bytes [Put [7] []]]" 0 "[]" "[]" "[7]" "[]" "memtable_new 1"]
    by simp
qed

text \<open>C7: After a reopen inside a page, a writer with positional writes (\<open>_async-io\<close>) continues at the end
  of the stream. A writer with \<open>std::fs\<close> does not: \<open>continue_from\<close> opens the page with the cursor at
  its beginning, so the next write replaces the first bytes of the page instead of following the last.\<close>

theorem continue_from_async_appends_std_overwrites:
  assumes "log_files_ok p fs start s" and "start \<le> length s" and "length s mod PAGE_SIZE \<noteq> 0"
    and "data \<noteq> []" and "length s mod PAGE_SIZE + length data < PAGE_SIZE"
  shows "\<exists>w. continue_from p fs (length s) = Inr (fs, w) \<and> writer_ok p AsyncIo fs start w s \<and>
      fst (wal_write_all p AsyncIo fs w data 0) (wal_file_path p (length s div PAGE_SIZE)) =
        Some (page_of s (length s div PAGE_SIZE) @ data) \<and>
      fst (wal_write_all p StdIo fs w data 0) (wal_file_path p (length s div PAGE_SIZE)) =
        Some (data @ drop (length data) (page_of s (length s div PAGE_SIZE)))"
proof -
  define i where "i = length s div PAGE_SIZE"
  define w where "w = \<lparr> log_file = \<lparr> fh_path = wal_file_path p i, fh_cursor = 0 \<rparr>, position = length s \<rparr>"
  note cur = continue_from_ok(1) [OF assms(1-3), folded i_def] and cont = continue_from_ok(2) [OF assms(1-3), folded i_def, folded w_def]
    and ok = continue_from_ok(3) [OF assms(1-3), folded i_def, folded w_def]
  obtain fs1 w1 where async: "wal_write_all p AsyncIo fs w data 0 = (fs1, w1)" by fastforce
  have "log_files_ok p fs1 start (s @ data)"
    using wal_write_all_ok [OF ok async] by (simp add: writer_ok_def)
  then have "fs1 (wal_file_path p i) = Some (page_of s i @ data)"
    using page_of_append_last [OF i_def, of data] assms(2,5) div_within_page(1) [OF assms(5)]
    by (simp add: log_files_ok_def i_def div_le_mono)
  moreover have "fst (wal_write_all p StdIo fs w data 0) (wal_file_path p i) =
      Some (data @ drop (length data) (page_of s i))"
    using wal_write_all_std_start [of fs w "page_of s i" data p] cur assms(4,5) by (simp add: w_def)
  ultimately show ?thesis using cont ok async by (auto simp: i_def)
qed

theorem continue_from_async_appends_std_overwrites_witness:
  "\<exists>w. continue_from example_params [wal_file_path example_params 0 \<mapsto> [9, 8, 7]] (length [9, 8, 7 :: u8]) =
         Inr ([wal_file_path example_params 0 \<mapsto> [9, 8, 7]], w) \<and>
      fst (wal_write_all example_params AsyncIo [wal_file_path example_params 0 \<mapsto> [9, 8, 7]] w [1] 0)
        (wal_file_path example_params 0) = Some [9, 8, 7, 1] \<and>
      fst (wal_write_all example_params StdIo [wal_file_path example_params 0 \<mapsto> [9, 8, 7]] w [1] 0)
        (wal_file_path example_params 0) = Some [1, 8, 7]"
proof -
  have files: "log_files_ok example_params [wal_file_path example_params 0 \<mapsto> [9, 8, 7]] 0 [9, 8, 7]"
    by (simp add: log_files_ok_def page_of_def PAGE_SIZE_def)
  show ?thesis
    using continue_from_async_appends_std_overwrites [OF files, of "[1]"]
    by (auto simp: PAGE_SIZE_def page_of_def)
qed

end
