(* ===== verification/Lsm_Manifest.thy ===== *)
theory Lsm_Manifest
  imports Lsm_Disk
begin

text \<open>
  The manifest (\<open>src/src/manifest.rs\<close>): the metadata of the database as a whole and, for each level,
  the sorted list of the identifiers of its tables.

  The source keeps both as memory-mapped files. A shared mapping and its file have the same contents
  at all times, so an operation of the manifest is a function on the file system that rewrites the
  bytes of the file; \<open>flush\<close> changes nothing that a later \<open>open\<close> sees. The argument \<open>wk\<close> says whether
  the crate is built with the \<open>wisckey\<close> feature, which adds the value log metadata.
\<close>

section \<open>File names\<close>

definition manifest_path :: "params \<Rightarrow> string" where
  "manifest_path p = join_path (db_path p) ''database.meta''"

definition level_path :: "params \<Rightarrow> nat \<Rightarrow> string" where
  "level_path p idx = join_path (db_path p) (''level'' @ dec idx @ ''.meta'')"

section \<open>The layout of the metadata\<close>

record value_log_metadata =
  next_batch :: u64
  minimum_batch :: u64
  next_index_page :: u64
  minimum_index_page :: u64

record database_metadata =
  next_table_id :: u64
  md_num_levels :: u32
  md_padding :: u32
  seq_number_offset :: u64
  log_offset :: u64
  next_data_block_id :: u64
  md_value_log :: "value_log_metadata option"

definition value_log_metadata_bytes :: "value_log_metadata \<Rightarrow> bytes" where
  "value_log_metadata_bytes v =
     u64_bytes (next_batch v) @ u64_bytes (minimum_batch v) @ u64_bytes (next_index_page v) @
     u64_bytes (minimum_index_page v)"

definition metadata_bytes :: "database_metadata \<Rightarrow> bytes" where
  "metadata_bytes m =
     u64_bytes (next_table_id m) @ u32_bytes (md_num_levels m) @ u32_bytes (md_padding m) @
     u64_bytes (seq_number_offset m) @ u64_bytes (log_offset m) @ u64_bytes (next_data_block_id m) @
     (case md_value_log m of None \<Rightarrow> [] | Some v \<Rightarrow> value_log_metadata_bytes v)"

definition metadata_from_bytes :: "bool \<Rightarrow> bytes \<Rightarrow> database_metadata result" where
  "metadata_from_bytes wk bs =
     (if length bs = (if wk then 72 else 40)
      then Inr \<lparr> next_table_id = u64_at bs 0, md_num_levels = u32_at bs 8, md_padding = u32_at bs 12,
                 seq_number_offset = u64_at bs 16, log_offset = u64_at bs 24,
                 next_data_block_id = u64_at bs 32,
                 md_value_log =
                   (if wk then Some \<lparr> next_batch = u64_at bs 40, minimum_batch = u64_at bs 48,
                                      next_index_page = u64_at bs 56, minimum_index_page = u64_at bs 64 \<rparr>
                    else None) \<rparr>
      else Inl (Panic ''called `Result::unwrap()` on an `Err` value: SizeError''))"

section \<open>Operations on the metadata\<close>

definition manifest_meta :: "bool \<Rightarrow> params \<Rightarrow> fs \<Rightarrow> database_metadata result" where
  "manifest_meta wk p fs =
     bind_result (expect (fs (manifest_path p)) ''manifest is not mapped'') (metadata_from_bytes wk)"

definition store_meta :: "params \<Rightarrow> fs \<Rightarrow> database_metadata \<Rightarrow> fs" where
  "store_meta p fs m = fs(manifest_path p \<mapsto> metadata_bytes m)"

definition generate_next_data_block_id :: "bool \<Rightarrow> params \<Rightarrow> fs \<Rightarrow> (fs \<times> u64) result" where
  "generate_next_data_block_id wk p fs =
     bind_result (manifest_meta wk p fs) (\<lambda>m.
     bind_result (u64_inc (next_data_block_id m)) (\<lambda>n.
     Inr (store_meta p fs (m\<lparr> next_data_block_id := n \<rparr>), next_data_block_id m)))"

definition generate_next_table_id :: "bool \<Rightarrow> params \<Rightarrow> fs \<Rightarrow> (fs \<times> u64) result" where
  "generate_next_table_id wk p fs =
     bind_result (manifest_meta wk p fs) (\<lambda>m.
     bind_result (u64_inc (next_table_id m)) (\<lambda>n.
     Inr (store_meta p fs (m\<lparr> next_table_id := n \<rparr>), next_table_id m)))"

definition get_log_offset :: "bool \<Rightarrow> params \<Rightarrow> fs \<Rightarrow> u64 result" where
  "get_log_offset wk p fs = bind_result (manifest_meta wk p fs) (\<lambda>m. Inr (log_offset m))"

definition set_log_offset :: "bool \<Rightarrow> params \<Rightarrow> fs \<Rightarrow> u64 \<Rightarrow> fs result" where
  "set_log_offset wk p fs offset =
     bind_result (manifest_meta wk p fs) (\<lambda>m.
     bind_result (assert_that (log_offset m < offset) ''assertion failed: meta.log_offset < offset'') (\<lambda>_.
     Inr (store_meta p fs (m\<lparr> log_offset := offset \<rparr>))))"

definition get_seq_number_offset :: "bool \<Rightarrow> params \<Rightarrow> fs \<Rightarrow> u64 result" where
  "get_seq_number_offset wk p fs = bind_result (manifest_meta wk p fs) (\<lambda>m. Inr (seq_number_offset m))"

definition set_seq_number_offset :: "bool \<Rightarrow> params \<Rightarrow> fs \<Rightarrow> u64 \<Rightarrow> fs result" where
  "set_seq_number_offset wk p fs offset =
     bind_result (manifest_meta wk p fs) (\<lambda>m.
     if offset \<le> seq_number_offset m
     then Inl (Panic ''Sequence number must montonically increase'')
     else Inr (store_meta p fs (m\<lparr> seq_number_offset := offset \<rparr>)))"

text \<open>The accessors of the value log metadata exist with the \<open>wisckey\<close> feature only.\<close>

definition value_log_meta :: "params \<Rightarrow> fs \<Rightarrow> (database_metadata \<times> value_log_metadata) result" where
  "value_log_meta p fs =
     bind_result (manifest_meta True p fs) (\<lambda>m.
     bind_result (expect (md_value_log m) ''no value log metadata'') (\<lambda>v. Inr (m, v)))"

definition get_minimum_value_batch :: "params \<Rightarrow> fs \<Rightarrow> u64 result" where
  "get_minimum_value_batch p fs =
     bind_result (value_log_meta p fs) (\<lambda>(m, v). Inr (minimum_batch v))"

definition set_minimum_value_batch_id :: "params \<Rightarrow> fs \<Rightarrow> u64 \<Rightarrow> fs result" where
  "set_minimum_value_batch_id p fs offset =
     bind_result (value_log_meta p fs) (\<lambda>(m, v).
     bind_result (assert_that (minimum_batch v < offset)
        ''assertion failed: meta.value_log.minimum_batch < offset'') (\<lambda>_.
     Inr (store_meta p fs (m\<lparr> md_value_log := Some (v\<lparr> minimum_batch := offset \<rparr>) \<rparr>))))"

definition set_minimum_value_index_page_id :: "params \<Rightarrow> fs \<Rightarrow> u64 \<Rightarrow> fs result" where
  "set_minimum_value_index_page_id p fs offset =
     bind_result (value_log_meta p fs) (\<lambda>(m, v).
     bind_result (assert_that (minimum_index_page v < offset)
        ''assertion failed: meta.value_log.minimum_index_page < offset'') (\<lambda>_.
     Inr (store_meta p fs (m\<lparr> md_value_log := Some (v\<lparr> minimum_batch := offset \<rparr>) \<rparr>))))"

definition get_minimum_value_index_page_id :: "params \<Rightarrow> fs \<Rightarrow> u64 result" where
  "get_minimum_value_index_page_id p fs =
     bind_result (value_log_meta p fs) (\<lambda>(m, v). Inr (minimum_index_page v))"

definition generate_next_value_index_id :: "params \<Rightarrow> fs \<Rightarrow> (fs \<times> u64) result" where
  "generate_next_value_index_id p fs =
     bind_result (value_log_meta p fs) (\<lambda>(m, v).
     bind_result (u64_inc (next_index_page v)) (\<lambda>n.
     Inr (store_meta p fs (m\<lparr> md_value_log := Some (v\<lparr> next_index_page := n \<rparr>) \<rparr>), next_index_page v)))"

definition generate_next_value_batch_id :: "params \<Rightarrow> fs \<Rightarrow> (fs \<times> u64) result" where
  "generate_next_value_batch_id p fs =
     bind_result (value_log_meta p fs) (\<lambda>(m, v).
     bind_result (u64_inc (next_batch v)) (\<lambda>n.
     Inr (store_meta p fs (m\<lparr> md_value_log := Some (v\<lparr> next_batch := n \<rparr>) \<rparr>), next_batch v)))"

definition u64_dec :: "u64 \<Rightarrow> u64 result" where
  "u64_dec n = (if n = 0 then Inl (Panic ''attempt to subtract with overflow'') else Inr (n - 1))"

definition get_most_recent_value_index_page_id :: "params \<Rightarrow> fs \<Rightarrow> u64 result" where
  "get_most_recent_value_index_page_id p fs =
     bind_result (value_log_meta p fs) (\<lambda>(m, v). u64_dec (next_index_page v))"

definition get_most_recent_value_batch_id :: "params \<Rightarrow> fs \<Rightarrow> u64 result" where
  "get_most_recent_value_batch_id p fs =
     bind_result (value_log_meta p fs) (\<lambda>(m, v). u64_dec (next_batch v))"

section \<open>Level metadata\<close>

definition MANIFEST_PAGE_SIZE :: nat where
  "MANIFEST_PAGE_SIZE = 4 * 1024"

fun ids_of_bytes :: "nat \<Rightarrow> bytes \<Rightarrow> u64 list" where
  "ids_of_bytes 0 bs = []"
| "ids_of_bytes (Suc n) bs = read_u64 (take 8 bs) # ids_of_bytes n (drop 8 bs)"

definition ids_bytes :: "u64 list \<Rightarrow> bytes" where
  "ids_bytes ids = concat (map u64_bytes ids)"

definition level_num_tables :: "bytes \<Rightarrow> nat result" where
  "level_num_tables data = bind_result (slice data 0 8) (\<lambda>h. Inr (unat (read_u64 h)))"

definition level_table_ids :: "bytes \<Rightarrow> u64 list result" where
  "level_table_ids data =
     bind_result (level_num_tables data) (\<lambda>num_tables.
     bind_result (slice data 8 (8 + num_tables * 8)) (\<lambda>bs.
     Inr (ids_of_bytes num_tables bs)))"

text \<open>Assignment to a part of a buffer: \<open>data[pos..pos + new.len()].copy_from_slice(new)\<close>.\<close>

definition copy_into :: "bytes \<Rightarrow> nat \<Rightarrow> bytes \<Rightarrow> bytes result" where
  "copy_into data pos new =
     (if pos + length new \<le> length data
      then Inr (take pos data @ new @ drop (pos + length new) data)
      else Inl (Panic ''range out of bounds''))"

definition level_insert :: "bytes \<Rightarrow> u64 \<Rightarrow> (bytes \<times> bool) result" where
  "level_insert data tid =
     bind_result (level_table_ids data) (\<lambda>tables.
     case binary_search_by_key (\<lambda>i. i) tables tid of
       Found _ \<Rightarrow> Inr (data, False)
     | Missing pos \<Rightarrow>
         bind_result (vec_insert tables pos tid) (\<lambda>tables.
         bind_result (copy_into data 0 (u64_bytes (of_nat (length tables)))) (\<lambda>data.
         let start = 8; new_data = ids_bytes tables;
             data = (if start + length new_data \<ge> length data
                     then data @ replicate MANIFEST_PAGE_SIZE 0 else data)
         in bind_result (copy_into data start new_data) (\<lambda>data. Inr (data, True)))))"

definition level_remove :: "bytes \<Rightarrow> u64 \<Rightarrow> (bytes \<times> bool) result" where
  "level_remove data tid =
     bind_result (level_table_ids data) (\<lambda>tables.
     case binary_search_by_key (\<lambda>i. i) tables tid of
       Missing _ \<Rightarrow> Inr (data, False)
     | Found pos \<Rightarrow>
         bind_result (vec_remove tables pos) (\<lambda>(_, tables).
         bind_result (copy_into data 0 (u64_bytes (of_nat (length tables)))) (\<lambda>data.
         bind_result (copy_into data 8 (ids_bytes tables)) (\<lambda>data. Inr (data, True)))))"

definition add_table :: "params \<Rightarrow> fs \<Rightarrow> u32 \<times> u64 \<Rightarrow> fs result" where
  "add_table p fs = (\<lambda>(level, tid).
     if unat level < num_levels p
     then bind_result (expect (fs (level_path p (unat level))) ''level is not mapped'') (\<lambda>data.
          bind_result (level_insert data tid) (\<lambda>(data, was_new).
          if was_new then Inr (fs(level_path p (unat level) \<mapsto> data))
          else Inl (Panic ''Table already existed'')))
     else Inl (Panic ''No such level''))"

definition remove_table :: "params \<Rightarrow> fs \<Rightarrow> u32 \<times> u64 \<Rightarrow> fs result" where
  "remove_table p fs = (\<lambda>(level, tid).
     if unat level < num_levels p
     then bind_result (expect (fs (level_path p (unat level))) ''level is not mapped'') (\<lambda>data.
          bind_result (level_remove data tid) (\<lambda>(data, existed).
          if existed then Inr (fs(level_path p (unat level) \<mapsto> data))
          else Inl (Panic ''No table existed'')))
     else Inl (Panic ''No such level''))"

definition update_table_set ::
    "params \<Rightarrow> fs \<Rightarrow> (u32 \<times> u64) list \<Rightarrow> (u32 \<times> u64) list \<Rightarrow> fs result" where
  "update_table_set p fs add remove =
     bind_result (fold_result (add_table p) fs add) (\<lambda>fs. fold_result (remove_table p) fs remove)"

fun map_result :: "('a \<Rightarrow> 'b result) \<Rightarrow> 'a list \<Rightarrow> 'b list result" where
  "map_result f [] = Inr []"
| "map_result f (x # xs) =
     bind_result (f x) (\<lambda>y. bind_result (map_result f xs) (\<lambda>ys. Inr (y # ys)))"

definition get_table_ids :: "params \<Rightarrow> fs \<Rightarrow> u64 list list result" where
  "get_table_ids p fs =
     map_result (\<lambda>idx. bind_result (expect (fs (level_path p idx)) ''level is not mapped'') level_table_ids)
       [0 ..< num_levels p]"

section \<open>Creating and opening\<close>

definition metadata_new :: "bool \<Rightarrow> params \<Rightarrow> database_metadata" where
  "metadata_new wk p =
     \<lparr> next_table_id = 1, md_num_levels = of_nat (num_levels p), md_padding = 0,
       seq_number_offset = 1, log_offset = 0, next_data_block_id = 1,
       md_value_log =
         (if wk then Some \<lparr> next_batch = 1, minimum_batch = 0, next_index_page = 1,
                            minimum_index_page = 1 \<rparr> else None) \<rparr>"

definition manifest_new :: "bool \<Rightarrow> params \<Rightarrow> fs \<Rightarrow> fs" where
  "manifest_new wk p fs =
     (let fs = store_meta p fs (metadata_new wk p)
      in fold (\<lambda>idx fs. fs(level_path p idx \<mapsto> u64_bytes 0 @ replicate (MANIFEST_PAGE_SIZE - 8) 0))
           [0 ..< num_levels p] fs)"

definition manifest_open :: "bool \<Rightarrow> params \<Rightarrow> fs \<Rightarrow> unit result" where
  "manifest_open wk p fs =
     (case fs (manifest_path p) of
        None \<Rightarrow> Inl (Fail (from_io_error ''Failed to open manifest'' NotFound))
      | Some data \<Rightarrow>
          bind_result (metadata_from_bytes wk data) (\<lambda>meta.
          if md_num_levels meta \<noteq> of_nat (num_levels p)
          then Inl (Panic ''Number of levels is incompatible'')
          else bind_result
                 (map_result (\<lambda>idx.
                    case fs (level_path p idx) of
                      None \<Rightarrow> Inl (Fail (from_io_error ''Failed to open manifest'' NotFound))
                    | Some data \<Rightarrow> level_num_tables data) [0 ..< unat (md_num_levels meta)])
                 (\<lambda>counts. assert_that (sum_list counts < 2 ^ 64) ''attempt to add with overflow'')))"

section \<open>File names are distinct\<close>

lemma dec_inj [simp]: "dec m = dec n \<longleftrightarrow> m = n"
  by (metis undec_dec)

lemma level_path_inj [simp]: "level_path p i = level_path p j \<longleftrightarrow> i = j"
  by (simp add: level_path_def join_path_def)

lemma manifest_path_disjoint [simp]:
  "manifest_path p \<noteq> level_path p i" "level_path p i \<noteq> manifest_path p"
  "manifest_path p \<noteq> data_block_path p d" "data_block_path p d \<noteq> manifest_path p"
  "manifest_path p \<noteq> index_block_path p d" "index_block_path p d \<noteq> manifest_path p"
  "manifest_path p \<noteq> wal_file_path p n" "wal_file_path p n \<noteq> manifest_path p"
  "manifest_path p \<noteq> value_batch_path p d" "value_batch_path p d \<noteq> manifest_path p"
  "manifest_path p \<noteq> value_index_path p d" "value_index_path p d \<noteq> manifest_path p"
  by (simp_all add: manifest_path_def level_path_def path_defs)

lemma level_path_disjoint [simp]:
  "level_path p i \<noteq> data_block_path p d" "data_block_path p d \<noteq> level_path p i"
  "level_path p i \<noteq> index_block_path p d" "index_block_path p d \<noteq> level_path p i"
  "level_path p i \<noteq> wal_file_path p n" "wal_file_path p n \<noteq> level_path p i"
  "level_path p i \<noteq> value_batch_path p d" "value_batch_path p d \<noteq> level_path p i"
  "level_path p i \<noteq> value_index_path p d" "value_index_path p d \<noteq> level_path p i"
  by (simp_all add: level_path_def path_defs)

section \<open>The metadata round trip\<close>

lemma length_metadata_bytes:
  "length (metadata_bytes m) = (if md_value_log m = None then 40 else 72)"
  by (simp add: metadata_bytes_def value_log_metadata_bytes_def split: option.split)

lemma metadata_round_trip:
  assumes "wk \<longleftrightarrow> md_value_log m \<noteq> None"
  shows "metadata_from_bytes wk (metadata_bytes m) = Inr m"
proof (cases "md_value_log m")
  case None
  then show ?thesis
    using assms length_metadata_bytes [of m]
    by (simp add: metadata_from_bytes_def) (simp add: metadata_bytes_def codec_simps)
next
  case (Some v)
  then show ?thesis
    using assms length_metadata_bytes [of m]
    by (simp add: metadata_from_bytes_def)
      (simp add: metadata_bytes_def value_log_metadata_bytes_def codec_simps)
qed

section \<open>What the files of the manifest hold\<close>

text \<open>
  A level file holds a set of table identifiers: their number, the sorted identifiers and at least
  one spare byte, since the file grows as soon as the identifiers reach its end. Zero is not the
  identifier of a table.
\<close>

definition level_holds :: "bytes \<Rightarrow> u64 set \<Rightarrow> bool" where
  "level_holds data S \<longleftrightarrow>
     0 \<notin> S \<and> (\<exists>rest. rest \<noteq> [] \<and>
       data = u64_bytes (of_nat (card S)) @ ids_bytes (sorted_list_of_set S) @ rest)"

definition manifest_ok ::
    "bool \<Rightarrow> params \<Rightarrow> fs \<Rightarrow> database_metadata \<Rightarrow> (nat \<Rightarrow> u64 set) \<Rightarrow> bool" where
  "manifest_ok wk p fs m T \<longleftrightarrow>
     fs (manifest_path p) = Some (metadata_bytes m) \<and> (wk \<longleftrightarrow> md_value_log m \<noteq> None) \<and>
     md_num_levels m = of_nat (num_levels p) \<and> num_levels p < 2 ^ 32 \<and>
     (\<forall>i < num_levels p. \<exists>data. fs (level_path p i) = Some data \<and> level_holds data (T i))"

lemma length_ids_bytes [simp, codec_simps]: "length (ids_bytes ids) = 8 * length ids"
  by (induction ids) (simp_all add: ids_bytes_def)

lemma ids_of_ids_bytes [simp, codec_simps]: "ids_of_bytes (length ids) (ids_bytes ids) = ids"
  by (induction ids) (simp_all add: ids_bytes_def)

lemma card_u64_bound: "0 \<notin> S \<Longrightarrow> card (S :: u64 set) < 2 ^ 64"
proof -
  assume "0 \<notin> S"
  then have "S \<subset> UNIV" by auto
  then have "card S < card (UNIV :: u64 set)" by (intro psubset_card_mono) auto
  then show ?thesis by (simp add: card_word)
qed

lemma unat_of_nat_card: "0 \<notin> S \<Longrightarrow> unat (of_nat (card (S :: u64 set)) :: u64) = card S"
  using card_u64_bound by simp

lemma level_table_ids_ok:
  assumes "level_holds data S"
  shows "level_table_ids data = Inr (sorted_list_of_set S)" "level_num_tables data = Inr (card S)"
proof -
  obtain rest where data: "data = u64_bytes (of_nat (card S)) @ ids_bytes (sorted_list_of_set S) @ rest"
    and nz: "0 \<notin> S"
    using assms by (auto simp: level_holds_def)
  have len: "length (sorted_list_of_set S) = card S" by simp
  show num: "level_num_tables data = Inr (card S)"
    using unat_of_nat_card [OF nz] by (simp add: level_num_tables_def data)
  have "slice data 8 (8 + card S * 8) = Inr (ids_bytes (sorted_list_of_set S))"
    using len by (simp add: data slice_def)
  then show "level_table_ids data = Inr (sorted_list_of_set S)"
    using num ids_of_ids_bytes [of "sorted_list_of_set S"] by (simp add: level_table_ids_def)
qed

lemma sorted_strict_ids: "sorted_strict (map (\<lambda>i. i) (sorted_list_of_set (S :: u64 set)))"
  by simp

lemma strict_sorted_is_sorted_list:
  assumes "sorted_strict xs" and "set xs = S"
  shows "xs = sorted_list_of_set S"
  using assms sorted_list_of_set.idem_if_sorted_distinct [of xs] by (simp add: strict_sorted_iff)

lemma insert_sorted_position:
  assumes "sorted_strict xs" and "\<forall>x \<in> set (take pos xs). x < y" and "\<forall>x \<in> set (drop pos xs). y < x"
  shows "take pos xs @ y # drop pos xs = sorted_list_of_set (insert y (set xs))"
proof (rule strict_sorted_is_sorted_list)
  have "sorted_strict (take pos xs @ drop pos xs)" using assms(1) by simp
  then show "sorted_strict (take pos xs @ y # drop pos xs)"
    using assms(2,3) unfolding sorted_wrt_append by (auto intro: less_trans)
  have "set (take pos xs) \<union> set (drop pos xs) = set xs" by (metis append_take_drop_id set_append)
  then show "set (take pos xs @ y # drop pos xs) = insert y (set xs)" by auto
qed

lemma remove_sorted_position:
  assumes "sorted_strict xs" and "pos < length xs"
  shows "take pos xs @ drop (Suc pos) xs = sorted_list_of_set (set xs - {xs ! pos})"
proof (rule strict_sorted_is_sorted_list)
  have split: "xs = take pos xs @ xs ! pos # drop (Suc pos) xs"
    using assms(2) by (rule id_take_nth_drop)
  have sorted: "sorted_strict (take pos xs @ xs ! pos # drop (Suc pos) xs)" using assms(1) split by simp
  then show "sorted_strict (take pos xs @ drop (Suc pos) xs)" by (simp add: sorted_wrt_append)
  have "distinct (take pos xs @ xs ! pos # drop (Suc pos) xs)"
    using sorted by (rule sorted_strict_distinct)
  moreover have "set xs = insert (xs ! pos) (set (take pos xs) \<union> set (drop (Suc pos) xs))"
    using split by (metis list.simps(15) set_append Un_insert_right)
  ultimately show "set (take pos xs @ drop (Suc pos) xs) = set xs - {xs ! pos}" by auto
qed

lemma copy_into_header:
  "length old = length new \<Longrightarrow> copy_into (old @ xs) 0 new = Inr (new @ xs)"
  by (simp add: copy_into_def)

lemma level_insert_ok:
  assumes "level_holds data S" and "tid \<notin> S" and "tid \<noteq> 0"
  shows "\<exists>data'. level_insert data tid = Inr (data', True) \<and> level_holds data' (insert tid S)"
proof -
  let ?ids = "sorted_list_of_set S" and ?ids' = "sorted_list_of_set (insert tid S)"
  obtain rest where data: "data = u64_bytes (of_nat (card S)) @ ids_bytes ?ids @ rest"
    and nz: "0 \<notin> S" and rest: "rest \<noteq> []"
    using assms(1) by (auto simp: level_holds_def)
  have "\<And>i. binary_search_by_key (\<lambda>i. i) ?ids tid \<noteq> Found i"
    using binary_search_Found_iff [OF sorted_strict_ids, of S tid] assms(2)
    by (metis finite nth_mem set_sorted_list_of_set)
  then obtain pos where miss: "binary_search_by_key (\<lambda>i. i) ?ids tid = Missing pos"
    by (cases "binary_search_by_key (\<lambda>i. i) ?ids tid") auto
  note pos = binary_search_MissingD [OF sorted_strict_ids miss]
  have "\<forall>x \<in> set (take pos ?ids). x < tid" "\<forall>x \<in> set (drop pos ?ids). tid < x"
    using pos by (auto simp: in_set_conv_nth)
  then have ids': "take pos ?ids @ tid # drop pos ?ids = ?ids'"
    using insert_sorted_position [of ?ids pos tid] by (simp del: sorted_list_of_set_insert_remove)
  have card: "length ?ids' = Suc (card S)" using assms(2) by simp
  let ?h = "u64_bytes (of_nat (Suc (card S)))"
  have header: "copy_into data 0 ?h = Inr (?h @ ids_bytes ?ids @ rest)"
    unfolding data by (rule copy_into_header) simp
  define grown where "grown = (if 8 + length (ids_bytes ?ids') \<ge> length (?h @ ids_bytes ?ids @ rest)
      then (?h @ ids_bytes ?ids @ rest) @ replicate MANIFEST_PAGE_SIZE 0 else ?h @ ids_bytes ?ids @ rest)"
  have grown: "\<exists>more. grown = ?h @ more \<and> 8 * Suc (card S) < length more"
  proof -
    have "0 < length rest" using rest by simp
    then show ?thesis using card by (auto simp: grown_def MANIFEST_PAGE_SIZE_def)
  qed
  then obtain more where more: "grown = ?h @ more" "8 * Suc (card S) < length more" by blast
  have "copy_into grown 8 (ids_bytes ?ids') = Inr (?h @ ids_bytes ?ids' @ drop (8 * Suc (card S)) more)"
    using more card by (simp add: copy_into_def)
  then have "level_insert data tid = Inr (?h @ ids_bytes ?ids' @ drop (8 * Suc (card S)) more, True)"
    using level_table_ids_ok(1) [OF assms(1)] miss pos(1) ids' card header
    by (auto simp: level_insert_def Let_def grown_def vec_insert_def
        simp del: sorted_list_of_set_insert_remove split: if_splits)
  moreover have "level_holds (?h @ ids_bytes ?ids' @ drop (8 * Suc (card S)) more) (insert tid S)"
    using more(2) nz assms(2,3) unfolding level_holds_def by (auto intro!: exI [of _ "drop (8 * Suc (card S)) more"])
  ultimately show ?thesis by blast
qed

lemma level_remove_ok:
  assumes "level_holds data S" and "tid \<in> S"
  shows "\<exists>data'. level_remove data tid = Inr (data', True) \<and> level_holds data' (S - {tid})"
proof -
  let ?ids = "sorted_list_of_set S" and ?ids' = "sorted_list_of_set (S - {tid})"
  obtain rest where data: "data = u64_bytes (of_nat (card S)) @ ids_bytes ?ids @ rest"
    and nz: "0 \<notin> S" and rest: "rest \<noteq> []"
    using assms(1) by (auto simp: level_holds_def)
  obtain pos where at: "pos < length ?ids" "?ids ! pos = tid"
    using assms(2) by (metis finite in_set_conv_nth set_sorted_list_of_set)
  then have found: "binary_search_by_key (\<lambda>i. i) ?ids tid = Found pos"
    using binary_search_Found_iff [OF sorted_strict_ids] by simp
  have ids': "take pos ?ids @ drop (Suc pos) ?ids = ?ids'"
    using remove_sorted_position [of ?ids pos] at by simp
  have card: "length ?ids' = card S - 1" "card S \<ge> 1"
    using assms(2) card_gt_0_iff [of S] by (auto simp: Suc_le_eq)
  let ?h = "u64_bytes (of_nat (card S - 1))"
  have header: "copy_into data 0 ?h = Inr (?h @ ids_bytes ?ids @ rest)"
    unfolding data by (rule copy_into_header) simp
  let ?rest = "drop (8 * (card S - 1)) (ids_bytes ?ids @ rest)"
  have "copy_into (?h @ ids_bytes ?ids @ rest) 8 (ids_bytes ?ids') = Inr (?h @ ids_bytes ?ids' @ ?rest)"
    using card by (simp add: copy_into_def)
  then have "level_remove data tid = Inr (?h @ ids_bytes ?ids' @ ?rest, True)"
    using level_table_ids_ok(1) [OF assms(1)] found at ids' card header
    by (simp add: level_remove_def)
  moreover have "level_holds (?h @ ids_bytes ?ids' @ ?rest) (S - {tid})"
    using nz rest assms(2) card unfolding level_holds_def
    by (auto intro!: exI [of _ ?rest])
  ultimately show ?thesis by blast
qed

section \<open>The operations keep the manifest well-formed\<close>

lemma manifest_okD:
  assumes "manifest_ok wk p fs m T"
  shows "fs (manifest_path p) = Some (metadata_bytes m)" "manifest_meta wk p fs = Inr m"
    "md_num_levels m = of_nat (num_levels p)" "num_levels p < 2 ^ 32"
    "\<And>i. i < num_levels p \<Longrightarrow> \<exists>data. fs (level_path p i) = Some data \<and> level_holds data (T i)"
  using assms metadata_round_trip [of wk m] by (simp_all add: manifest_ok_def manifest_meta_def)

lemma store_meta_ok:
  assumes "manifest_ok wk p fs m T" and "md_num_levels m' = md_num_levels m"
    and "md_value_log m' = None \<longleftrightarrow> md_value_log m = None"
  shows "manifest_ok wk p (store_meta p fs m') m' T"
  using assms by (simp add: manifest_ok_def store_meta_def)

lemma generate_next_data_block_id_ok:
  assumes "manifest_ok wk p fs m T" and "unat (next_data_block_id m) < 2 ^ 64 - 1"
  defines "m' \<equiv> m\<lparr> next_data_block_id := next_data_block_id m + 1 \<rparr>"
  shows "generate_next_data_block_id wk p fs = Inr (store_meta p fs m', next_data_block_id m)"
    "manifest_ok wk p (store_meta p fs m') m' T"
  using manifest_okD(2) [OF assms(1)] u64_inc_ok [OF assms(2)] store_meta_ok [OF assms(1), of m']
  by (simp_all add: generate_next_data_block_id_def m'_def)

lemma generate_next_table_id_ok:
  assumes "manifest_ok wk p fs m T" and "unat (next_table_id m) < 2 ^ 64 - 1"
  defines "m' \<equiv> m\<lparr> next_table_id := next_table_id m + 1 \<rparr>"
  shows "generate_next_table_id wk p fs = Inr (store_meta p fs m', next_table_id m)"
    "manifest_ok wk p (store_meta p fs m') m' T"
  using manifest_okD(2) [OF assms(1)] u64_inc_ok [OF assms(2)] store_meta_ok [OF assms(1), of m']
  by (simp_all add: generate_next_table_id_def m'_def)

lemma set_log_offset_ok:
  assumes "manifest_ok wk p fs m T" and "log_offset m < offset"
  defines "m' \<equiv> m\<lparr> log_offset := offset \<rparr>"
  shows "set_log_offset wk p fs offset = Inr (store_meta p fs m')"
    "manifest_ok wk p (store_meta p fs m') m' T"
  using manifest_okD(2) [OF assms(1)] assms(2) store_meta_ok [OF assms(1), of m']
  by (simp_all add: set_log_offset_def m'_def)

lemma set_seq_number_offset_ok:
  assumes "manifest_ok wk p fs m T" and "seq_number_offset m < offset"
  defines "m' \<equiv> m\<lparr> seq_number_offset := offset \<rparr>"
  shows "set_seq_number_offset wk p fs offset = Inr (store_meta p fs m')"
    "manifest_ok wk p (store_meta p fs m') m' T"
  using manifest_okD(2) [OF assms(1)] assms(2) store_meta_ok [OF assms(1), of m']
  by (simp_all add: set_seq_number_offset_def m'_def)

text \<open>A level update that changes the set of one level.\<close>

lemma manifest_ok_level_upd:
  assumes "manifest_ok wk p fs m T" and "level_holds data S"
  shows "manifest_ok wk p (fs(level_path p l \<mapsto> data)) m (T(l := S))"
  using assms by (auto simp: manifest_ok_def)

lemma add_table_ok:
  assumes ok: "manifest_ok wk p fs m T" and l: "unat l < num_levels p"
    and tid: "tid \<notin> T (unat l)" "tid \<noteq> 0"
  shows "\<exists>data. add_table p fs (l, tid) = Inr (fs(level_path p (unat l) \<mapsto> data)) \<and>
      manifest_ok wk p (fs(level_path p (unat l) \<mapsto> data)) m
        (T(unat l := insert tid (T (unat l))))"
proof -
  obtain data where data: "fs (level_path p (unat l)) = Some data" "level_holds data (T (unat l))"
    using manifest_okD(5) [OF ok l] by blast
  obtain data' where data': "level_insert data tid = Inr (data', True)"
      "level_holds data' (insert tid (T (unat l)))"
    using level_insert_ok [OF data(2) tid] by blast
  then show ?thesis
    using l data(1) manifest_ok_level_upd [OF ok data'(2)] by (auto simp: add_table_def)
qed

lemma remove_table_ok:
  assumes ok: "manifest_ok wk p fs m T" and l: "unat l < num_levels p" and tid: "tid \<in> T (unat l)"
  shows "\<exists>data. remove_table p fs (l, tid) = Inr (fs(level_path p (unat l) \<mapsto> data)) \<and>
      manifest_ok wk p (fs(level_path p (unat l) \<mapsto> data)) m (T(unat l := T (unat l) - {tid}))"
proof -
  obtain data where data: "fs (level_path p (unat l)) = Some data" "level_holds data (T (unat l))"
    using manifest_okD(5) [OF ok l] by blast
  obtain data' where data': "level_remove data tid = Inr (data', True)"
      "level_holds data' (T (unat l) - {tid})"
    using level_remove_ok [OF data(2) tid] by blast
  then show ?thesis
    using l data(1) manifest_ok_level_upd [OF ok data'(2)] by (auto simp: remove_table_def)
qed

text \<open>The identifiers a list of level-table pairs names for a level.\<close>

definition ids_on :: "(u32 \<times> u64) list \<Rightarrow> nat \<Rightarrow> u64 set" where
  "ids_on xs i = {tid. \<exists>l. (l, tid) \<in> set xs \<and> unat l = i}"

lemma ids_on_simps [simp]:
  "ids_on [] i = {}"
  "ids_on ((l, tid) # xs) i = (if unat l = i then insert tid (ids_on xs i) else ids_on xs i)"
  by (auto simp: ids_on_def)

lemma unat_u32_inj [simp]: "unat (a :: u32) = unat b \<longleftrightarrow> a = b"
  by (simp add: word_unat_eq_iff)

lemma ids_on_mem: "(l, tid) \<in> set xs \<longleftrightarrow> tid \<in> ids_on xs (unat l)"
  by (auto simp: ids_on_def)

lemma add_tables_ok:
  assumes "manifest_ok wk p fs m T" and "distinct xs"
    and "\<forall>(l, tid) \<in> set xs. unat l < num_levels p \<and> tid \<notin> T (unat l) \<and> tid \<noteq> 0"
  shows "\<exists>fs'. fold_result (add_table p) fs xs = Inr fs' \<and>
      manifest_ok wk p fs' m (\<lambda>i. T i \<union> ids_on xs i) \<and>
      (\<forall>q. (\<forall>i. q \<noteq> level_path p i) \<longrightarrow> fs' q = fs q)"
  using assms
proof (induction xs arbitrary: fs T)
  case Nil
  then show ?case by simp
next
  case (Cons x xs)
  obtain l tid where x: "x = (l, tid)" by (cases x)
  define T1 where "T1 = T(unat l := insert tid (T (unat l)))"
  have prem: "unat l < num_levels p" "tid \<notin> T (unat l)" "tid \<noteq> 0" using Cons.prems(3) x by auto
  obtain fs1 where fs1: "add_table p fs x = Inr fs1" "manifest_ok wk p fs1 m T1"
      "\<forall>q. (\<forall>i. q \<noteq> level_path p i) \<longrightarrow> fs1 q = fs q"
    using add_table_ok [OF Cons.prems(1) prem] x by (auto simp: T1_def)
  have "\<forall>(l, tid) \<in> set xs. unat l < num_levels p \<and> tid \<notin> T1 (unat l) \<and> tid \<noteq> 0"
    using Cons.prems(2,3) x by (fastforce simp: T1_def split: if_splits)
  from Cons.IH [OF fs1(2) _ this] Cons.prems(2)
  obtain fs' where fs': "fold_result (add_table p) fs1 xs = Inr fs'"
      "manifest_ok wk p fs' m (\<lambda>i. T1 i \<union> ids_on xs i)"
      "\<forall>q. (\<forall>i. q \<noteq> level_path p i) \<longrightarrow> fs' q = fs1 q"
    by auto
  have "(\<lambda>i. T1 i \<union> ids_on xs i) = (\<lambda>i. T i \<union> ids_on (x # xs) i)"
    using x by (auto simp: fun_eq_iff T1_def)
  then show ?case using fs1(1,3) fs' by simp
qed

lemma remove_tables_ok:
  assumes "manifest_ok wk p fs m T" and "distinct xs"
    and "\<forall>(l, tid) \<in> set xs. unat l < num_levels p \<and> tid \<in> T (unat l)"
  shows "\<exists>fs'. fold_result (remove_table p) fs xs = Inr fs' \<and>
      manifest_ok wk p fs' m (\<lambda>i. T i - ids_on xs i) \<and>
      (\<forall>q. (\<forall>i. q \<noteq> level_path p i) \<longrightarrow> fs' q = fs q)"
  using assms
proof (induction xs arbitrary: fs T)
  case Nil
  then show ?case by simp
next
  case (Cons x xs)
  obtain l tid where x: "x = (l, tid)" by (cases x)
  define T1 where "T1 = T(unat l := T (unat l) - {tid})"
  have prem: "unat l < num_levels p" "tid \<in> T (unat l)" using Cons.prems(3) x by auto
  obtain fs1 where fs1: "remove_table p fs x = Inr fs1" "manifest_ok wk p fs1 m T1"
      "\<forall>q. (\<forall>i. q \<noteq> level_path p i) \<longrightarrow> fs1 q = fs q"
    using remove_table_ok [OF Cons.prems(1) prem] x by (auto simp: T1_def)
  have "\<forall>(l, tid) \<in> set xs. unat l < num_levels p \<and> tid \<in> T1 (unat l)"
    using Cons.prems(2,3) x by (fastforce simp: T1_def split: if_splits)
  from Cons.IH [OF fs1(2) _ this] Cons.prems(2)
  obtain fs' where fs': "fold_result (remove_table p) fs1 xs = Inr fs'"
      "manifest_ok wk p fs' m (\<lambda>i. T1 i - ids_on xs i)"
      "\<forall>q. (\<forall>i. q \<noteq> level_path p i) \<longrightarrow> fs' q = fs1 q"
    by auto
  have "(\<lambda>i. T1 i - ids_on xs i) = (\<lambda>i. T i - ids_on (x # xs) i)"
    using x by (auto simp: fun_eq_iff T1_def)
  then show ?case using fs1(1,3) fs' by simp
qed

lemma update_table_set_ok:
  assumes "manifest_ok wk p fs m T" and "distinct add" and "distinct remove"
    and "\<forall>(l, tid) \<in> set add. unat l < num_levels p \<and> tid \<notin> T (unat l) \<and> tid \<noteq> 0"
    and "\<forall>(l, tid) \<in> set remove. unat l < num_levels p \<and> (tid \<in> T (unat l) \<or> (l, tid) \<in> set add)"
  shows "\<exists>fs'. update_table_set p fs add remove = Inr fs' \<and>
      manifest_ok wk p fs' m (\<lambda>i. T i \<union> ids_on add i - ids_on remove i) \<and>
      (\<forall>q. (\<forall>i. q \<noteq> level_path p i) \<longrightarrow> fs' q = fs q)"
proof -
  obtain fs1 where fs1: "fold_result (add_table p) fs add = Inr fs1"
      "manifest_ok wk p fs1 m (\<lambda>i. T i \<union> ids_on add i)"
      "\<forall>q. (\<forall>i. q \<noteq> level_path p i) \<longrightarrow> fs1 q = fs q"
    using add_tables_ok [OF assms(1,2,4)] by blast
  have "\<forall>(l, tid) \<in> set remove. unat l < num_levels p \<and> tid \<in> T (unat l) \<union> ids_on add (unat l)"
    using assms(5) by (auto simp: ids_on_mem)
  from remove_tables_ok [OF fs1(2) assms(3) this] fs1 show ?thesis
    by (auto simp: update_table_set_def)
qed

lemma map_result_Inr: "\<forall>x \<in> set xs. f x = Inr (g x) \<Longrightarrow> map_result f xs = Inr (map g xs)"
  by (induction xs) simp_all

lemma get_table_ids_ok:
  assumes "manifest_ok wk p fs m T"
  shows "get_table_ids p fs = Inr (map (\<lambda>i. sorted_list_of_set (T i)) [0 ..< num_levels p])"
  unfolding get_table_ids_def
proof (rule map_result_Inr, rule ballI)
  fix i assume "i \<in> set [0 ..< num_levels p]"
  then obtain data where "fs (level_path p i) = Some data" "level_holds data (T i)"
    using manifest_okD(5) [OF assms] by auto
  then show "bind_result (expect (fs (level_path p i)) ''level is not mapped'') level_table_ids =
      Inr (sorted_list_of_set (T i))"
    using level_table_ids_ok(1) by simp
qed

section \<open>Creating and opening\<close>

lemma fold_level_files:
  "fold (\<lambda>idx fs. fs(level_path p idx \<mapsto> c)) [0 ..< n] fs q =
     (if \<exists>i < n. q = level_path p i then Some c else fs q)"
  by (induction n) (auto simp: less_Suc_eq)

lemma manifest_new_ok:
  assumes "num_levels p < 2 ^ 32"
  shows "manifest_ok wk p (manifest_new wk p fs) (metadata_new wk p) (\<lambda>i. {})"
proof -
  have "level_holds (u64_bytes 0 @ replicate (MANIFEST_PAGE_SIZE - 8) 0) {}"
    by (auto simp: level_holds_def ids_bytes_def MANIFEST_PAGE_SIZE_def)
  then show ?thesis
    using assms
    by (auto simp: manifest_ok_def manifest_new_def fold_level_files store_meta_def metadata_new_def)
qed

lemma manifest_open_ok:
  assumes ok: "manifest_ok wk p fs m T" and count: "(\<Sum>i < num_levels p. card (T i)) < 2 ^ 64"
  shows "manifest_open wk p fs = Inr ()"
proof -
  let ?f = "\<lambda>idx. case fs (level_path p idx) of
      None \<Rightarrow> Inl (Fail (from_io_error ''Failed to open manifest'' NotFound))
    | Some data \<Rightarrow> level_num_tables data"
  have "\<forall>i \<in> set [0 ..< num_levels p]. ?f i = Inr (card (T i))"
  proof
    fix i assume "i \<in> set [0 ..< num_levels p]"
    then obtain data where "fs (level_path p i) = Some data" "level_holds data (T i)"
      using manifest_okD(5) [OF ok] by auto
    then show "?f i = Inr (card (T i))" using level_table_ids_ok(2) by simp
  qed
  from map_result_Inr [OF this]
  have "map_result ?f [0 ..< num_levels p] = Inr (map (\<lambda>i. card (T i)) [0 ..< num_levels p])" .
  moreover have "sum_list (map (\<lambda>i. card (T i)) [0 ..< num_levels p]) = (\<Sum>i < num_levels p. card (T i))"
    by (simp add: interv_sum_list_conv_sum_set_nat atLeast0LessThan)
  ultimately show ?thesis
    using ok count metadata_round_trip [of wk m] manifest_okD(3,4) [OF ok]
    by (simp add: manifest_open_def manifest_ok_def)
qed

section \<open>Sequences of updates\<close>

text \<open>The operations that change a manifest, and what each of them does to the metadata and the table sets.\<close>

datatype manifest_op =
    NextDataBlockId
  | NextTableId
  | SetLogOffset u64
  | SetSeqNumberOffset u64
  | UpdateTableSet "(u32 \<times> u64) list" "(u32 \<times> u64) list"

primrec manifest_do :: "bool \<Rightarrow> params \<Rightarrow> fs \<Rightarrow> manifest_op \<Rightarrow> fs result" where
  "manifest_do wk p fs NextDataBlockId = bind_result (generate_next_data_block_id wk p fs) (\<lambda>(fs, _). Inr fs)"
| "manifest_do wk p fs NextTableId = bind_result (generate_next_table_id wk p fs) (\<lambda>(fs, _). Inr fs)"
| "manifest_do wk p fs (SetLogOffset offset) = set_log_offset wk p fs offset"
| "manifest_do wk p fs (SetSeqNumberOffset offset) = set_seq_number_offset wk p fs offset"
| "manifest_do wk p fs (UpdateTableSet add remove) = update_table_set p fs add remove"

type_synonym manifest_state = "database_metadata \<times> (nat \<Rightarrow> u64 set)"

primrec manifest_effect :: "manifest_op \<Rightarrow> manifest_state \<Rightarrow> manifest_state" where
  "manifest_effect NextDataBlockId s = (fst s\<lparr> next_data_block_id := next_data_block_id (fst s) + 1 \<rparr>, snd s)"
| "manifest_effect NextTableId s = (fst s\<lparr> next_table_id := next_table_id (fst s) + 1 \<rparr>, snd s)"
| "manifest_effect (SetLogOffset offset) s = (fst s\<lparr> log_offset := offset \<rparr>, snd s)"
| "manifest_effect (SetSeqNumberOffset offset) s = (fst s\<lparr> seq_number_offset := offset \<rparr>, snd s)"
| "manifest_effect (UpdateTableSet add remove) s = (fst s, \<lambda>i. snd s i \<union> ids_on add i - ids_on remove i)"

text \<open>What the callers see to: identifiers left, growing offsets, new tables to add and present ones to remove.\<close>

primrec manifest_allows :: "params \<Rightarrow> manifest_op \<Rightarrow> manifest_state \<Rightarrow> bool" where
  "manifest_allows p NextDataBlockId s \<longleftrightarrow> unat (next_data_block_id (fst s)) < 2 ^ 64 - 1"
| "manifest_allows p NextTableId s \<longleftrightarrow> unat (next_table_id (fst s)) < 2 ^ 64 - 1"
| "manifest_allows p (SetLogOffset offset) s \<longleftrightarrow> log_offset (fst s) < offset"
| "manifest_allows p (SetSeqNumberOffset offset) s \<longleftrightarrow> seq_number_offset (fst s) < offset"
| "manifest_allows p (UpdateTableSet add remove) s \<longleftrightarrow>
     distinct add \<and> distinct remove \<and>
     (\<forall>(l, tid) \<in> set add. unat l < num_levels p \<and> tid \<notin> snd s (unat l) \<and> tid \<noteq> 0) \<and>
     (\<forall>(l, tid) \<in> set remove. unat l < num_levels p \<and> (tid \<in> snd s (unat l) \<or> (l, tid) \<in> set add))"

primrec manifest_allows_all :: "params \<Rightarrow> manifest_op list \<Rightarrow> manifest_state \<Rightarrow> bool" where
  "manifest_allows_all p [] s \<longleftrightarrow> True"
| "manifest_allows_all p (op # ops) s \<longleftrightarrow> manifest_allows p op s \<and> manifest_allows_all p ops (manifest_effect op s)"

lemma manifest_do_ok:
  assumes "manifest_ok wk p fs (fst s) (snd s)" and "manifest_allows p op s"
  shows "\<exists>fs'. manifest_do wk p fs op = Inr fs' \<and>
     manifest_ok wk p fs' (fst (manifest_effect op s)) (snd (manifest_effect op s))"
proof (cases op)
  case NextDataBlockId
  then show ?thesis using generate_next_data_block_id_ok [OF assms(1)] assms(2) by simp
next
  case NextTableId
  then show ?thesis using generate_next_table_id_ok [OF assms(1)] assms(2) by simp
next
  case (SetLogOffset offset)
  then show ?thesis using set_log_offset_ok [OF assms(1), of offset] assms(2) by simp
next
  case (SetSeqNumberOffset offset)
  then show ?thesis using set_seq_number_offset_ok [OF assms(1), of offset] assms(2) by simp
next
  case (UpdateTableSet add remove)
  then show ?thesis using update_table_set_ok [OF assms(1), of add remove] assms(2) by auto
qed

lemma manifest_do_all_ok:
  assumes "manifest_ok wk p fs (fst s) (snd s)" and "manifest_allows_all p ops s"
  shows "\<exists>fs'. fold_result (manifest_do wk p) fs ops = Inr fs' \<and>
     manifest_ok wk p fs' (fst (fold manifest_effect ops s)) (snd (fold manifest_effect ops s))"
  using assms
proof (induction ops arbitrary: fs s)
  case (Cons op ops)
  obtain fs1 where "manifest_do wk p fs op = Inr fs1"
      "manifest_ok wk p fs1 (fst (manifest_effect op s)) (snd (manifest_effect op s))"
    using manifest_do_ok [OF Cons.prems(1)] Cons.prems(2) by auto
  then show ?case using Cons.IH [of fs1 "manifest_effect op s"] Cons.prems(2) by simp
qed auto

section \<open>Properties of the manifest\<close>

text \<open>C13: Updating the table set of a well-formed manifest, with new identifiers to add and present ones
  to remove, succeeds; afterwards every level lists, in ascending order, exactly its old tables with
  the additions and without the removals, whatever growth of the level files this takes, and all
  other files are untouched.\<close>

theorem update_table_set_correct:
  assumes "manifest_ok wk p fs m T" and "distinct add" and "distinct remove"
    and "\<forall>(l, tid) \<in> set add. unat l < num_levels p \<and> tid \<notin> T (unat l) \<and> tid \<noteq> 0"
    and "\<forall>(l, tid) \<in> set remove. unat l < num_levels p \<and> (tid \<in> T (unat l) \<or> (l, tid) \<in> set add)"
  shows "\<exists>fs'. update_table_set p fs add remove = Inr fs' \<and>
      get_table_ids p fs' =
        Inr (map (\<lambda>i. sorted_list_of_set (T i \<union> ids_on add i - ids_on remove i)) [0 ..< num_levels p]) \<and>
      manifest_meta wk p fs' = Inr m \<and>
      (\<forall>q. (\<forall>i. q \<noteq> level_path p i) \<longrightarrow> fs' q = fs q)"
  using update_table_set_ok [OF assms] get_table_ids_ok manifest_okD(2) by blast

definition small_params :: params where
  "small_params = default_params\<lparr> db_path := ''db'', num_levels := 2 \<rparr>"

theorem update_table_set_correct_witness:
  "\<exists>fs'. update_table_set small_params (manifest_new False small_params Map.empty)
           [(0, 7), (1, 5), (0, 3)] [(0, 7)] = Inr fs' \<and>
      get_table_ids small_params fs' = Inr [[3], [5]]"
proof -
  have "manifest_ok False small_params (manifest_new False small_params Map.empty)
      (metadata_new False small_params) (\<lambda>i. {})"
    by (rule manifest_new_ok) (simp add: small_params_def)
  from update_table_set_correct [OF this, of "[(0, 7), (1, 5), (0, 3)]" "[(0, 7)]"] show ?thesis
    by (auto simp: small_params_def upt_rec insert_Diff_if)
qed

text \<open>C?: A manifest opens again after any sequence of its operations: drawing identifiers, raising the offsets
  and updating the table sets, with tables added by one update and removed by a later one. Opening checks
  the number of levels and finds every level file, and the metadata and the tables of every level read
  back are those that the sequence as a whole leaves. The number of tables must fit into a word.\<close>

theorem manifest_reopens:
  assumes "num_levels p < 2 ^ 32" and "manifest_allows_all p ops (metadata_new wk p, \<lambda>i. {})"
    and "fold manifest_effect ops (metadata_new wk p, \<lambda>i. {}) = (m, T)" and "(\<Sum>i < num_levels p. card (T i)) < 2 ^ 64"
  shows "\<exists>fs'. fold_result (manifest_do wk p) (manifest_new wk p fs) ops = Inr fs' \<and>
      manifest_open wk p fs' = Inr () \<and> manifest_meta wk p fs' = Inr m \<and>
      get_table_ids p fs' = Inr (map (\<lambda>i. sorted_list_of_set (T i)) [0 ..< num_levels p])"
proof -
  obtain fs' where fs': "fold_result (manifest_do wk p) (manifest_new wk p fs) ops = Inr fs'" "manifest_ok wk p fs' m T"
    using manifest_do_all_ok [of wk p "manifest_new wk p fs" "(metadata_new wk p, \<lambda>i. {})" ops]
      manifest_new_ok [OF assms(1), of wk fs] assms(2,3) by auto
  then show ?thesis
    using manifest_open_ok [OF fs'(2) assms(4)] manifest_okD(2) [OF fs'(2)] get_table_ids_ok [OF fs'(2)] by blast
qed

text \<open>Table 7 is added to level 0, and moved to level 1 by a later update.\<close>

theorem manifest_reopens_witness:
  "\<exists>fs'. fold_result (manifest_do True small_params) (manifest_new True small_params Map.empty)
        [NextTableId, UpdateTableSet [(0, 7), (0, 3)] [], SetLogOffset 9, UpdateTableSet [(1, 7)] [(0, 7)]] = Inr fs' \<and>
      manifest_open True small_params fs' = Inr () \<and> get_table_ids small_params fs' = Inr [[3], [7]]"
proof -
  let ?ops = "[NextTableId, UpdateTableSet [(0, 7), (0, 3)] [], SetLogOffset 9, UpdateTableSet [(1, 7)] [(0, 7)]]"
  let ?m = "(metadata_new True small_params)\<lparr> next_table_id := 2, log_offset := 9 \<rparr>"
  let ?T = "\<lambda>i :: nat. if i = 0 then {3} else if i = 1 then {7} else {} :: u64 set"
  have all: "manifest_allows_all small_params ?ops (metadata_new True small_params, \<lambda>i. {})"
    by (simp add: small_params_def metadata_new_def)
  have eff: "fold manifest_effect ?ops (metadata_new True small_params, \<lambda>i. {}) = (?m, ?T)"
    by (auto simp: metadata_new_def fun_eq_iff)
  have n: "num_levels small_params = Suc (Suc 0)" by (simp add: small_params_def)
  have sum: "(\<Sum>i < num_levels small_params. card (?T i)) < 2 ^ 64" unfolding n by simp
  show ?thesis using manifest_reopens [OF _ all eff sum, of Map.empty] unfolding n by auto
qed

text \<open>C15: Setting the minimum page of the value index does not: it stores the page identifier as the
  minimum value batch and leaves the minimum page as it was.\<close>

theorem set_minimum_value_index_page_id_sets_batch:
  assumes "manifest_ok True p fs m T" and "md_value_log m = Some v" and "minimum_index_page v < page"
  shows "\<exists>fs'. set_minimum_value_index_page_id p fs page = Inr fs' \<and>
      get_minimum_value_index_page_id p fs' = Inr (minimum_index_page v) \<and>
      get_minimum_value_batch p fs' = Inr page"
proof -
  let ?m = "m\<lparr> md_value_log := Some (v\<lparr> minimum_batch := page \<rparr>) \<rparr>"
  have "manifest_ok True p (store_meta p fs ?m) ?m T"
    using store_meta_ok [OF assms(1), of ?m] assms(2) by simp
  from manifest_okD(2) [OF this] show ?thesis
    using manifest_okD(2) [OF assms(1)] assms(2,3)
    by (simp add: set_minimum_value_index_page_id_def get_minimum_value_index_page_id_def
        get_minimum_value_batch_def value_log_meta_def)
qed

theorem set_minimum_value_index_page_id_sets_batch_witness:
  "\<exists>fs'. set_minimum_value_index_page_id small_params (manifest_new True small_params Map.empty) 9 = Inr fs' \<and>
      get_minimum_value_index_page_id small_params fs' = Inr 1 \<and>
      get_minimum_value_batch small_params fs' = Inr 9"
proof -
  have "manifest_ok True small_params (manifest_new True small_params Map.empty)
      (metadata_new True small_params) (\<lambda>i. {})"
    by (rule manifest_new_ok) (simp add: small_params_def)
  from set_minimum_value_index_page_id_sets_batch [OF this, of _ 9] show ?thesis
    by (auto simp: metadata_new_def)
qed

end
