(* ===== verification/Lsm_DataBlock.thy ===== *)
theory Lsm_DataBlock
  imports Lsm_Iterator Lsm_Manifest
begin

text \<open>
  Data blocks (\<open>src/src/data_blocks/block.rs\<close>, \<open>builder.rs\<close> and \<open>mod.rs\<close>), without the \<open>wisckey\<close>
  feature: the byte layout with prefix-compressed keys and a restart list, the builder, the accessors
  of an entry, positional access and the search by key.

  The bloom filter of the \<open>bloomfilter\<close> crate is a parameter. The lemmas show that whatever the builder
  was given, the accessors read back, and that the search finds a key exactly when it was added.
\<close>

section \<open>The optional bloom filter\<close>

record 'bf bloom_api =
  bf_new :: 'bf
  bf_set :: "'bf \<Rightarrow> key \<Rightarrow> 'bf"
  bf_check :: "'bf \<Rightarrow> key \<Rightarrow> bool"
  bf_as_slice :: "'bf \<Rightarrow> bytes"
  bf_from_bytes :: "bytes \<Rightarrow> 'bf option"

datatype 'bf bloom_feature = NoBloom | WithBloom "'bf bloom_api"

definition BLOOM_LENGTH :: nat where "BLOOM_LENGTH = 1024"
definition BLOOM_HEADER_SIZE :: nat where "BLOOM_HEADER_SIZE = 1 + 8 + 4 + 32"

text \<open>
  What the code relies on: a filter never forgets a key that was set, and its serialised form has
  the length the header reserves for it and restores the filter.
\<close>

definition bloom_laws :: "'bf bloom_feature \<Rightarrow> bool" where
  "bloom_laws bl \<longleftrightarrow>
     (case bl of
        NoBloom \<Rightarrow> True
      | WithBloom api \<Rightarrow>
          (\<forall>f k. bf_check api (bf_set api f k) k) \<and>
          (\<forall>f k k'. bf_check api f k' \<longrightarrow> bf_check api (bf_set api f k) k') \<and>
          (\<forall>f. length (bf_as_slice api f) = BLOOM_LENGTH + BLOOM_HEADER_SIZE) \<and>
          (\<forall>f. bf_from_bytes api (bf_as_slice api f) = Some f))"

section \<open>Blocks and entries\<close>

record 'bf data_block =
  restart_list_start :: nat
  num_entries :: nat
  restart_interval :: nat
  block_data :: bytes
  bloom_filter :: "'bf option"

record 'bf data_entry =
  de_block :: "'bf data_block"
  de_offset :: nat
  de_next_offset :: nat

record entry_header =
  prefix_len :: u32
  suffix_len :: u32
  eh_entry_type :: u8
  eh_seq_number :: u64
  value_length :: u64

definition ENTRY_HEADER_SIZE :: nat where "ENTRY_HEADER_SIZE = 25"

definition entry_header_bytes :: "entry_header \<Rightarrow> bytes" where
  "entry_header_bytes h =
     u32_bytes (prefix_len h) @ u32_bytes (suffix_len h) @ [eh_entry_type h] @
     u64_bytes (eh_seq_number h) @ u64_bytes (value_length h)"

definition read_entry_header :: "bytes \<Rightarrow> entry_header" where
  "read_entry_header bs =
     \<lparr> prefix_len = u32_at bs 0, suffix_len = u32_at bs 4, eh_entry_type = bs ! 8,
       eh_seq_number = u64_at bs 9, value_length = u64_at bs 17 \<rparr>"

definition header_length :: "'bf bloom_feature \<Rightarrow> nat" where
  "header_length bl =
     4 + 4 + (case bl of NoBloom \<Rightarrow> 0 | WithBloom api \<Rightarrow> BLOOM_LENGTH + BLOOM_HEADER_SIZE)"

definition new_from_data :: "'bf bloom_feature \<Rightarrow> bytes \<Rightarrow> nat \<Rightarrow> 'bf data_block result" where
  "new_from_data bl data interval =
     bind_result (assert_that (data \<noteq> []) ''No data?'') (\<lambda>_.
     bind_result (slice data 0 (header_length bl)) (\<lambda>header.
     bind_result
       (case bl of
          NoBloom \<Rightarrow> Inr None
        | WithBloom api \<Rightarrow>
            bind_result (expect (bf_from_bytes api (drop 8 header)) ''Failed to load bloom filter'')
              (\<lambda>f. Inr (Some f))) (\<lambda>bloom.
     Inr \<lparr> restart_list_start = unat (u32_at header 0), num_entries = unat (u32_at header 4),
           restart_interval = interval, block_data = data, bloom_filter = bloom \<rparr>)))"

subsection \<open>Accessors of an entry\<close>

definition de_header :: "'bf data_entry \<Rightarrow> entry_header result" where
  "de_header e =
     bind_result (slice (block_data (de_block e)) (de_offset e) (de_offset e + ENTRY_HEADER_SIZE))
       (\<lambda>bs. Inr (read_entry_header bs))"

definition get_sequence_number :: "'bf data_entry \<Rightarrow> u64 result" where
  "get_sequence_number e = bind_result (de_header e) (\<lambda>h. Inr (eh_seq_number h))"

definition get_type :: "'bf data_entry \<Rightarrow> data_entry_type result" where
  "get_type e =
     bind_result (de_header e) (\<lambda>h.
     if eh_entry_type h = PUT_OP then Inr PutEntry
     else if eh_entry_type h = DELETE_OP then Inr DeleteEntry
     else Inl (Panic ''Unknown data entry type''))"

definition get_value :: "'bf data_entry \<Rightarrow> val option result" where
  "get_value e =
     bind_result (de_header e) (\<lambda>h.
     let value_offset = de_offset e + ENTRY_HEADER_SIZE + unat (suffix_len h) in
     if eh_entry_type h = PUT_OP
     then bind_result (slice (block_data (de_block e)) value_offset (value_offset + unat (value_length h)))
            (\<lambda>v. Inr (Some v))
     else if eh_entry_type h = DELETE_OP then Inr None
     else Inl (Panic ''Unknown write op''))"

subsection \<open>Positional access\<close>

definition get_entry_at_offset ::
    "'bf bloom_feature \<Rightarrow> 'bf data_block \<Rightarrow> nat \<Rightarrow> key \<Rightarrow> (key \<times> 'bf data_entry) result" where
  "get_entry_at_offset bl b offset0 previous_key =
     (let offset = offset0 + header_length bl in
      if offset + ENTRY_HEADER_SIZE > restart_list_start b then Inl (Panic ''Invalid offset'')
      else
        bind_result (slice (block_data b) offset (offset + ENTRY_HEADER_SIZE)) (\<lambda>bs.
        let header = read_entry_header bs;
            entry_offset = offset;
            offset = offset + ENTRY_HEADER_SIZE in
        bind_result (slice previous_key 0 (unat (prefix_len header))) (\<lambda>prefix.
        bind_result (slice (block_data b) offset (offset + unat (suffix_len header))) (\<lambda>suffix.
        let offset = offset + unat (suffix_len header);
            offset = offset + unat (value_length header);
            next_offset = offset - header_length bl in
        Inr (prefix @ suffix,
             \<lparr> de_block = b, de_offset = entry_offset, de_next_offset = as_u32 next_offset \<rparr>)))))"

definition byte_len :: "'bf bloom_feature \<Rightarrow> 'bf data_block \<Rightarrow> nat result" where
  "byte_len bl b =
     bind_result (checked_sub (length (block_data b)) (restart_list_start b)) (\<lambda>rl_len.
     bind_result (checked_sub (length (block_data b)) (header_length bl)) (\<lambda>n.
     bind_result (checked_sub n rl_len) (\<lambda>n. Inr (as_u32 n))))"

definition restart_list_len :: "'bf data_block \<Rightarrow> nat result" where
  "restart_list_len b =
     bind_result (checked_sub (length (block_data b)) (restart_list_start b)) (\<lambda>rl_len.
     bind_result (assert_that (rl_len mod 4 = 0) ''assertion failed: rl_len % offset_len == 0'') (\<lambda>_.
     Inr (rl_len div 4)))"

definition get_restart_offset :: "'bf bloom_feature \<Rightarrow> 'bf data_block \<Rightarrow> nat \<Rightarrow> nat result" where
  "get_restart_offset bl b pos0 =
     (let pos = restart_list_start b + pos0 * 4 in
      bind_result (slice (block_data b) pos (pos + 4)) (\<lambda>bs.
      checked_sub (unat (read_u32 bs)) (header_length bl)))"

text \<open>The loop of \<open>get_entry_at_index\<close> walks from the closest restart to the index.\<close>

primrec walk_entries ::
    "'bf bloom_feature \<Rightarrow> 'bf data_block \<Rightarrow> nat \<Rightarrow> key \<times> 'bf data_entry \<Rightarrow> (key \<times> 'bf data_entry) result" where
  "walk_entries bl b 0 cur = Inr cur"
| "walk_entries bl b (Suc n) cur =
     bind_result (get_entry_at_offset bl b (de_next_offset (snd cur)) (fst cur)) (walk_entries bl b n)"

definition get_entry_at_index ::
    "'bf bloom_feature \<Rightarrow> 'bf data_block \<Rightarrow> nat \<Rightarrow> (key \<times> 'bf data_entry) result" where
  "get_entry_at_index bl b idx =
     (if restart_interval b = 0 then Inl (Panic ''attempt to divide by zero'')
      else
        let restart_pos = idx div restart_interval b in
        bind_result (get_restart_offset bl b restart_pos) (\<lambda>restart_offset.
        bind_result (get_entry_at_offset bl b restart_offset []) (\<lambda>cur.
        walk_entries bl b (idx - restart_pos * restart_interval b) cur)))"

subsection \<open>Search by key\<close>

datatype 'bf search_result = ExactMatch "'bf data_entry" | Range nat nat

function block_search_loop ::
    "'bf bloom_feature \<Rightarrow> 'bf data_block \<Rightarrow> key \<Rightarrow> nat \<Rightarrow> nat \<Rightarrow> ('bf data_entry + nat \<times> nat) result" where
  "block_search_loop bl b k start end =
     (if end - start > 1
      then
        let mid = start + (end - start) div 2 in
        case get_restart_offset bl b mid of
          Inl e \<Rightarrow> Inl e
        | Inr offset \<Rightarrow>
           (case get_entry_at_offset bl b offset [] of
              Inl e \<Rightarrow> Inl e
            | Inr (this_key, entry) \<Rightarrow>
                if this_key = k then Inr (Inl entry)
                else if this_key < k then block_search_loop bl b k mid end
                else block_search_loop bl b k start mid)
      else Inr (Inr (start, end)))"
  by pat_completeness auto
termination
  by (relation "measure (\<lambda>(bl, b, k, start, end). end - start)") auto

declare block_search_loop.simps [simp del]

definition block_binary_search ::
    "'bf bloom_feature \<Rightarrow> 'bf data_block \<Rightarrow> key \<Rightarrow> 'bf search_result result" where
  "block_binary_search bl b k =
     bind_result (restart_list_len b) (\<lambda>rl_len.
     bind_result (checked_sub (as_u32 rl_len) 1) (\<lambda>end0.
     bind_result (block_search_loop bl b k 0 end0) (\<lambda>r.
     case r of
       Inl entry \<Rightarrow> Inr (ExactMatch entry)
     | Inr (start, end) \<Rightarrow>
         bind_result
           (if end + 1 = as_u32 rl_len then byte_len bl b else get_restart_offset bl b end)
           (\<lambda>end. Inr (Range start end)))))"

partial_function (option) block_scan ::
    "'bf bloom_feature \<Rightarrow> 'bf data_block \<Rightarrow> key \<Rightarrow> nat \<Rightarrow> nat \<Rightarrow> key \<Rightarrow> 'bf data_entry option run" where
  "block_scan bl b k end pos last_key =
     (if pos < end
      then bind_run (Some (get_entry_at_offset bl b pos last_key)) (\<lambda>r. case r of (this_key, entry) \<Rightarrow>
             if k = this_key then Some (Inr (Some entry))
             else block_scan bl b k end (de_next_offset entry) this_key)
      else Some (Inr None))"

definition get_by_key ::
    "'bf bloom_feature \<Rightarrow> 'bf data_block \<Rightarrow> key \<Rightarrow> 'bf data_entry option run" where
  "get_by_key bl b k =
     (if (case bl of NoBloom \<Rightarrow> False
          | WithBloom api \<Rightarrow> (case bloom_filter b of None \<Rightarrow> False | Some f \<Rightarrow> \<not> bf_check api f k))
      then Some (Inr None)
      else
        bind_run (Some (block_binary_search bl b k)) (\<lambda>r.
        case r of
          ExactMatch entry \<Rightarrow> Some (Inr (Some entry))
        | Range start end \<Rightarrow>
            bind_run (Some (get_restart_offset bl b start)) (\<lambda>pos.
            block_scan bl b k end pos [])))"

section \<open>The builder\<close>

record prefixed_key =
  pk_prefix_len :: u32
  pk_suffix :: bytes

definition prefixed_key_new :: "nat \<Rightarrow> bytes \<Rightarrow> prefixed_key" where
  "prefixed_key_new n suffix = \<lparr> pk_prefix_len = of_nat n, pk_suffix = suffix \<rparr>"

record 'bf data_block_builder =
  bb_data :: bytes
  bb_position :: nat
  bb_restart_list :: "nat list"
  bb_bloom_filter :: "'bf option"

definition block_builder_new :: "'bf bloom_feature \<Rightarrow> 'bf data_block_builder" where
  "block_builder_new bl =
     \<lparr> bb_data = replicate (header_length bl) 0, bb_position = 0, bb_restart_list = [],
       bb_bloom_filter = (case bl of NoBloom \<Rightarrow> None | WithBloom api \<Rightarrow> Some (bf_new api)) \<rparr>"

definition block_add_entry ::
    "'bf bloom_feature \<Rightarrow> params \<Rightarrow> 'bf data_block_builder \<Rightarrow> prefixed_key \<Rightarrow> key \<Rightarrow> u64 \<Rightarrow> u8 \<Rightarrow> bytes
     \<Rightarrow> 'bf data_block_builder result" where
  "block_add_entry bl p bb pk full_key seq ty entry_data =
     (if block_restart_interval p = 0
      then Inl (Panic ''attempt to calculate the remainder with a divisor of zero'')
      else
        bind_result
          (if bb_position bb mod block_restart_interval p = 0
           then bind_result (assert_that (pk_prefix_len pk = 0) ''assertion failed: key.prefix_len == 0'') (\<lambda>_.
                Inr (bb\<lparr> bb_restart_list := bb_restart_list bb @ [as_u32 (length (bb_data bb))] \<rparr>))
           else Inr bb) (\<lambda>bb.
        let header = \<lparr> prefix_len = pk_prefix_len pk, suffix_len = of_nat (length (pk_suffix pk)),
                       eh_entry_type = ty, eh_seq_number = seq,
                       value_length = of_nat (length entry_data) \<rparr>
        in Inr (bb\<lparr> bb_data := bb_data bb @ entry_header_bytes header @ pk_suffix pk @ entry_data,
                    bb_position := bb_position bb + 1,
                    bb_bloom_filter :=
                      (case bl of
                         NoBloom \<Rightarrow> bb_bloom_filter bb
                       | WithBloom api \<Rightarrow> map_option (\<lambda>f. bf_set api f full_key) (bb_bloom_filter bb)) \<rparr>)))"

text \<open>
  \<open>finish\<close> without the parts that draw the identifier and store the block: the header is written in
  front and the restart list behind the entries.
\<close>

definition block_finish_data :: "'bf bloom_feature \<Rightarrow> params \<Rightarrow> 'bf data_block_builder \<Rightarrow> 'bf data_block" where
  "block_finish_data bl p bb =
     (let header =
            u32_bytes (of_nat (length (bb_data bb))) @ u32_bytes (of_nat (bb_position bb)) @
            (case bl of
               NoBloom \<Rightarrow> []
             | WithBloom api \<Rightarrow> (case bb_bloom_filter bb of None \<Rightarrow> [] | Some f \<Rightarrow> bf_as_slice api f));
          data = header @ drop (header_length bl) (bb_data bb);
          data = data @ concat (map (\<lambda>off. u32_bytes (of_nat off)) (bb_restart_list bb))
      in \<lparr> restart_list_start = as_u32 (length (bb_data bb)), num_entries = bb_position bb,
           restart_interval = block_restart_interval p, block_data = data,
           bloom_filter = bb_bloom_filter bb \<rparr>)"

section \<open>The layout of a block\<close>

text \<open>
  The bytes of one entry whose first \<open>n\<close> key bytes are shared with its predecessor, of a sequence of
  entries, and the offset of the entry with index \<open>i\<close>.
\<close>

primrec entry_op :: "memtable_entry \<Rightarrow> u8" where
  "entry_op (Value s v) = PUT_OP"
| "entry_op (Deletion s) = DELETE_OP"

primrec entry_data_bytes :: "memtable_entry \<Rightarrow> bytes" where
  "entry_data_bytes (Value s v) = v"
| "entry_data_bytes (Deletion s) = []"

definition entry_head :: "nat \<Rightarrow> key \<times> memtable_entry \<Rightarrow> entry_header" where
  "entry_head n x =
     \<lparr> prefix_len = of_nat n, suffix_len = of_nat (length (fst x) - n), eh_entry_type = entry_op (snd x),
       eh_seq_number = entry_seq_number (snd x), value_length = of_nat (length (entry_data_bytes (snd x))) \<rparr>"

definition entry_bytes :: "nat \<Rightarrow> key \<times> memtable_entry \<Rightarrow> bytes" where
  "entry_bytes n x = entry_header_bytes (entry_head n x) @ drop n (fst x) @ entry_data_bytes (snd x)"

definition entries_bytes :: "nat list \<Rightarrow> (key \<times> memtable_entry) list \<Rightarrow> bytes" where
  "entries_bytes ps es = concat (map2 entry_bytes ps es)"

definition entry_off :: "nat list \<Rightarrow> (key \<times> memtable_entry) list \<Rightarrow> nat \<Rightarrow> nat" where
  "entry_off ps es i = length (entries_bytes (take i ps) (take i es))"

text \<open>
  The prefix lengths of a block: every entry shares its prefix with the key before it, and the entries
  at restarts share nothing.
\<close>

definition prefixes_ok :: "nat \<Rightarrow> nat list \<Rightarrow> key list \<Rightarrow> bool" where
  "prefixes_ok interval ps ks \<longleftrightarrow>
     length ps = length ks \<and>
     (\<forall>i < length ks.
        (i mod interval = 0 \<longrightarrow> ps ! i = 0) \<and> ps ! i \<le> length (ks ! i) \<and>
        (0 < i \<longrightarrow> ps ! i \<le> length (ks ! (i - 1)) \<and> take (ps ! i) (ks ! (i - 1)) = take (ps ! i) (ks ! i)))"

definition num_restarts :: "nat \<Rightarrow> nat \<Rightarrow> nat" where
  "num_restarts interval n = (n + interval - 1) div interval"

definition restart_offsets :: "nat \<Rightarrow> nat \<Rightarrow> nat list \<Rightarrow> (key \<times> memtable_entry) list \<Rightarrow> nat list" where
  "restart_offsets hl interval ps es =
     map (\<lambda>j. hl + entry_off ps es (j * interval)) [0 ..< num_restarts interval (length es)]"

definition bloom_covers :: "'bf bloom_feature \<Rightarrow> 'bf option \<Rightarrow> key set \<Rightarrow> bool" where
  "bloom_covers bl f ks \<longleftrightarrow>
     (case bl of
        NoBloom \<Rightarrow> f = None
      | WithBloom api \<Rightarrow> (\<exists>f'. f = Some f' \<and> (\<forall>k \<in> ks. bf_check api f' k)))"

definition block_layout ::
    "'bf bloom_feature \<Rightarrow> 'bf data_block \<Rightarrow> nat list \<Rightarrow> (key \<times> memtable_entry) list \<Rightarrow> bool" where
  "block_layout bl b ps es \<longleftrightarrow>
     0 < restart_interval b \<and> es \<noteq> [] \<and> prefixes_ok (restart_interval b) ps (map fst es) \<and>
     (\<forall>k \<in> set (map fst es). length k < 2 ^ 32) \<and>
     num_entries b = length es \<and>
     restart_list_start b = header_length bl + length (entries_bytes ps es) \<and>
     (\<exists>hdr. length hdr = header_length bl \<and>
        block_data b = hdr @ entries_bytes ps es @
          concat (map (\<lambda>off. u32_bytes (of_nat off))
                    (restart_offsets (header_length bl) (restart_interval b) ps es))) \<and>
     length (block_data b) < 2 ^ 32 \<and> bloom_covers bl (bloom_filter b) (set (map fst es))"

text \<open>A block holds a list of entries, whatever the prefix lengths.\<close>

definition block_holds :: "'bf bloom_feature \<Rightarrow> 'bf data_block \<Rightarrow> (key \<times> memtable_entry) list \<Rightarrow> bool" where
  "block_holds bl b es \<longleftrightarrow> (\<exists>ps. block_layout bl b ps es)"

lemma length_entry_header_bytes [simp, codec_simps]: "length (entry_header_bytes h) = ENTRY_HEADER_SIZE"
  by (simp add: entry_header_bytes_def ENTRY_HEADER_SIZE_def)

lemma read_entry_header_bytes [simp, codec_simps]: "read_entry_header (entry_header_bytes h) = h"
  by (simp add: read_entry_header_def entry_header_bytes_def codec_simps nth_append)

lemma length_entry_bytes:
  "length (entry_bytes n x) = ENTRY_HEADER_SIZE + (length (fst x) - n) + length (entry_data_bytes (snd x))"
  by (simp add: entry_bytes_def)

lemma entries_bytes_split:
  assumes "length ps = length es" and "i < length es"
  shows "entries_bytes ps es =
    entries_bytes (take i ps) (take i es) @ entry_bytes (ps ! i) (es ! i) @
    entries_bytes (drop (Suc i) ps) (drop (Suc i) es)"
proof -
  have "ps = take i ps @ ps ! i # drop (Suc i) ps" "es = take i es @ es ! i # drop (Suc i) es"
    using assms by (auto intro: id_take_nth_drop)
  then have "zip ps es = zip (take i ps) (take i es) @ (ps ! i, es ! i) # zip (drop (Suc i) ps) (drop (Suc i) es)"
    using assms by (metis (no_types, lifting) length_take zip_Cons_Cons zip_append)
  then show ?thesis by (simp add: entries_bytes_def)
qed

lemma entry_off_Suc:
  assumes "length ps = length es" and "i < length es"
  shows "entry_off ps es (Suc i) = entry_off ps es i + length (entry_bytes (ps ! i) (es ! i))"
proof -
  have "zip (take (Suc i) ps) (take (Suc i) es) = zip (take i ps) (take i es) @ [(ps ! i, es ! i)]"
    using assms by (simp add: take_Suc_conv_app_nth)
  then show ?thesis by (simp add: entry_off_def entries_bytes_def)
qed

lemma entry_off_0 [simp]: "entry_off ps es 0 = 0"
  by (simp add: entry_off_def entries_bytes_def)

lemma entry_off_length [simp]:
  "length ps = length es \<Longrightarrow> entry_off ps es (length es) = length (entries_bytes ps es)"
  by (simp add: entry_off_def)

lemma entry_off_mono:
  assumes "length ps = length es" and "i < j" and "j \<le> length es"
  shows "entry_off ps es i < entry_off ps es j"
  using assms(2,3)
proof (induction j)
  case (Suc j)
  have "entry_off ps es j < entry_off ps es (Suc j)"
    using Suc.prems entry_off_Suc [OF assms(1), of j] by (simp add: length_entry_bytes ENTRY_HEADER_SIZE_def)
  then show ?case using Suc by (cases "i = j") auto
qed simp

lemma entry_off_less_iff:
  assumes "length ps = length es" and "i \<le> length es" and "j \<le> length es"
  shows "entry_off ps es i < entry_off ps es j \<longleftrightarrow> i < j"
  using entry_off_mono [OF assms(1), of i j] entry_off_mono [OF assms(1), of j i] assms(2,3)
  by (cases i j rule: linorder_cases) auto

lemma entry_off_inj:
  assumes "length ps = length es" and "i \<le> length es" and "j \<le> length es"
  shows "entry_off ps es i = entry_off ps es j \<longleftrightarrow> i = j"
  using entry_off_less_iff [OF assms] entry_off_less_iff [OF assms(1,3,2)] by auto

lemma block_layoutD:
  assumes "block_layout bl b ps es"
  shows "0 < restart_interval b" "es \<noteq> []" "length ps = length es" "num_entries b = length es"
    "restart_list_start b = header_length bl + length (entries_bytes ps es)"
    "length (block_data b) < 2 ^ 32" "prefixes_ok (restart_interval b) ps (map fst es)"
    "\<And>i. i < length es \<Longrightarrow> length (fst (es ! i)) < 2 ^ 32"
    "bloom_covers bl (bloom_filter b) (set (map fst es))"
  using assms by (auto simp: block_layout_def prefixes_ok_def)

text \<open>The data entry with index \<open>i\<close>.\<close>

definition entry_at ::
    "'bf bloom_feature \<Rightarrow> 'bf data_block \<Rightarrow> nat list \<Rightarrow> (key \<times> memtable_entry) list \<Rightarrow> nat \<Rightarrow> 'bf data_entry" where
  "entry_at bl b ps es i =
     \<lparr> de_block = b, de_offset = header_length bl + entry_off ps es i,
       de_next_offset = entry_off ps es (Suc i) \<rparr>"

lemma block_data_at:
  assumes "block_layout bl b ps es" and "i < length es"
  obtains xs ys where "block_data b = xs @ entry_bytes (ps ! i) (es ! i) @ ys"
    "length xs = header_length bl + entry_off ps es i"
proof -
  obtain hdr tl where "length hdr = header_length bl" "block_data b = hdr @ entries_bytes ps es @ tl"
    using assms(1) by (auto simp: block_layout_def)
  then show thesis
    using that [of "hdr @ entries_bytes (take i ps) (take i es)"]
      entries_bytes_split [OF block_layoutD(3) [OF assms(1)] assms(2)]
    by (simp add: entry_off_def)
qed

lemma entry_off_bound:
  assumes "block_layout bl b ps es" and "i \<le> length es"
  shows "entry_off ps es i \<le> length (entries_bytes ps es)"
    "header_length bl + length (entries_bytes ps es) \<le> length (block_data b)"
    "entry_off ps es i < 2 ^ 32"
proof -
  note len = block_layoutD(3) [OF assms(1)]
  show le: "entry_off ps es i \<le> length (entries_bytes ps es)"
    using entry_off_mono [OF len, of i "length es"] entry_off_length [OF len] assms(2)
    by (cases "i = length es") auto
  show "header_length bl + length (entries_bytes ps es) \<le> length (block_data b)"
    using assms(1) by (auto simp: block_layout_def)
  then show "entry_off ps es i < 2 ^ 32" using le block_layoutD(6) [OF assms(1)] by simp
qed

text \<open>The entry at the offset of index \<open>i\<close> is read back, given the key before it.\<close>

lemma entry_head_small:
  assumes "block_layout bl b ps es" and "i < length es"
  shows "unat (prefix_len (entry_head (ps ! i) (es ! i))) = ps ! i"
    "unat (suffix_len (entry_head (ps ! i) (es ! i))) = length (fst (es ! i)) - ps ! i"
    "unat (value_length (entry_head (ps ! i) (es ! i))) = length (entry_data_bytes (snd (es ! i)))"
    "ps ! i \<le> length (fst (es ! i))"
proof -
  show p: "ps ! i \<le> length (fst (es ! i))"
    using block_layoutD(7) [OF assms(1)] assms(2) by (simp add: prefixes_ok_def)
  have k: "length (fst (es ! i)) < 2 ^ 32" using block_layoutD(8) [OF assms] .
  have "length (entry_bytes (ps ! i) (es ! i)) \<le> length (block_data b)"
    using block_data_at [OF assms] by (metis le_add1 le_add2 length_append order.trans)
  then have "length (entry_data_bytes (snd (es ! i))) < 2 ^ 32"
    using block_layoutD(6) [OF assms(1)] by (simp add: length_entry_bytes)
  then show "unat (value_length (entry_head (ps ! i) (es ! i))) = length (entry_data_bytes (snd (es ! i)))"
    by (simp add: entry_head_def)
  show "unat (prefix_len (entry_head (ps ! i) (es ! i))) = ps ! i"
    using p k by (simp add: entry_head_def)
  have "unat (of_nat (length (fst (es ! i)) - ps ! i) :: u32) = length (fst (es ! i)) - ps ! i"
    using k by (intro unat_of_nat_u32) simp
  then show "unat (suffix_len (entry_head (ps ! i) (es ! i))) = length (fst (es ! i)) - ps ! i"
    unfolding entry_head_def entry_header.select_convs .
qed

lemma get_entry_at_offset_ok:
  assumes lay: "block_layout bl b ps es" and i: "i < length es"
    and prev: "ps ! i \<le> length prev" "take (ps ! i) prev = take (ps ! i) (fst (es ! i))"
  shows "get_entry_at_offset bl b (entry_off ps es i) prev = Inr (fst (es ! i), entry_at bl b ps es i)"
proof -
  obtain xs ys where data: "block_data b = xs @ entry_bytes (ps ! i) (es ! i) @ ys"
    and xs: "length xs = header_length bl + entry_off ps es i"
    using block_data_at [OF lay i] .
  note small = entry_head_small [OF lay i]
  note len = block_layoutD(3) [OF lay]
  have nxt: "entry_off ps es (Suc i) = entry_off ps es i + length (entry_bytes (ps ! i) (es ! i))"
    by (rule entry_off_Suc [OF len i])
  have "entry_off ps es (Suc i) \<le> length (entries_bytes ps es)" "entry_off ps es (Suc i) < 2 ^ 32"
    using entry_off_bound [OF lay, of "Suc i"] i by auto
  then have fits: "entry_off ps es i + header_length bl + ENTRY_HEADER_SIZE \<le> restart_list_start b"
    and small_off: "as_u32 (entry_off ps es i + length (entry_bytes (ps ! i) (es ! i))) = entry_off ps es (Suc i)"
    using block_layoutD(5) [OF lay] nxt by (simp_all add: length_entry_bytes)
  have hdr: "slice (block_data b) (length xs) (length xs + ENTRY_HEADER_SIZE) =
      Inr (entry_header_bytes (entry_head (ps ! i) (es ! i)))"
    unfolding data by (simp add: slice_def entry_bytes_def)
  have suf: "slice (block_data b) (length xs + ENTRY_HEADER_SIZE)
        (length xs + ENTRY_HEADER_SIZE + (length (fst (es ! i)) - ps ! i)) = Inr (drop (ps ! i) (fst (es ! i)))"
    unfolding data by (simp add: slice_def entry_bytes_def)
  have off: "entry_off ps es i + header_length bl = length xs" using xs by simp
  have end_off: "length xs + ENTRY_HEADER_SIZE + (length (fst (es ! i)) - ps ! i) +
      length (entry_data_bytes (snd (es ! i))) - header_length bl =
      entry_off ps es i + length (entry_bytes (ps ! i) (es ! i))"
    using xs by (simp add: length_entry_bytes)
  have "\<not> length xs + ENTRY_HEADER_SIZE > restart_list_start b" using fits off by simp
  then show ?thesis
    unfolding get_entry_at_offset_def Let_def off entry_at_def
    by (simp only: if_False hdr bind_result_Inr read_entry_header_bytes small slice_ok [OF le0 prev(1)] suf
        end_off small_off prev(2) drop_0 diff_zero) (simp add: xs prev(2))
qed

text \<open>The accessors of the entry with index \<open>i\<close> return what was stored.\<close>

lemma de_header_ok:
  assumes "block_layout bl b ps es" and "i < length es"
  shows "de_header (entry_at bl b ps es i) = Inr (entry_head (ps ! i) (es ! i))"
proof -
  obtain xs ys where data: "block_data b = xs @ entry_bytes (ps ! i) (es ! i) @ ys"
    and xs: "length xs = header_length bl + entry_off ps es i"
    using block_data_at [OF assms] .
  have "slice (block_data b) (length xs) (length xs + ENTRY_HEADER_SIZE) =
      Inr (entry_header_bytes (entry_head (ps ! i) (es ! i)))"
    unfolding data by (simp add: slice_def entry_bytes_def)
  then show ?thesis by (simp add: de_header_def entry_at_def xs)
qed

lemma put_op_neq_delete_op [simp]: "DELETE_OP \<noteq> PUT_OP" "PUT_OP \<noteq> DELETE_OP"
  by (simp_all add: PUT_OP_def DELETE_OP_def)

lemma entry_accessors_ok:
  assumes "block_layout bl b ps es" and "i < length es"
  shows "get_sequence_number (entry_at bl b ps es i) = Inr (entry_seq_number (snd (es ! i)))"
    "get_type (entry_at bl b ps es i) = Inr (entry_type_of (snd (es ! i)))"
    "get_value (entry_at bl b ps es i) = Inr (entry_value (snd (es ! i)))"
proof -
  note hdr = de_header_ok [OF assms]
  show "get_sequence_number (entry_at bl b ps es i) = Inr (entry_seq_number (snd (es ! i)))"
    by (simp add: get_sequence_number_def hdr entry_head_def)
  show "get_type (entry_at bl b ps es i) = Inr (entry_type_of (snd (es ! i)))"
    by (cases "snd (es ! i)") (simp_all add: get_type_def hdr entry_head_def)
  obtain xs ys where data: "block_data b = xs @ entry_bytes (ps ! i) (es ! i) @ ys"
    and xs: "length xs = header_length bl + entry_off ps es i"
    using block_data_at [OF assms] .
  note small = entry_head_small [OF assms]
  define vo where "vo = length xs + ENTRY_HEADER_SIZE + (length (fst (es ! i)) - ps ! i)"
  have val: "slice (block_data b) vo (vo + length (entry_data_bytes (snd (es ! i)))) =
      Inr (entry_data_bytes (snd (es ! i)))"
    unfolding data vo_def by (simp add: slice_def entry_bytes_def)
  have de: "de_offset (entry_at bl b ps es i) + ENTRY_HEADER_SIZE + (length (fst (es ! i)) - ps ! i) = vo"
      "de_block (entry_at bl b ps es i) = b"
    by (simp_all add: entry_at_def vo_def xs)
  show "get_value (entry_at bl b ps es i) = Inr (entry_value (snd (es ! i)))"
  proof (cases "snd (es ! i)")
    case (Value s v)
    then have ty: "eh_entry_type (entry_head (ps ! i) (es ! i)) = PUT_OP" by (simp add: entry_head_def)
    show ?thesis
      unfolding get_value_def hdr bind_result_Inr Let_def small de val
      using Value ty by simp
  next
    case (Deletion s)
    then have ty: "eh_entry_type (entry_head (ps ! i) (es ! i)) = DELETE_OP" by (simp add: entry_head_def)
    show ?thesis
      unfolding get_value_def hdr bind_result_Inr Let_def using Deletion ty by simp
  qed
qed

subsection \<open>The restart list\<close>

lemma concat_u32_nth:
  assumes "j < length xs"
  shows "take 4 (drop (4 * j) (concat (map (\<lambda>off. u32_bytes (of_nat off)) xs))) = u32_bytes (of_nat (xs ! j))"
  using assms
proof (induction xs arbitrary: j)
  case (Cons x xs)
  then show ?case by (cases j) (simp_all add: add.commute)
qed simp

lemma length_concat_u32: "length (concat (map (\<lambda>off. u32_bytes (of_nat off)) xs)) = 4 * length xs"
  by (induction xs) simp_all

lemma num_restarts_pos: "0 < interval \<Longrightarrow> 0 < n \<Longrightarrow> 0 < num_restarts interval n"
  by (simp add: num_restarts_def div_greater_zero_iff)

lemma num_restarts_less: "0 < interval \<Longrightarrow> j < num_restarts interval n \<longleftrightarrow> j * interval < n"
proof -
  assume pos: "0 < interval"
  have "j < num_restarts interval n \<longleftrightarrow> Suc j * interval \<le> n + interval - 1"
    using pos by (simp add: num_restarts_def Suc_le_eq [symmetric] less_eq_div_iff_mult_less_eq)
  also have "\<dots> \<longleftrightarrow> j * interval < n" using pos by auto
  finally show ?thesis .
qed

lemma block_tail:
  assumes "block_layout bl b ps es"
  defines "rs \<equiv> restart_offsets (header_length bl) (restart_interval b) ps es"
  shows "drop (restart_list_start b) (block_data b) = concat (map (\<lambda>off. u32_bytes (of_nat off)) rs)"
    "length (block_data b) = restart_list_start b + 4 * length rs"
    "length rs = num_restarts (restart_interval b) (length es)"
proof -
  obtain hdr where "length hdr = header_length bl"
      "block_data b = hdr @ entries_bytes ps es @ concat (map (\<lambda>off. u32_bytes (of_nat off)) rs)"
    using assms(1) by (auto simp: block_layout_def rs_def)
  then show "drop (restart_list_start b) (block_data b) = concat (map (\<lambda>off. u32_bytes (of_nat off)) rs)"
    "length (block_data b) = restart_list_start b + 4 * length rs"
    using block_layoutD(5) [OF assms(1)] by (simp_all add: length_concat_u32)
  show "length rs = num_restarts (restart_interval b) (length es)"
    by (simp add: rs_def restart_offsets_def)
qed

lemma restart_list_len_ok:
  assumes "block_layout bl b ps es"
  shows "restart_list_len b = Inr (num_restarts (restart_interval b) (length es))"
  using block_tail(2,3) [OF assms] by (simp add: restart_list_len_def)

lemma byte_len_ok:
  assumes "block_layout bl b ps es"
  shows "byte_len bl b = Inr (length (entries_bytes ps es))"
proof -
  have "length (entries_bytes ps es) < 2 ^ 32"
    using entry_off_bound(3) [OF assms order_refl] block_layoutD(3) [OF assms] by simp
  then show ?thesis
    using block_tail(2) [OF assms] block_layoutD(5) [OF assms] by (simp add: byte_len_def)
qed

lemma get_restart_offset_ok:
  assumes lay: "block_layout bl b ps es" and j: "j < num_restarts (restart_interval b) (length es)"
  shows "get_restart_offset bl b j = Inr (entry_off ps es (j * restart_interval b))"
proof -
  define rs where "rs = restart_offsets (header_length bl) (restart_interval b) ps es"
  note tail = block_tail [OF lay, folded rs_def]
  have nth: "rs ! j = header_length bl + entry_off ps es (j * restart_interval b)"
    using j by (simp add: rs_def restart_offsets_def)
  have "j * restart_interval b < length es"
    using j num_restarts_less [OF block_layoutD(1) [OF lay]] by simp
  then have "rs ! j < 2 ^ 32"
    using entry_off_bound [OF lay, of "j * restart_interval b"] block_layoutD(6) [OF lay] nth by simp
  moreover have "drop (restart_list_start b + j * 4) (block_data b) =
      drop (4 * j) (concat (map (\<lambda>off. u32_bytes (of_nat off)) rs))"
    using tail(1) by (metis add.commute drop_drop mult.commute)
  then have "slice (block_data b) (restart_list_start b + j * 4) (restart_list_start b + j * 4 + 4) =
      Inr (u32_bytes (of_nat (rs ! j)))"
    using concat_u32_nth [of j rs] tail(2,3) j by simp
  ultimately have "get_restart_offset bl b j = checked_sub (rs ! j) (header_length bl)"
    by (simp add: get_restart_offset_def)
  then show ?thesis using nth by simp
qed

text \<open>A restart entry is read without a previous key, any other entry with the key before it.\<close>

lemma get_restart_entry_ok:
  assumes lay: "block_layout bl b ps es" and i: "i < length es" "i mod restart_interval b = 0"
  shows "get_entry_at_offset bl b (entry_off ps es i) prev = Inr (fst (es ! i), entry_at bl b ps es i)"
proof (rule get_entry_at_offset_ok [OF lay i(1)])
  have "ps ! i = 0" using block_layoutD(7) [OF lay] i by (simp add: prefixes_ok_def)
  then show "ps ! i \<le> length prev" "take (ps ! i) prev = take (ps ! i) (fst (es ! i))" by simp_all
qed

lemma get_next_entry_ok:
  assumes lay: "block_layout bl b ps es" and i: "Suc i < length es"
  shows "get_entry_at_offset bl b (entry_off ps es (Suc i)) (fst (es ! i)) =
         Inr (fst (es ! Suc i), entry_at bl b ps es (Suc i))"
proof (rule get_entry_at_offset_ok [OF lay i])
  have "\<forall>i < length es. 0 < i \<longrightarrow>
      ps ! i \<le> length (fst (es ! (i - 1))) \<and> take (ps ! i) (fst (es ! (i - 1))) = take (ps ! i) (fst (es ! i))"
    using block_layoutD(7) [OF lay] by (simp add: prefixes_ok_def)
  from this [rule_format, OF i] show "ps ! Suc i \<le> length (fst (es ! i))"
    "take (ps ! Suc i) (fst (es ! i)) = take (ps ! Suc i) (fst (es ! Suc i))" by simp_all
qed

lemma walk_entries_ok:
  assumes "block_layout bl b ps es" and "i + n < length es"
  shows "walk_entries bl b n (fst (es ! i), entry_at bl b ps es i) =
         Inr (fst (es ! (i + n)), entry_at bl b ps es (i + n))"
  using assms(2)
proof (induction n arbitrary: i)
  case 0
  then show ?case by simp
next
  case (Suc n)
  have "get_entry_at_offset bl b (entry_off ps es (Suc i)) (fst (es ! i)) =
      Inr (fst (es ! Suc i), entry_at bl b ps es (Suc i))"
    using Suc.prems by (intro get_next_entry_ok [OF assms(1)]) simp
  then show ?case using Suc.IH [of "Suc i"] Suc.prems by (simp add: entry_at_def)
qed

lemma get_entry_at_index_ok:
  assumes lay: "block_layout bl b ps es" and i: "i < length es"
  shows "get_entry_at_index bl b i = Inr (fst (es ! i), entry_at bl b ps es i)"
proof -
  let ?n = "restart_interval b" and ?r = "i div restart_interval b * restart_interval b"
  have pos: "0 < ?n" by (rule block_layoutD(1) [OF lay])
  have r: "?r \<le> i" "?r + (i - ?r) = i" "?r < length es" using i by (auto intro: le_less_trans [OF _ i])
  then have "i div ?n < num_restarts ?n (length es)" using num_restarts_less [OF pos] by simp
  note off = get_restart_offset_ok [OF lay this]
  have "get_entry_at_offset bl b (entry_off ps es ?r) [] = Inr (fst (es ! ?r), entry_at bl b ps es ?r)"
    by (rule get_restart_entry_ok [OF lay r(3)]) simp
  then show ?thesis
    using pos off walk_entries_ok [OF lay, of ?r "i - ?r"] r i by (simp add: get_entry_at_index_def Let_def)
qed

subsection \<open>The search\<close>

text \<open>
  The loop narrows the restarts between which the key can lie: the key is not smaller than the key
  at \<open>start\<close> (or \<open>start\<close> is the first restart) and smaller than the key at \<open>end\<close> (or \<open>end\<close> is the
  last restart).
\<close>

definition search_range ::
    "nat \<Rightarrow> (key \<times> memtable_entry) list \<Rightarrow> key \<Rightarrow> nat \<Rightarrow> nat \<Rightarrow> bool" where
  "search_range n es k start end \<longleftrightarrow>
     start \<le> end \<and> end < num_restarts n (length es) \<and>
     (start = 0 \<or> fst (es ! (start * n)) \<le> k) \<and>
     (end = num_restarts n (length es) - 1 \<or> k < fst (es ! (end * n)))"

lemma block_search_loop_ok:
  assumes lay: "block_layout bl b ps es"
  shows "search_range (restart_interval b) es k start end \<Longrightarrow>
    (\<exists>i < length es. fst (es ! i) = k \<and> block_search_loop bl b k start end = Inr (Inl (entry_at bl b ps es i))) \<or>
    (\<exists>start' end'. block_search_loop bl b k start end = Inr (Inr (start', end')) \<and>
       search_range (restart_interval b) es k start' end' \<and> end' - start' \<le> 1)"
proof (induction "end - start" arbitrary: start "end" rule: less_induct)
  case less
  let ?n = "restart_interval b"
  have pos: "0 < ?n" by (rule block_layoutD(1) [OF lay])
  show ?case
  proof (cases "end - start > 1")
    case True
    define mid where "mid = start + (end - start) div 2"
    have mid: "start < mid" "mid < end" using True by (auto simp: mid_def)
    then have "mid < num_restarts ?n (length es)" using less.prems by (auto simp: search_range_def)
    then have bound: "mid < num_restarts ?n (length es)" "mid * ?n < length es"
      using num_restarts_less [OF pos, of mid] by auto
    note off = get_restart_offset_ok [OF lay bound(1)]
    have ent: "get_entry_at_offset bl b (entry_off ps es (mid * ?n)) [] =
        Inr (fst (es ! (mid * ?n)), entry_at bl b ps es (mid * ?n))"
      by (rule get_restart_entry_ok [OF lay bound(2)]) simp
    have body: "block_search_loop bl b k start end =
        (if fst (es ! (mid * ?n)) = k then Inr (Inl (entry_at bl b ps es (mid * ?n)))
         else if fst (es ! (mid * ?n)) < k then block_search_loop bl b k mid end
         else block_search_loop bl b k start mid)"
      unfolding block_search_loop.simps [of bl b k start "end"] Let_def mid_def [symmetric]
      using True off ent by simp
    consider (eq) "fst (es ! (mid * ?n)) = k" | (lt) "fst (es ! (mid * ?n)) < k"
      | (gt) "k < fst (es ! (mid * ?n))" by (rule linorder_cases)
    then show ?thesis
    proof cases
      case eq
      then show ?thesis using body bound(2) by auto
    next
      case lt
      then have range: "search_range ?n es k mid end"
        using less.prems mid by (auto simp: search_range_def)
      have eq: "block_search_loop bl b k start end = block_search_loop bl b k mid end"
        unfolding body using lt by auto
      have "end - mid < end - start" using mid by linarith
      from less.hyps [OF this range] show ?thesis unfolding eq .
    next
      case gt
      then have range: "search_range ?n es k start mid"
        using less.prems mid by (auto simp: search_range_def)
      have eq: "block_search_loop bl b k start end = block_search_loop bl b k start mid"
        unfolding body using gt by auto
      have "mid - start < end - start" using mid by linarith
      from less.hyps [OF this range] show ?thesis unfolding eq .
    qed
  next
    case False
    then show ?thesis using less.prems by (subst block_search_loop.simps) auto
  qed
qed

text \<open>
  The search either hits the key at a restart or returns a range of entries, from a restart to the
  end of the block or to a restart behind the key, that contains the key if the block does.
\<close>

lemma block_binary_search_ok:
  assumes lay: "block_layout bl b ps es" and sorted: "sorted_strict (map fst es)"
  shows "(\<exists>i < length es. fst (es ! i) = k \<and>
           block_binary_search bl b k = Inr (ExactMatch (entry_at bl b ps es i))) \<or>
    (\<exists>start last. block_binary_search bl b k = Inr (Range start (entry_off ps es last)) \<and>
       start < num_restarts (restart_interval b) (length es) \<and> last \<le> length es \<and>
       (\<forall>i < length es. fst (es ! i) = k \<longrightarrow> start * restart_interval b \<le> i \<and> i < last))"
proof -
  let ?n = "restart_interval b" and ?R = "num_restarts (restart_interval b) (length es)"
  have pos: "0 < ?n" by (rule block_layoutD(1) [OF lay])
  have R: "0 < ?R" using num_restarts_pos [OF pos] block_layoutD(2) [OF lay] by simp
  have "4 * ?R < 2 ^ 32" using block_tail(2,3) [OF lay] block_layoutD(6) [OF lay] by simp
  then have small: "as_u32 ?R = ?R" by simp
  have "search_range ?n es k 0 (?R - 1)" using R by (simp add: search_range_def)
  from block_search_loop_ok [OF lay this] show ?thesis
  proof (elim disjE exE conjE)
    fix i assume "i < length es" "fst (es ! i) = k"
      "block_search_loop bl b k 0 (?R - 1) = Inr (Inl (entry_at bl b ps es i))"
    then show ?thesis using R small restart_list_len_ok [OF lay] by (auto simp: block_binary_search_def)
  next
    fix start "end"
    assume loop: "block_search_loop bl b k 0 (?R - 1) = Inr (Inr (start, end))"
      and range: "search_range ?n es k start end" and close: "end - start \<le> 1"
    have less: "fst (es ! i) < fst (es ! j) \<longleftrightarrow> i < j" if "i < length es" "j < length es" for i j
      using sorted_strict_nth_less_iff [OF sorted] that by simp
    have start: "start < ?R" using range by (simp add: search_range_def)
    then have "start * ?n < length es" using num_restarts_less [OF pos] by simp
    have lower: "start * ?n \<le> i" if "i < length es" "fst (es ! i) = k" for i
    proof (rule ccontr)
      assume "\<not> start * ?n \<le> i"
      then have "k < fst (es ! (start * ?n))" using less that \<open>start * ?n < length es\<close> by auto
      then show False using range \<open>\<not> start * ?n \<le> i\<close> by (auto simp: search_range_def)
    qed
    show ?thesis
    proof (cases "end + 1 = ?R")
      case True
      then have "block_binary_search bl b k = Inr (Range start (entry_off ps es (length es)))"
        using R small restart_list_len_ok [OF lay] loop byte_len_ok [OF lay] block_layoutD(3) [OF lay]
        by (simp add: block_binary_search_def)
      then show ?thesis using lower start by blast
    next
      case False
      have endR: "end < ?R" using range by (simp add: search_range_def)
      then have e: "end * ?n < length es" using num_restarts_less [OF pos] by simp
      have "k < fst (es ! (end * ?n))" using range False R by (auto simp: search_range_def)
      then have "i < end * ?n" if "i < length es" "fst (es ! i) = k" for i
        using less [OF that(1) e] that by simp
      moreover have "block_binary_search bl b k = Inr (Range start (entry_off ps es (end * ?n)))"
        using R small restart_list_len_ok [OF lay] loop False get_restart_offset_ok [OF lay endR]
        by (simp add: block_binary_search_def)
      ultimately show ?thesis using lower start e by (meson less_imp_le)
    qed
  qed
qed

lemma block_scan_ok:
  assumes lay: "block_layout bl b ps es" and stop: "stop \<le> length es" and i: "i \<le> stop"
    and prev: "i < length es \<Longrightarrow> ps ! i \<le> length prev \<and> take (ps ! i) prev = take (ps ! i) (fst (es ! i))"
  shows "block_scan bl b k (entry_off ps es stop) (entry_off ps es i) prev =
    Some (Inr (case find (\<lambda>j. fst (es ! j) = k) [i ..< stop] of
                 None \<Rightarrow> None | Some j \<Rightarrow> Some (entry_at bl b ps es j)))"
  using i prev
proof (induction "stop - i" arbitrary: i prev)
  case 0
  then show ?case by (subst block_scan.simps) simp
next
  case (Suc d)
  then have lt: "i < stop" "i < length es" using stop by auto
  have less: "entry_off ps es i < entry_off ps es stop"
    using entry_off_mono [OF block_layoutD(3) [OF lay] lt(1) stop] .
  have ent: "get_entry_at_offset bl b (entry_off ps es i) prev = Inr (fst (es ! i), entry_at bl b ps es i)"
    using get_entry_at_offset_ok [OF lay lt(2)] Suc.prems(2) lt(2) by blast
  have upt: "[i ..< stop] = i # [Suc i ..< stop]" using lt by (simp add: upt_conv_Cons)
  show ?case
  proof (cases "fst (es ! i) = k")
    case True
    then show ?thesis using less ent by (subst block_scan.simps) (simp add: upt)
  next
    case False
    have "ps ! Suc i \<le> length (fst (es ! i)) \<and>
        take (ps ! Suc i) (fst (es ! i)) = take (ps ! Suc i) (fst (es ! Suc i))" if "Suc i < length es"
    proof -
      have "\<forall>i < length es. 0 < i \<longrightarrow>
          ps ! i \<le> length (fst (es ! (i - 1))) \<and> take (ps ! i) (fst (es ! (i - 1))) = take (ps ! i) (fst (es ! i))"
        using block_layoutD(7) [OF lay] by (simp add: prefixes_ok_def)
      from this [rule_format, OF that] show ?thesis by simp
    qed
    then have "block_scan bl b k (entry_off ps es stop) (entry_off ps es (Suc i)) (fst (es ! i)) =
        Some (Inr (case find (\<lambda>j. fst (es ! j) = k) [Suc i ..< stop] of
                     None \<Rightarrow> None | Some j \<Rightarrow> Some (entry_at bl b ps es j)))"
      using Suc.hyps(1) [of "Suc i"] Suc.hyps(2) lt by auto
    moreover have "de_next_offset (entry_at bl b ps es i) = entry_off ps es (Suc i)" by (simp add: entry_at_def)
    ultimately show ?thesis
      using less ent False by (subst block_scan.simps) (simp add: upt eq_commute)
  qed
qed

lemma key_not_in: "\<forall>i < length es. fst (es ! i) \<noteq> k \<Longrightarrow> k \<notin> fst ` set es"
  by (fastforce simp: in_set_conv_nth)

lemma get_by_key_ok:
  assumes lay: "block_layout bl b ps es" and sorted: "sorted_strict (map fst es)"
  shows "(\<exists>i < length es. fst (es ! i) = k \<and> get_by_key bl b k = Some (Inr (Some (entry_at bl b ps es i)))) \<or>
    (k \<notin> fst ` set es \<and> get_by_key bl b k = Some (Inr None))"
proof -
  let ?neg = "case bl of NoBloom \<Rightarrow> False
      | WithBloom api \<Rightarrow> (case bloom_filter b of None \<Rightarrow> False | Some f \<Rightarrow> \<not> bf_check api f k)"
  show ?thesis
  proof (cases ?neg)
    case True
    then have "k \<notin> fst ` set es"
      using block_layoutD(9) [OF lay] by (auto simp: bloom_covers_def split: bloom_feature.splits)
    then show ?thesis using True by (simp add: get_by_key_def)
  next
    case False
    from block_binary_search_ok [OF lay sorted, of k] show ?thesis
    proof (elim disjE exE conjE)
      fix i assume "i < length es" "fst (es ! i) = k"
        "block_binary_search bl b k = Inr (ExactMatch (entry_at bl b ps es i))"
      then show ?thesis using False unfolding get_by_key_def by auto
    next
      fix start stop
      assume search: "block_binary_search bl b k = Inr (Range start (entry_off ps es stop))"
        and start: "start < num_restarts (restart_interval b) (length es)" and stop: "stop \<le> length es"
        and cover: "\<forall>i < length es. fst (es ! i) = k \<longrightarrow> start * restart_interval b \<le> i \<and> i < stop"
      let ?i = "start * restart_interval b"
      have i: "?i < length es" using start num_restarts_less [OF block_layoutD(1) [OF lay]] by simp
      have zero: "ps ! ?i = 0" using block_layoutD(7) [OF lay] i by (simp add: prefixes_ok_def)
      have eq: "get_by_key bl b k =
          block_scan bl b k (entry_off ps es stop) (entry_off ps es ?i) []"
        unfolding get_by_key_def using False search get_restart_offset_ok [OF lay start] by simp
      show ?thesis
      proof (cases "?i \<le> stop")
        case True
        have scan: "get_by_key bl b k = Some (Inr (case find (\<lambda>j. fst (es ! j) = k) [?i ..< stop] of
            None \<Rightarrow> None | Some j \<Rightarrow> Some (entry_at bl b ps es j)))"
          unfolding eq using block_scan_ok [OF lay stop True, of "[]"] zero by simp
        show ?thesis
        proof (cases "find (\<lambda>j. fst (es ! j) = k) [?i ..< stop]")
          case None
          then have "\<forall>j. ?i \<le> j \<and> j < stop \<longrightarrow> fst (es ! j) \<noteq> k" by (auto simp: find_None_iff)
          then have "\<forall>i < length es. fst (es ! i) \<noteq> k" using cover by blast
          then have "k \<notin> fst ` set es" by (rule key_not_in)
          then show ?thesis using scan None by simp
        next
          case (Some j)
          then have "fst (es ! j) = k" "j < length es"
            using stop by (auto simp: find_Some_iff in_set_conv_nth)
          moreover have "get_by_key bl b k = Some (Inr (Some (entry_at bl b ps es j)))"
            using scan Some by simp
          ultimately show ?thesis by blast
        qed
      next
        case False
        then have "\<forall>i < length es. fst (es ! i) \<noteq> k" using cover by fastforce
        then have "k \<notin> fst ` set es" by (rule key_not_in)
        moreover have "\<not> entry_off ps es ?i < entry_off ps es stop"
          using entry_off_less_iff [OF block_layoutD(3) [OF lay], of ?i stop] i stop False by simp
        ultimately show ?thesis unfolding eq by (subst block_scan.simps) simp
      qed
    qed
  qed
qed

section \<open>The builder produces the layout\<close>

definition builder_holds ::
    "'bf bloom_feature \<Rightarrow> nat \<Rightarrow> 'bf data_block_builder \<Rightarrow> nat list \<Rightarrow> (key \<times> memtable_entry) list \<Rightarrow> bool" where
  "builder_holds bl interval bb ps es \<longleftrightarrow>
     bb_data bb = replicate (header_length bl) 0 @ entries_bytes ps es \<and> bb_position bb = length es \<and>
     bb_restart_list bb = restart_offsets (header_length bl) interval ps es \<and>
     prefixes_ok interval ps (map fst es) \<and> (\<forall>k \<in> set (map fst es). length k < 2 ^ 32) \<and>
     bloom_covers bl (bb_bloom_filter bb) (set (map fst es))"

lemma builder_holds_new: "0 < interval \<Longrightarrow> builder_holds bl interval (block_builder_new bl) [] []"
  by (cases bl) (simp_all add: builder_holds_def block_builder_new_def entries_bytes_def
      restart_offsets_def num_restarts_def prefixes_ok_def bloom_covers_def)

lemma entry_off_snoc:
  "length ps = length es \<Longrightarrow> i \<le> length es \<Longrightarrow> entry_off (ps @ [n]) (es @ [x]) i = entry_off ps es i"
  by (simp add: entry_off_def)

lemma entries_bytes_snoc:
  "length ps = length es \<Longrightarrow> entries_bytes (ps @ [n]) (es @ [x]) = entries_bytes ps es @ entry_bytes n x"
  by (simp add: entries_bytes_def)

lemma num_restarts_Suc:
  assumes "0 < interval"
  shows "num_restarts interval (Suc n) = num_restarts interval n + (if n mod interval = 0 then 1 else 0)"
proof -
  have "num_restarts interval (Suc n) = n div interval + 1"
    using assms by (simp add: num_restarts_def div_add_self2)
  moreover have "num_restarts interval n = n div interval + (if n mod interval = 0 then 0 else 1)"
  proof (cases "n mod interval = 0")
    case True
    then obtain q where q: "n = interval * q" by (meson dvdE mod_eq_0_iff_dvd)
    have "(interval * q + interval - 1) div interval = q"
      using assms by (intro div_nat_eqI) (auto simp: algebra_simps)
    then show ?thesis using assms q by (simp add: num_restarts_def)
  next
    case False
    define r where "r = n mod interval"
    have "n = interval * (n div interval) + r" "0 < r" using False by (simp_all add: r_def)
    then have "n + interval - 1 = (r - 1) + interval * (n div interval + 1)"
      unfolding distrib_left mult_1_right by linarith
    moreover have "r - 1 < interval" using assms by (simp add: r_def less_imp_diff_less)
    then have "((r - 1) + interval * (n div interval + 1)) div interval = n div interval + 1"
      using assms by (simp only: div_mult_self2) simp
    ultimately show ?thesis using False by (simp add: num_restarts_def)
  qed
  ultimately show ?thesis by simp
qed

lemma restart_offsets_snoc:
  assumes "0 < interval" and "length ps = length es"
  shows "restart_offsets hl interval (ps @ [n]) (es @ [x]) =
    restart_offsets hl interval ps es @
    (if length es mod interval = 0 then [hl + length (entries_bytes ps es)] else [])"
proof -
  have old: "map (\<lambda>j. hl + entry_off (ps @ [n]) (es @ [x]) (j * interval)) [0 ..< num_restarts interval (length es)] =
      restart_offsets hl interval ps es"
    unfolding restart_offsets_def
    by (rule map_cong) (auto simp: entry_off_snoc [OF assms(2)] num_restarts_less [OF assms(1)] less_imp_le)
  have "num_restarts interval (length es) * interval = length es" if exact: "length es mod interval = 0"
  proof -
    obtain q where q: "length es = interval * q" using exact by (meson dvdE mod_eq_0_iff_dvd)
    have "(interval * q + interval - 1) div interval = q"
      using assms(1) by (intro div_nat_eqI) (auto simp: algebra_simps)
    then show ?thesis using q by (simp add: num_restarts_def)
  qed
  then show ?thesis
    using old entry_off_snoc [OF assms(2) order_refl, of n x] entry_off_length [OF assms(2)]
    by (auto simp: restart_offsets_def num_restarts_Suc [OF assms(1)])
qed

lemma prefixes_ok_snoc:
  assumes "prefixes_ok interval ps ks" and "n \<le> length k"
    and "length ks mod interval = 0 \<Longrightarrow> n = 0"
    and "ks \<noteq> [] \<Longrightarrow> n \<le> length (last ks) \<and> take n (last ks) = take n k"
  shows "prefixes_ok interval (ps @ [n]) (ks @ [k])"
proof -
  have len: "length ps = length ks" using assms(1) by (simp add: prefixes_ok_def)
  have "(i mod interval = 0 \<longrightarrow> (ps @ [n]) ! i = 0) \<and> (ps @ [n]) ! i \<le> length ((ks @ [k]) ! i) \<and>
      (0 < i \<longrightarrow> (ps @ [n]) ! i \<le> length ((ks @ [k]) ! (i - 1)) \<and>
        take ((ps @ [n]) ! i) ((ks @ [k]) ! (i - 1)) = take ((ps @ [n]) ! i) ((ks @ [k]) ! i))"
    if "i < length (ks @ [k])" for i
  proof (cases "i < length ks")
    case True
    then have "(ps @ [n]) ! i = ps ! i" "(ks @ [k]) ! i = ks ! i" "(ks @ [k]) ! (i - 1) = ks ! (i - 1)"
      using len by (simp_all add: nth_append less_imp_diff_less)
    then show ?thesis using assms(1) True unfolding prefixes_ok_def by simp
  next
    case False
    then have i: "i = length ks" using that by simp
    then have "(ps @ [n]) ! i = n" "(ks @ [k]) ! i = k" using len by (simp_all add: nth_append)
    moreover have "(ks @ [k]) ! (i - 1) = last ks" "ks \<noteq> []" if "0 < i"
      using that i by (auto simp: nth_append last_conv_nth)
    ultimately show ?thesis using assms(2-4) i by auto
  qed
  then show ?thesis using len by (simp add: prefixes_ok_def)
qed

lemma bloom_covers_set:
  assumes "bloom_laws bl" and "bloom_covers bl f ks"
  shows "bloom_covers bl
           (case bl of NoBloom \<Rightarrow> f | WithBloom api \<Rightarrow> map_option (\<lambda>f. bf_set api f k) f) (insert k ks)"
  using assms by (cases bl) (auto simp: bloom_covers_def bloom_laws_def)

lemma block_add_entry_ok:
  assumes holds: "builder_holds bl (block_restart_interval p) bb ps es" and pos: "0 < block_restart_interval p"
    and laws: "bloom_laws bl" and k: "length k < 2 ^ 32" and n: "n \<le> length k"
    and restart: "length es mod block_restart_interval p = 0 \<Longrightarrow> n = 0"
    and share: "es \<noteq> [] \<Longrightarrow> n \<le> length (fst (last es)) \<and> take n (fst (last es)) = take n k"
    and size: "length (bb_data bb) < 2 ^ 32"
  shows "\<exists>bb'. block_add_entry bl p bb (prefixed_key_new n (drop n k)) k (entry_seq_number e) (entry_op e)
             (entry_data_bytes e) = Inr bb' \<and>
           builder_holds bl (block_restart_interval p) bb' (ps @ [n]) (es @ [(k, e)])"
proof -
  let ?int = "block_restart_interval p"
  have len: "length ps = length es" and data: "bb_data bb = replicate (header_length bl) 0 @ entries_bytes ps es"
    and position: "bb_position bb = length es" and pref: "prefixes_ok ?int ps (map fst es)"
    and rs: "bb_restart_list bb = restart_offsets (header_length bl) ?int ps es"
    and covers: "bloom_covers bl (bb_bloom_filter bb) (set (map fst es))"
    using holds by (auto simp: builder_holds_def prefixes_ok_def)
  define f where "f = (case bl of NoBloom \<Rightarrow> bb_bloom_filter bb
      | WithBloom api \<Rightarrow> map_option (\<lambda>f. bf_set api f k) (bb_bloom_filter bb))"
  define bb' where "bb' = bb\<lparr> bb_data := bb_data bb @ entry_bytes n (k, e), bb_position := length es + 1,
      bb_restart_list := restart_offsets (header_length bl) ?int (ps @ [n]) (es @ [(k, e)]),
      bb_bloom_filter := f \<rparr>"
  have rsnoc: "restart_offsets (header_length bl) ?int (ps @ [n]) (es @ [(k, e)]) =
      bb_restart_list bb @ (if length es mod ?int = 0 then [length (bb_data bb)] else [])"
    using restart_offsets_snoc [OF pos len] rs data by simp
  have "block_add_entry bl p bb (prefixed_key_new n (drop n k)) k (entry_seq_number e) (entry_op e)
      (entry_data_bytes e) = Inr bb'"
  proof (cases "length es mod ?int = 0")
    case True
    then show ?thesis
      using pos restart size rsnoc position
      by (cases bb, cases bl)
        (simp_all add: block_add_entry_def prefixed_key_new_def bb'_def f_def entry_bytes_def entry_head_def)
  next
    case False
    then show ?thesis
      using pos rsnoc position
      by (cases bb, cases bl)
        (simp_all add: block_add_entry_def prefixed_key_new_def bb'_def f_def entry_bytes_def entry_head_def)
  qed
  moreover have "prefixes_ok ?int (ps @ [n]) (map fst es @ [k])"
    using prefixes_ok_snoc [OF pref n] restart share by (simp add: last_map)
  moreover have "bloom_covers bl f (insert k (set (map fst es)))"
    unfolding f_def by (rule bloom_covers_set [OF laws covers])
  ultimately show ?thesis
    using holds data entries_bytes_snoc [OF len, of n "(k, e)"] k
    by (auto simp: builder_holds_def bb'_def)
qed

text \<open>A finished block has the layout, and reading its bytes from disk gives the same block back.\<close>

lemma block_finish_data_ok:
  assumes holds: "builder_holds bl (block_restart_interval p) bb ps es" and pos: "0 < block_restart_interval p"
    and laws: "bloom_laws bl" and ne: "es \<noteq> []"
    and size: "length (bb_data bb) + 4 * length (bb_restart_list bb) < 2 ^ 32"
  defines "b \<equiv> block_finish_data bl p bb"
  shows "block_layout bl b ps es" "new_from_data bl (block_data b) (restart_interval b) = Inr b"
proof -
  let ?int = "block_restart_interval p"
  have data: "bb_data bb = replicate (header_length bl) 0 @ entries_bytes ps es"
    and position: "bb_position bb = length es"
    and rs: "bb_restart_list bb = restart_offsets (header_length bl) ?int ps es"
    and covers: "bloom_covers bl (bb_bloom_filter bb) (set (map fst es))"
    using holds by (auto simp: builder_holds_def)
  define bloom_part where "bloom_part = (case bl of NoBloom \<Rightarrow> []
      | WithBloom api \<Rightarrow> (case bb_bloom_filter bb of None \<Rightarrow> [] | Some f \<Rightarrow> bf_as_slice api f))"
  define hdr where "hdr = u32_bytes (of_nat (length (bb_data bb))) @ u32_bytes (of_nat (length es)) @ bloom_part"
  have hdr_len: "length hdr = header_length bl"
    using covers laws
    by (auto simp: hdr_def bloom_part_def header_length_def bloom_covers_def bloom_laws_def split: bloom_feature.splits)
  have bdata: "block_data b = hdr @ entries_bytes ps es @
      concat (map (\<lambda>off. u32_bytes (of_nat off)) (restart_offsets (header_length bl) ?int ps es))"
    by (simp add: b_def block_finish_data_def Let_def hdr_def bloom_part_def data position rs)
  have small: "as_u32 (length (bb_data bb)) = length (bb_data bb)" using size by simp
  have start: "restart_list_start b = length (bb_data bb)" using small by (simp add: b_def block_finish_data_def Let_def)
  have fields: "num_entries b = length es" "restart_interval b = ?int" "bloom_filter b = bb_bloom_filter bb"
    by (simp_all add: b_def block_finish_data_def Let_def position)
  have "length (block_data b) < 2 ^ 32" using size hdr_len by (simp add: bdata data rs length_concat_u32)
  then show lay: "block_layout bl b ps es"
    using holds pos ne covers hdr_len bdata start fields
    by (auto simp: block_layout_def builder_holds_def data)
  have n: "length es < 2 ^ 32"
  proof -
    have len: "length ps = length es" by (rule block_layoutD(3) [OF lay])
    have "i \<le> entry_off ps es i" if "i \<le> length es" for i
      using that
    proof (induction i)
      case (Suc i)
      then show ?case using entry_off_mono [OF len, of i "Suc i"] by simp
    qed simp
    from this [OF order_refl] show ?thesis using entry_off_bound(3) [OF lay order_refl] by simp
  qed
  have bloom: "(case bl of NoBloom \<Rightarrow> Inr None
      | WithBloom api \<Rightarrow> bind_result (expect (bf_from_bytes api (drop 8 hdr)) ''Failed to load bloom filter'')
          (\<lambda>f. Inr (Some f))) = Inr (bloom_filter b)"
    using covers laws fields(3)
    by (auto simp: hdr_def bloom_part_def bloom_covers_def bloom_laws_def split: bloom_feature.splits)
  have "block_data b \<noteq> []" using bdata hdr_len by (auto simp: header_length_def)
  moreover have "slice (block_data b) 0 (header_length bl) = Inr hdr"
    using hdr_len by (simp add: bdata slice_def)
  moreover have "unat (u32_at hdr 0) = length (bb_data bb)" "unat (u32_at hdr 4) = length es"
    using size n by (simp_all add: hdr_def codec_simps)
  ultimately show "new_from_data bl (block_data b) (restart_interval b) = Inr b"
    using bloom start fields(1) by (simp add: new_from_data_def)
qed

end
