(* ===== verification/Lsm_BlockCache.thy ===== *)
theory Lsm_BlockCache
  imports Lsm_DataBlock
begin

text \<open>
  The store of data blocks (\<open>DataBlocks\<close> of \<open>src/src/data_blocks/mod.rs\<close> and \<open>DataBlockBuilder::finish\<close>
  of \<open>builder.rs\<close>): 64 shards of an LRU cache in front of the block files.

  The cache of the \<open>lru\<close> crate is a parameter. The lemmas show that the caches are transparent: a
  block that is read is the block its file holds, whatever was evicted in between.
\<close>

section \<open>The cache and the configuration of a database\<close>

record ('c, 'bf) lru_api =
  lru_new :: "nat \<Rightarrow> 'c"
  lru_get :: "'c \<Rightarrow> u64 \<Rightarrow> 'c \<times> 'bf data_block option"
  lru_put :: "'c \<Rightarrow> u64 \<Rightarrow> 'bf data_block \<Rightarrow> 'c"
  lru_peek :: "'c \<Rightarrow> u64 \<Rightarrow> 'bf data_block option"

text \<open>
  What the code relies on: a new cache is empty, \<open>get\<close> returns what \<open>peek\<close> shows and changes only the
  order of use, and \<open>put\<close> stores the pair and may evict others.
\<close>

definition lru_laws :: "('c, 'bf) lru_api \<Rightarrow> bool" where
  "lru_laws lru \<longleftrightarrow>
     (\<forall>n i. lru_peek lru (lru_new lru n) i = None) \<and>
     (\<forall>c i. snd (lru_get lru c i) = lru_peek lru c i \<and> lru_peek lru (fst (lru_get lru c i)) = lru_peek lru c) \<and>
     (\<forall>c i b j b'. lru_peek lru (lru_put lru c i b) j = Some b' \<longrightarrow>
        (if j = i then b' = b else lru_peek lru c j = Some b'))"

text \<open>The libraries and features the crate is built with and the parameters of the database.\<close>

record ('c, 'bf) config =
  cf_codec :: codec
  cf_bloom :: "'bf bloom_feature"
  cf_lru :: "('c, 'bf) lru_api"
  cf_params :: params

definition config_ok :: "('c, 'bf) config \<Rightarrow> bool" where
  "config_ok cf \<longleftrightarrow>
     codec_laws (cf_codec cf) \<and> bloom_laws (cf_bloom cf) \<and> lru_laws (cf_lru cf) \<and>
     0 < block_restart_interval (cf_params cf)"

section \<open>Reading and writing blocks\<close>

record 'c store =
  st_fs :: fs
  st_caches :: "'c list"

definition NUM_SHARDS :: nat where "NUM_SHARDS = 64"

definition data_blocks_new :: "('c, 'bf) config \<Rightarrow> 'c list result" where
  "data_blocks_new cf =
     (let max_data_files = max_open_files (cf_params cf) div 2 in
      bind_result (assert_that (max_data_files \<noteq> 0) ''Max open files needs to be greater than 2'') (\<lambda>_.
      let shard_size = max_data_files div NUM_SHARDS in
      bind_result (assert_that (shard_size \<noteq> 0)
        ''Not enough open files to support the number of shards'') (\<lambda>_.
      Inr (replicate NUM_SHARDS (lru_new (cf_lru cf) shard_size)))))"

definition block_to_shard_id :: "u64 \<Rightarrow> nat" where
  "block_to_shard_id block_id = unat block_id mod NUM_SHARDS"

text \<open>The part of \<open>get_block\<close> that loads a block from its file.\<close>

definition load_block :: "('c, 'bf) config \<Rightarrow> fs \<Rightarrow> u64 \<Rightarrow> 'bf data_block result" where
  "load_block cf fs block_id =
     (case disk_read (cf_codec cf) fs (data_block_path (cf_params cf) block_id) 0 of
        Inl err \<Rightarrow> Inl (Panic ''Failed to load data block from disk'')
      | Inr data \<Rightarrow> new_from_data (cf_bloom cf) data (block_restart_interval (cf_params cf)))"

definition get_block ::
    "('c, 'bf) config \<Rightarrow> 'c store \<Rightarrow> u64 \<Rightarrow> ('c store \<times> 'bf data_block) result" where
  "get_block cf s block_id =
     (let shard_id = block_to_shard_id block_id in
      bind_result (index (st_caches s) shard_id) (\<lambda>cache.
      let (cache, cached) = lru_get (cf_lru cf) cache block_id;
          s = s\<lparr> st_caches := (st_caches s)[shard_id := cache] \<rparr> in
      case cached of
        Some block \<Rightarrow> Inr (s, block)
      | None \<Rightarrow>
          bind_result (load_block cf (st_fs s) block_id) (\<lambda>block.
          Inr (s\<lparr> st_caches := (st_caches s)[shard_id := lru_put (cf_lru cf) cache block_id block] \<rparr>, block))))"

definition block_finish ::
    "('c, 'bf) config \<Rightarrow> 'c store \<Rightarrow> 'bf data_block_builder \<Rightarrow> ('c store \<times> u64 option) result" where
  "block_finish cf s bb =
     (if bb_position bb = 0 then Inr (s, None)
      else
        bind_result (generate_next_data_block_id False (cf_params cf) (st_fs s)) (\<lambda>(fs, identifier).
        let block = block_finish_data (cf_bloom cf) (cf_params cf) bb;
            shard_id = block_to_shard_id identifier;
            fs = disk_write (cf_codec cf) fs (data_block_path (cf_params cf) identifier) (block_data block) in
        bind_result (index (st_caches s) shard_id) (\<lambda>cache.
        Inr (\<lparr> st_fs = fs,
               st_caches = (st_caches s)[shard_id := lru_put (cf_lru cf) cache identifier block] \<rparr>,
             Some identifier))))"

section \<open>Coherence\<close>

text \<open>
  A store is coherent when every cached block is the block of its file. A well-formed store also has a
  valid manifest whose next identifiers are unused.
\<close>

definition coherent :: "('c, 'bf) config \<Rightarrow> 'c store \<Rightarrow> bool" where
  "coherent cf s \<longleftrightarrow>
     length (st_caches s) = NUM_SHARDS \<and>
     (\<forall>c \<in> set (st_caches s). \<forall>i b. lru_peek (cf_lru cf) c i = Some b \<longrightarrow> load_block cf (st_fs s) i = Inr b)"

definition ids_unused :: "params \<Rightarrow> fs \<Rightarrow> database_metadata \<Rightarrow> bool" where
  "ids_unused p fs m \<longleftrightarrow> (\<forall>i. next_data_block_id m \<le> i \<longrightarrow> fs (data_block_path p i) = None)"

definition store_ok ::
    "('c, 'bf) config \<Rightarrow> 'c store \<Rightarrow> database_metadata \<Rightarrow> (nat \<Rightarrow> u64 set) \<Rightarrow> bool" where
  "store_ok cf s m T \<longleftrightarrow>
     config_ok cf \<and> coherent cf s \<and> manifest_ok False (cf_params cf) (st_fs s) m T \<and>
     ids_unused (cf_params cf) (st_fs s) m"

text \<open>No block file that exists is ever changed or removed.\<close>

definition blocks_kept :: "params \<Rightarrow> fs \<Rightarrow> fs \<Rightarrow> bool" where
  "blocks_kept p fs fs' \<longleftrightarrow>
     (\<forall>i. fs (data_block_path p i) \<noteq> None \<longrightarrow> fs' (data_block_path p i) = fs (data_block_path p i))"

lemma blocks_kept_refl [simp]: "blocks_kept p fs fs"
  by (simp add: blocks_kept_def)

lemma blocks_kept_trans: "blocks_kept p fs fs1 \<Longrightarrow> blocks_kept p fs1 fs2 \<Longrightarrow> blocks_kept p fs fs2"
  by (metis blocks_kept_def)

lemma load_block_exists:
  "load_block cf fs i = Inr b \<Longrightarrow> fs (data_block_path (cf_params cf) i) \<noteq> None"
  by (auto simp: load_block_def disk_read_def read_uncompressed_def split: option.splits)

lemma load_block_cong:
  "fs' (data_block_path (cf_params cf) i) = fs (data_block_path (cf_params cf) i) \<Longrightarrow>
   load_block cf fs' i = load_block cf fs i"
  by (simp add: load_block_def disk_read_def read_uncompressed_def)

lemma load_block_kept:
  assumes "blocks_kept (cf_params cf) fs fs'" and "load_block cf fs i = Inr b"
  shows "load_block cf fs' i = Inr b"
  using assms load_block_exists [OF assms(2)] load_block_cong [of fs' cf i fs]
  by (simp add: blocks_kept_def)

lemma block_to_shard_id_less: "block_to_shard_id i < NUM_SHARDS"
  by (simp add: block_to_shard_id_def NUM_SHARDS_def)

lemma coherent_update:
  assumes "coherent cf s" and "blocks_kept (cf_params cf) (st_fs s) fs'"
    and "\<And>i b. lru_peek (cf_lru cf) c i = Some b \<Longrightarrow> load_block cf fs' i = Inr b"
  shows "coherent cf \<lparr> st_fs = fs', st_caches = (st_caches s)[j := c] \<rparr>"
proof -
  have "load_block cf fs' i = Inr b"
    if "c' \<in> set ((st_caches s)[j := c])" "lru_peek (cf_lru cf) c' i = Some b" for c' i b
  proof -
    have "c' = c \<or> c' \<in> set (st_caches s)" using that(1) set_update_subset_insert by fastforce
    then show ?thesis
      using assms(1,3) that(2) load_block_kept [OF assms(2)] by (auto simp: coherent_def)
  qed
  then show ?thesis using assms(1) by (simp add: coherent_def)
qed

lemma store_eta: "s\<lparr> st_caches := cs \<rparr> = \<lparr> st_fs = st_fs s, st_caches = cs \<rparr>"
  by simp

lemma data_blocks_new_ok:
  assumes "128 \<le> max_open_files (cf_params cf)" and "lru_laws (cf_lru cf)"
  shows "\<exists>cs. data_blocks_new cf = Inr cs \<and> coherent cf \<lparr> st_fs = fs, st_caches = cs \<rparr>"
proof -
  let ?n = "max_open_files (cf_params cf) div 2"
  have "64 \<le> ?n" using assms(1) by simp
  then have "?n \<noteq> 0" and "?n div NUM_SHARDS \<noteq> 0" by (auto simp: NUM_SHARDS_def)
  then have "data_blocks_new cf = Inr (replicate NUM_SHARDS (lru_new (cf_lru cf) (?n div NUM_SHARDS)))"
    by (simp add: data_blocks_new_def Let_def)
  moreover have "lru_peek (cf_lru cf) (lru_new (cf_lru cf) n) i = None" for n i
    using assms(2) unfolding lru_laws_def by blast
  ultimately show ?thesis by (simp add: coherent_def)
qed

text \<open>Reading through the cache is reading the file.\<close>

lemma get_block_ok:
  assumes ok: "coherent cf s" and laws: "lru_laws (cf_lru cf)" and load: "load_block cf (st_fs s) i = Inr b"
  shows "\<exists>s'. get_block cf s i = Inr (s', b) \<and> st_fs s' = st_fs s \<and> coherent cf s'"
proof -
  let ?j = "block_to_shard_id i" and ?lru = "cf_lru cf"
  have j: "?j < length (st_caches s)" using ok block_to_shard_id_less by (simp add: coherent_def)
  let ?c = "st_caches s ! ?j"
  obtain c1 r where get: "lru_get ?lru ?c i = (c1, r)" by (cases "lru_get ?lru ?c i")
  have "snd (lru_get ?lru ?c i) = lru_peek ?lru ?c i"
    "lru_peek ?lru (fst (lru_get ?lru ?c i)) = lru_peek ?lru ?c"
    using laws unfolding lru_laws_def by blast+
  then have r: "r = lru_peek ?lru ?c i" and c1: "lru_peek ?lru c1 = lru_peek ?lru ?c"
    using get by simp_all
  have cached: "lru_peek ?lru ?c i' = Some b' \<Longrightarrow> load_block cf (st_fs s) i' = Inr b'" for i' b'
    using ok nth_mem [OF j] unfolding coherent_def by blast
  show ?thesis
  proof (cases r)
    case (Some b')
    then have "b' = b" using cached [of i b'] r load by simp
    then have "get_block cf s i = Inr (s\<lparr> st_caches := (st_caches s)[?j := c1] \<rparr>, b)"
      using get Some j by (simp add: get_block_def)
    moreover have "coherent cf (s\<lparr> st_caches := (st_caches s)[?j := c1] \<rparr>)"
      unfolding store_eta using ok c1 cached by (intro coherent_update) auto
    ultimately show ?thesis by simp
  next
    case None
    let ?c2 = "lru_put ?lru c1 i b"
    have "load_block cf (st_fs s) i' = Inr b'" if "lru_peek ?lru ?c2 i' = Some b'" for i' b'
    proof -
      have "if i' = i then b' = b else lru_peek ?lru c1 i' = Some b'"
        using laws that unfolding lru_laws_def by blast
      then show ?thesis using load cached c1 by (simp split: if_splits)
    qed
    then have "coherent cf (s\<lparr> st_caches := (st_caches s)[?j := ?c2] \<rparr>)"
      unfolding store_eta using ok by (intro coherent_update) auto
    moreover have "get_block cf s i = Inr (s\<lparr> st_caches := (st_caches s)[?j := ?c2] \<rparr>, b)"
      using get None j load by (simp add: get_block_def)
    ultimately show ?thesis by auto
  qed
qed

lemma get_block_fault:
  assumes ok: "coherent cf s" and laws: "lru_laws (cf_lru cf)" and load: "load_block cf (st_fs s) i = Inl e"
  shows "get_block cf s i = Inl e"
proof -
  let ?j = "block_to_shard_id i" and ?lru = "cf_lru cf"
  have j: "?j < length (st_caches s)" using ok block_to_shard_id_less by (simp add: coherent_def)
  let ?c = "st_caches s ! ?j"
  obtain c1 r where get: "lru_get ?lru ?c i = (c1, r)" by (cases "lru_get ?lru ?c i")
  have "snd (lru_get ?lru ?c i) = lru_peek ?lru ?c i" using laws unfolding lru_laws_def by blast
  then have "r = lru_peek ?lru ?c i" using get by simp
  moreover have "lru_peek ?lru ?c i \<noteq> Some b" for b
    using ok load nth_mem [OF j] unfolding coherent_def by (metis Inl_Inr_False)
  ultimately have "r = None" by (metis option.exhaust)
  then show ?thesis using get j load by (simp add: get_block_def)
qed

section \<open>Finishing a block\<close>

lemma manifest_ok_frame:
  assumes "manifest_ok wk p fs m T" and "fs' (manifest_path p) = fs (manifest_path p)"
    and "\<And>i. fs' (level_path p i) = fs (level_path p i)"
  shows "manifest_ok wk p fs' m T"
  using assms by (simp add: manifest_ok_def)

lemma next_id_less: "unat (n :: u64) < 2 ^ 64 - 1 \<Longrightarrow> n + 1 \<le> i \<Longrightarrow> n < i"
  using unat_succ_u64 [of n] by (simp add: word_le_nat_alt word_less_nat_alt)

lemma block_finish_ok:
  assumes ok: "store_ok cf s m T" and holds: "builder_holds (cf_bloom cf) (block_restart_interval (cf_params cf)) bb ps es"
    and ne: "es \<noteq> []" and len: "length (bb_data bb) + 4 * length (bb_restart_list bb) < 2 ^ 32"
    and fresh: "unat (next_data_block_id m) < 2 ^ 64 - 1"
  defines "i \<equiv> next_data_block_id m" and "m' \<equiv> m\<lparr> next_data_block_id := next_data_block_id m + 1 \<rparr>"
  shows "\<exists>s' b. block_finish cf s bb = Inr (s', Some i) \<and> store_ok cf s' m' T \<and>
      load_block cf (st_fs s') i = Inr b \<and> block_holds (cf_bloom cf) b es \<and>
      blocks_kept (cf_params cf) (st_fs s) (st_fs s') \<and>
      (\<forall>q. q \<noteq> manifest_path (cf_params cf) \<and> q \<noteq> data_block_path (cf_params cf) i \<longrightarrow> st_fs s' q = st_fs s q)"
proof -
  let ?p = "cf_params cf" and ?bl = "cf_bloom cf" and ?j = "block_to_shard_id i"
  define b where "b = block_finish_data ?bl ?p bb"
  define fs1 where "fs1 = store_meta ?p (st_fs s) m'"
  define fs2 where "fs2 = disk_write (cf_codec cf) fs1 (data_block_path ?p i) (block_data b)"
  define s' where "s' = \<lparr> st_fs = fs2, st_caches = (st_caches s)[?j := lru_put (cf_lru cf) (st_caches s ! ?j) i b] \<rparr>"
  have cfg: "config_ok cf" and coh: "coherent cf s" and man: "manifest_ok False ?p (st_fs s) m T"
    and free: "ids_unused ?p (st_fs s) m"
    using ok by (simp_all add: store_ok_def)
  have laws: "bloom_laws ?bl" "0 < block_restart_interval ?p" "codec_laws (cf_codec cf)" "lru_laws (cf_lru cf)"
    using cfg by (simp_all add: config_ok_def)
  have gen: "generate_next_data_block_id False ?p (st_fs s) = Inr (fs1, i)" and man1: "manifest_ok False ?p fs1 m' T"
    using generate_next_data_block_id_ok [OF man fresh] by (simp_all add: fs1_def m'_def i_def)
  have lay: "block_layout ?bl b ps es" and reread: "new_from_data ?bl (block_data b) (block_restart_interval ?p) = Inr b"
    using block_finish_data_ok [OF holds laws(2,1) ne len] by (simp_all add: b_def block_finish_data_def Let_def)
  have pos: "bb_position bb \<noteq> 0" using holds ne by (simp add: builder_holds_def)
  have j: "?j < length (st_caches s)" using coh block_to_shard_id_less by (simp add: coherent_def)
  have run: "block_finish cf s bb = Inr (s', Some i)"
    using gen pos j by (simp add: block_finish_def Let_def b_def s'_def fs2_def)
  have frame: "fs2 q = st_fs s q" if "q \<noteq> manifest_path ?p" "q \<noteq> data_block_path ?p i" for q
    using that by (simp add: fs2_def fs1_def disk_write_apply store_meta_def)
  have load: "load_block cf fs2 i = Inr b"
    using laws(3) reread by (simp add: load_block_def fs2_def)
  have kept: "blocks_kept ?p (st_fs s) fs2"
    unfolding blocks_kept_def
  proof (intro allI impI)
    fix i' assume "st_fs s (data_block_path ?p i') \<noteq> None"
    then have "i' \<noteq> i" using free by (auto simp: ids_unused_def i_def)
    then show "fs2 (data_block_path ?p i') = st_fs s (data_block_path ?p i')" by (intro frame) simp_all
  qed
  have coh2: "coherent cf s'"
    unfolding s'_def
  proof (rule coherent_update [OF coh kept])
    fix i' b' assume "lru_peek (cf_lru cf) (lru_put (cf_lru cf) (st_caches s ! ?j) i b) i' = Some b'"
    then have "if i' = i then b' = b else lru_peek (cf_lru cf) (st_caches s ! ?j) i' = Some b'"
      using laws(4) unfolding lru_laws_def by blast
    then show "load_block cf fs2 i' = Inr b'"
      using load coh nth_mem [OF j] load_block_kept [OF kept] by (auto simp: coherent_def split: if_splits)
  qed
  have "manifest_ok False ?p fs2 m' T"
    by (rule manifest_ok_frame [OF man1]) (simp_all add: fs2_def disk_write_apply)
  moreover have "ids_unused ?p fs2 m'"
    unfolding ids_unused_def
  proof (intro allI impI)
    fix i' assume "next_data_block_id m' \<le> i'"
    then have "i < i'" using next_id_less [OF fresh] by (simp add: m'_def i_def)
    then show "fs2 (data_block_path ?p i') = None"
      using free frame [of "data_block_path ?p i'"] by (simp add: ids_unused_def i_def)
  qed
  ultimately have "store_ok cf s' m' T" using cfg coh2 by (simp add: store_ok_def s'_def)
  then show ?thesis
    using run load lay kept frame by (auto simp: s'_def block_holds_def)
qed

lemma block_finish_empty: "bb_position bb = 0 \<Longrightarrow> block_finish cf s bb = Inr (s, None)"
  by (simp add: block_finish_def)

end
