(* ===== verification/Lsm_IndexBlock.thy ===== *)
theory Lsm_IndexBlock
  imports Lsm_Manifest
begin

text \<open>
  Index blocks (\<open>src/src/index_blocks.rs\<close>): the metadata of a sorted table, its key range and, for
  each of its data blocks, the first key and the identifier.

  The lemmas show that the accessors read back what \<open>IndexBlock::new\<close> laid out and that the search
  returns the last block whose first key is not greater than the key.
\<close>

section \<open>Layout and construction\<close>

record index_block_header =
  ih_size :: u64
  ih_min_key_len :: u32
  ih_max_key_len :: u32
  ih_num_data_blocks :: u32

record index_block =
  ib_data :: bytes

definition INDEX_HEADER_SIZE :: nat where "INDEX_HEADER_SIZE = 24"
definition INDEX_ENTRY_HEADER_SIZE :: nat where "INDEX_ENTRY_HEADER_SIZE = 16"

definition index_header_bytes :: "index_block_header \<Rightarrow> bytes" where
  "index_header_bytes h =
     u64_bytes (ih_size h) @ u32_bytes (ih_min_key_len h) @ u32_bytes (ih_max_key_len h) @
     u32_bytes (ih_num_data_blocks h) @ u32_bytes 0"

definition index_entry_header_bytes :: "u64 \<Rightarrow> u32 \<Rightarrow> bytes" where
  "index_entry_header_bytes block_id key_len = u64_bytes block_id @ u32_bytes key_len @ u32_bytes 0"

text \<open>One round of the loop of \<open>IndexBlock::new\<close>: note the offset of the entry, then append it.\<close>

definition index_push ::
    "nat \<Rightarrow> nat \<times> bytes \<Rightarrow> key \<times> u64 \<Rightarrow> (nat \<times> bytes) result" where
  "index_push offset_start = (\<lambda>(pos, block_data) (k, block_id).
     let entry_offset = of_nat (length block_data) :: u32 in
     bind_result (copy_into block_data (offset_start + pos * 4) (u32_bytes entry_offset)) (\<lambda>block_data.
     Inr (pos + 1, block_data @ index_entry_header_bytes block_id (of_nat (length k)) @ k)))"

definition index_block_data ::
    "(key \<times> u64) list \<Rightarrow> u64 \<Rightarrow> key \<Rightarrow> key \<Rightarrow> bytes result" where
  "index_block_data idx sz min_key max_key =
     (let header = \<lparr> ih_size = sz, ih_min_key_len = of_nat (length min_key),
                     ih_max_key_len = of_nat (length max_key),
                     ih_num_data_blocks = of_nat (length idx) \<rparr>;
          block_data = add_padding (index_header_bytes header @ min_key @ max_key);
          offset_start = length block_data;
          offset_len = pad_offset (length idx);
          block_data = block_data @ replicate (offset_len * 4) 0
      in bind_result (fold_result (index_push offset_start) (0, block_data) idx) (\<lambda>(_, data). Inr data))"

definition index_block_new ::
    "codec \<Rightarrow> params \<Rightarrow> fs \<Rightarrow> u64 \<Rightarrow> (key \<times> u64) list \<Rightarrow> u64 \<Rightarrow> key \<Rightarrow> key \<Rightarrow> (fs \<times> index_block) result" where
  "index_block_new c p fs table_id idx sz min_key max_key =
     bind_result (index_block_data idx sz min_key max_key) (\<lambda>block_data.
     Inr (disk_write c fs (index_block_path p table_id) block_data, \<lparr> ib_data = block_data \<rparr>))"

definition index_block_load :: "codec \<Rightarrow> params \<Rightarrow> fs \<Rightarrow> u64 \<Rightarrow> index_block result" where
  "index_block_load c p fs table_id =
     (case disk_read c fs (index_block_path p table_id) 0 of
        Inl err \<Rightarrow> Inl (Fail (from_io_error ''Failed to read index block'' err))
      | Inr data \<Rightarrow> Inr \<lparr> ib_data = data \<rparr>)"

section \<open>Accessors\<close>

definition index_header :: "index_block \<Rightarrow> index_block_header result" where
  "index_header ib =
     bind_result (slice (ib_data ib) 0 INDEX_HEADER_SIZE) (\<lambda>bs.
     Inr \<lparr> ih_size = u64_at bs 0, ih_min_key_len = u32_at bs 8, ih_max_key_len = u32_at bs 12,
           ih_num_data_blocks = u32_at bs 16 \<rparr>)"

definition get_entry_offset :: "index_block \<Rightarrow> nat \<Rightarrow> nat result" where
  "get_entry_offset ib pos =
     bind_result (index_header ib) (\<lambda>header.
     bind_result (assert_that (as_u32 pos < unat (ih_num_data_blocks header))
        ''assertion failed: (pos as u32) < header.num_data_blocks'') (\<lambda>_.
     let offset = INDEX_HEADER_SIZE + unat (ih_min_key_len header) + unat (ih_max_key_len header);
         offset_offset = pad_offset offset + pos * 4 in
     bind_result (slice (ib_data ib) offset_offset (offset_offset + 4)) (\<lambda>bs.
     Inr (unat (read_u32 bs)))))"

definition get_block_id :: "index_block \<Rightarrow> nat \<Rightarrow> u64 result" where
  "get_block_id ib pos =
     bind_result (get_entry_offset ib pos) (\<lambda>offset.
     bind_result (slice (ib_data ib) offset (offset + INDEX_ENTRY_HEADER_SIZE)) (\<lambda>bs.
     Inr (u64_at bs 0)))"

definition get_block_key :: "index_block \<Rightarrow> nat \<Rightarrow> key result" where
  "get_block_key ib pos =
     bind_result (get_entry_offset ib pos) (\<lambda>offset.
     bind_result (slice (ib_data ib) offset (offset + INDEX_ENTRY_HEADER_SIZE)) (\<lambda>bs.
     let key_start = offset + INDEX_ENTRY_HEADER_SIZE in
     slice (ib_data ib) key_start (key_start + unat (u32_at bs 8))))"

definition num_data_blocks :: "index_block \<Rightarrow> nat result" where
  "num_data_blocks ib = bind_result (index_header ib) (\<lambda>h. Inr (unat (ih_num_data_blocks h)))"

definition index_get_size :: "index_block \<Rightarrow> nat result" where
  "index_get_size ib = bind_result (index_header ib) (\<lambda>h. Inr (unat (ih_size h)))"

definition index_get_min :: "index_block \<Rightarrow> key result" where
  "index_get_min ib =
     bind_result (index_header ib) (\<lambda>h.
     slice (ib_data ib) INDEX_HEADER_SIZE (INDEX_HEADER_SIZE + unat (ih_min_key_len h)))"

definition index_get_max :: "index_block \<Rightarrow> key result" where
  "index_get_max ib =
     bind_result (index_header ib) (\<lambda>h.
     let key_offset = INDEX_HEADER_SIZE + unat (ih_min_key_len h) in
     slice (ib_data ib) key_offset (key_offset + unat (ih_max_key_len h)))"

section \<open>Search\<close>

function index_search_loop :: "index_block \<Rightarrow> key \<Rightarrow> nat \<Rightarrow> nat \<Rightarrow> (nat + nat \<times> nat) result" where
  "index_search_loop ib k start end =
     (if end - start > 1
      then
        let mid = (end - start) div 2 + start in
        case get_block_key ib mid of
          Inl e \<Rightarrow> Inl e
        | Inr mid_key \<Rightarrow>
            if mid_key = k then Inr (Inl mid)
            else if mid_key > k then index_search_loop ib k start mid
            else index_search_loop ib k mid end
      else Inr (Inr (start, end)))"
  by pat_completeness auto
termination
  by (relation "measure (\<lambda>(ib, k, start, end). end - start)") auto

declare index_search_loop.simps [simp del]

definition index_binary_search :: "index_block \<Rightarrow> key \<Rightarrow> u64 option result" where
  "index_binary_search ib k =
     bind_result (index_get_min ib) (\<lambda>min_key.
     bind_result (index_get_max ib) (\<lambda>max_key.
     if k < min_key \<or> k > max_key then Inr None
     else
       bind_result (num_data_blocks ib) (\<lambda>n.
       bind_result (checked_sub n 1) (\<lambda>end0.
       bind_result (index_search_loop ib k 0 end0) (\<lambda>r.
       case r of
         Inl mid \<Rightarrow> bind_result (get_block_id ib mid) (\<lambda>i. Inr (Some i))
       | Inr (start, end) \<Rightarrow>
           bind_result (get_block_key ib start) (\<lambda>start_key.
           bind_result (assert_that (k \<ge> start_key) ''assertion failed: key >= self.get_block_key(start)'') (\<lambda>_.
           bind_result (get_block_key ib end) (\<lambda>end_key.
           bind_result (get_block_id ib (if k \<ge> end_key then end else start)) (\<lambda>i.
           Inr (Some i))))))))))"

section \<open>What an index block holds\<close>

definition index_entry_bytes :: "key \<times> u64 \<Rightarrow> bytes" where
  "index_entry_bytes x = index_entry_header_bytes (snd x) (of_nat (length (fst x))) @ fst x"

definition index_entries_bytes :: "(key \<times> u64) list \<Rightarrow> bytes" where
  "index_entries_bytes xs = concat (map index_entry_bytes xs)"

definition index_prefix :: "(key \<times> u64) list \<Rightarrow> u64 \<Rightarrow> key \<Rightarrow> key \<Rightarrow> bytes" where
  "index_prefix idx sz min_key max_key =
     add_padding (index_header_bytes
        \<lparr> ih_size = sz, ih_min_key_len = of_nat (length min_key), ih_max_key_len = of_nat (length max_key),
          ih_num_data_blocks = of_nat (length idx) \<rparr> @ min_key @ max_key)"

text \<open>The offset of the entry with position \<open>j\<close>, and the list of the first \<open>n\<close> offsets.\<close>

definition index_off :: "nat \<Rightarrow> (key \<times> u64) list \<Rightarrow> nat \<Rightarrow> nat" where
  "index_off base idx j = base + length (index_entries_bytes (take j idx))"

definition index_offsets :: "nat \<Rightarrow> (key \<times> u64) list \<Rightarrow> nat \<Rightarrow> bytes" where
  "index_offsets base idx n = concat (map (\<lambda>j. u32_bytes (of_nat (index_off base idx j))) [0 ..< n])"

definition index_layout ::
    "bytes \<Rightarrow> (key \<times> u64) list \<Rightarrow> u64 \<Rightarrow> key \<Rightarrow> key \<Rightarrow> bool" where
  "index_layout data idx sz min_key max_key \<longleftrightarrow>
     (let pre = index_prefix idx sz min_key max_key; z = pad_offset (length idx) * 4;
          base = length pre + z in
      data = pre @ index_offsets base idx (length idx) @ replicate (z - 4 * length idx) 0 @
             index_entries_bytes idx \<and>
      length data < 2 ^ 32)"

definition index_holds :: "index_block \<Rightarrow> (key \<times> u64) list \<Rightarrow> u64 \<Rightarrow> key \<Rightarrow> key \<Rightarrow> bool" where
  "index_holds ib idx sz min_key max_key \<longleftrightarrow> index_layout (ib_data ib) idx sz min_key max_key"

lemma length_index_header_bytes [simp, codec_simps]: "length (index_header_bytes h) = INDEX_HEADER_SIZE"
  by (simp add: index_header_bytes_def INDEX_HEADER_SIZE_def)

lemma length_index_entry_header_bytes [simp, codec_simps]:
  "length (index_entry_header_bytes i n) = INDEX_ENTRY_HEADER_SIZE"
  by (simp add: index_entry_header_bytes_def INDEX_ENTRY_HEADER_SIZE_def)

lemma length_index_offsets [simp]: "length (index_offsets base idx n) = 4 * n"
  by (induction n) (simp_all add: index_offsets_def)

lemma length_index_prefix:
  "length (index_prefix idx sz mn mx) = pad_offset (INDEX_HEADER_SIZE + length mn + length mx)"
  by (simp add: index_prefix_def add.assoc)

lemma copy_into_zeros:
  assumes "i = length xs" and "length new \<le> n"
  shows "copy_into (xs @ replicate n 0 @ ys) i new = Inr (xs @ new @ replicate (n - length new) 0 @ ys)"
  using assms by (simp add: copy_into_def)

lemma index_push_loop:
  assumes "n + length rest = length idx" and "drop n idx = rest"
    and z: "4 * length idx \<le> z" and base: "base = length pre + z"
  shows "fold_result (index_push (length pre))
      (n, pre @ index_offsets base idx n @ replicate (z - 4 * n) 0 @ index_entries_bytes (take n idx)) rest =
    Inr (length idx, pre @ index_offsets base idx (length idx) @ replicate (z - 4 * length idx) 0 @
           index_entries_bytes idx)"
  using assms(1,2)
proof (induction rest arbitrary: n)
  case Nil
  then show ?case by simp
next
  case (Cons x rest)
  obtain k i where x: "x = (k, i)" by (cases x)
  have n: "n < length idx" using Cons.prems(1) by simp
  have xn: "idx ! n = x" using Cons.prems(2) n by (metis Cons_nth_drop_Suc list.inject)
  have step: "take (Suc n) idx = take n idx @ [x]" using n xn by (simp add: take_Suc_conv_app_nth)
  let ?data = "pre @ index_offsets base idx n @ replicate (z - 4 * n) 0 @ index_entries_bytes (take n idx)"
  have len: "length ?data = index_off base idx n"
    using z n base by (simp add: index_off_def)
  have "copy_into ((pre @ index_offsets base idx n) @ replicate (z - 4 * n) 0 @ index_entries_bytes (take n idx))
      (length pre + n * 4) (u32_bytes (of_nat (index_off base idx n))) =
      Inr ((pre @ index_offsets base idx n) @ u32_bytes (of_nat (index_off base idx n)) @
        replicate (z - 4 * n - length (u32_bytes (of_nat (index_off base idx n)))) 0 @
        index_entries_bytes (take n idx))"
    using z n by (intro copy_into_zeros) auto
  then have "index_push (length pre) (n, ?data) x =
      Inr (Suc n, pre @ index_offsets base idx (Suc n) @ replicate (z - 4 * Suc n) 0 @
        index_entries_bytes (take (Suc n) idx))"
    using len step x
    by (simp add: index_push_def index_offsets_def index_entries_bytes_def index_entry_bytes_def)
  moreover have "drop (Suc n) idx = rest" using Cons.prems(2) n by (metis Cons_nth_drop_Suc list.inject)
  ultimately show ?case using Cons.IH [of "Suc n"] Cons.prems(1) by simp
qed

lemma pad_offset_index: "4 * n \<le> pad_offset n * 4"
  using pad_offset_ge [of n] by simp

lemma index_block_data_ok:
  assumes "length (index_prefix idx sz mn mx) + pad_offset (length idx) * 4 +
      length (index_entries_bytes idx) < 2 ^ 32"
  shows "\<exists>data. index_block_data idx sz mn mx = Inr data \<and> index_layout data idx sz mn mx"
proof -
  let ?pre = "index_prefix idx sz mn mx" and ?z = "pad_offset (length idx) * 4"
  let ?base = "length ?pre + ?z"
  let ?data = "?pre @ index_offsets ?base idx (length idx) @ replicate (?z - 4 * length idx) 0 @
      index_entries_bytes idx"
  have "fold_result (index_push (length ?pre)) (0, ?pre @ replicate ?z 0) idx = Inr (length idx, ?data)"
    using index_push_loop [of 0 idx idx ?z ?base ?pre] pad_offset_index
    by (simp add: index_offsets_def index_entries_bytes_def)
  then have "index_block_data idx sz mn mx = Inr ?data"
    by (simp add: index_block_data_def Let_def index_prefix_def)
  moreover have "index_layout ?data idx sz mn mx"
    using assms pad_offset_index [of "length idx"] by (simp add: index_layout_def Let_def)
  ultimately show ?thesis by blast
qed

section \<open>The accessors read the layout\<close>

lemma index_holdsD:
  assumes "index_holds ib idx sz mn mx"
  defines "pre \<equiv> index_prefix idx sz mn mx" and "z \<equiv> pad_offset (length idx) * 4"
  shows "ib_data ib = pre @ index_offsets (length pre + z) idx (length idx) @
      replicate (z - 4 * length idx) 0 @ index_entries_bytes idx" "length (ib_data ib) < 2 ^ 32"
  using assms(1) unfolding index_holds_def index_layout_def Let_def pre_def z_def
  by blast+

lemma index_sizes:
  assumes "index_holds ib idx sz mn mx"
  shows "length mn < 2 ^ 32" "length mx < 2 ^ 32" "length idx < 2 ^ 32"
    "\<And>j. j < length idx \<Longrightarrow> length (fst (idx ! j)) < 2 ^ 32"
proof -
  note d = index_holdsD [OF assms]
  have len: "pad_offset (INDEX_HEADER_SIZE + length mn + length mx) + pad_offset (length idx) * 4 \<le>
      length (ib_data ib)"
    unfolding d(1) using pad_offset_index [of "length idx"] by (simp add: length_index_prefix)
  then show "length mn < 2 ^ 32" "length mx < 2 ^ 32" "length idx < 2 ^ 32"
    using d(2) pad_offset_ge [of "INDEX_HEADER_SIZE + length mn + length mx"] pad_offset_ge [of "length idx"]
    by linarith+
  fix j assume "j < length idx"
  then have "idx ! j \<in> set idx" by simp
  then have "length (index_entry_bytes (idx ! j)) \<le> length (index_entries_bytes idx)"
    unfolding index_entries_bytes_def length_concat map_map
    by (intro member_le_sum_list) auto
  also have "\<dots> \<le> length (ib_data ib)" unfolding d(1) by simp
  finally show "length (fst (idx ! j)) < 2 ^ 32" using d(2) by (simp add: index_entry_bytes_def)
qed

definition index_header_of :: "(key \<times> u64) list \<Rightarrow> u64 \<Rightarrow> key \<Rightarrow> key \<Rightarrow> index_block_header" where
  "index_header_of idx sz mn mx =
     \<lparr> ih_size = sz, ih_min_key_len = of_nat (length mn), ih_max_key_len = of_nat (length mx),
       ih_num_data_blocks = of_nat (length idx) \<rparr>"

lemma index_data_prefix:
  assumes "index_holds ib idx sz mn mx"
  obtains rest where "ib_data ib = index_header_bytes (index_header_of idx sz mn mx) @ mn @ mx @ rest"
  using that index_holdsD(1) [OF assms] by (simp add: index_prefix_def index_header_of_def add_padding_prefix)

lemma index_header_ok:
  assumes "index_holds ib idx sz mn mx"
  shows "index_header ib = Inr (index_header_of idx sz mn mx)"
proof -
  obtain rest where "ib_data ib = index_header_bytes (index_header_of idx sz mn mx) @ mn @ mx @ rest"
    using index_data_prefix [OF assms] .
  then have "slice (ib_data ib) 0 INDEX_HEADER_SIZE =
      Inr (index_header_bytes (index_header_of idx sz mn mx))"
    by (simp add: slice_def)
  then show ?thesis by (simp add: index_header_def) (simp add: index_header_bytes_def codec_simps)
qed

lemma index_header_of_fields:
  assumes "index_holds ib idx sz mn mx"
  shows "unat (ih_min_key_len (index_header_of idx sz mn mx)) = length mn"
    "unat (ih_max_key_len (index_header_of idx sz mn mx)) = length mx"
    "unat (ih_num_data_blocks (index_header_of idx sz mn mx)) = length idx"
    "ih_size (index_header_of idx sz mn mx) = sz"
  using index_sizes [OF assms] by (simp_all add: index_header_of_def)

lemma index_fields_ok:
  assumes "index_holds ib idx sz mn mx"
  shows "num_data_blocks ib = Inr (length idx)" "index_get_size ib = Inr (unat sz)"
    "index_get_min ib = Inr mn" "index_get_max ib = Inr mx"
proof -
  note small = index_header_of_fields [OF assms] and hdr = index_header_ok [OF assms]
  show "num_data_blocks ib = Inr (length idx)" "index_get_size ib = Inr (unat sz)"
    using small hdr by (simp_all add: num_data_blocks_def index_get_size_def)
  obtain rest where data: "ib_data ib = index_header_bytes (index_header_of idx sz mn mx) @ mn @ mx @ rest"
    using index_data_prefix [OF assms] .
  have "slice (ib_data ib) INDEX_HEADER_SIZE (INDEX_HEADER_SIZE + length mn) = Inr mn"
    "slice (ib_data ib) (INDEX_HEADER_SIZE + length mn) (INDEX_HEADER_SIZE + length mn + length mx) = Inr mx"
    unfolding data by (simp_all add: slice_def)
  then show "index_get_min ib = Inr mn" "index_get_max ib = Inr mx"
    using small hdr by (simp_all add: index_get_min_def index_get_max_def)
qed

lemma index_offsets_nth:
  "j < n \<Longrightarrow> take 4 (drop (4 * j) (index_offsets base idx n)) = u32_bytes (of_nat (index_off base idx j))"
proof (induction n)
  case (Suc n)
  have eq: "index_offsets base idx (Suc n) = index_offsets base idx n @ u32_bytes (of_nat (index_off base idx n))"
    by (simp add: index_offsets_def)
  show ?case
  proof (cases "j < n")
    case True
    then show ?thesis using Suc eq by simp
  next
    case False
    then have "j = n" using Suc.prems by simp
    then show ?thesis unfolding eq by simp
  qed
qed simp

lemma index_entries_split:
  "j < length idx \<Longrightarrow> index_entries_bytes idx =
     index_entries_bytes (take j idx) @ index_entry_bytes (idx ! j) @ index_entries_bytes (drop (Suc j) idx)"
  unfolding index_entries_bytes_def by (subst id_take_nth_drop [of j idx]) auto

lemma index_entry_at:
  assumes "index_holds ib idx sz mn mx" and "j < length idx"
  obtains xs ys where "ib_data ib = xs @ index_entry_bytes (idx ! j) @ ys"
    "get_entry_offset ib j = Inr (length xs)"
proof -
  let ?pre = "index_prefix idx sz mn mx" and ?z = "pad_offset (length idx) * 4"
  let ?base = "length ?pre + ?z"
  note d = index_holdsD [OF assms(1)] and small = index_header_of_fields [OF assms(1)]
  define xs where "xs = ?pre @ index_offsets ?base idx (length idx) @ replicate (?z - 4 * length idx) 0 @
      index_entries_bytes (take j idx)"
  have data: "ib_data ib = xs @ index_entry_bytes (idx ! j) @ index_entries_bytes (drop (Suc j) idx)"
    unfolding d(1) xs_def using index_entries_split [OF assms(2)] by simp
  have xs: "length xs = index_off ?base idx j"
    using pad_offset_index [of "length idx"] by (simp add: xs_def index_off_def)
  have off_small: "length xs < 2 ^ 32" using d(2) unfolding data by simp
  have "take 4 (drop (length ?pre + j * 4) (ib_data ib)) =
      take 4 (drop (4 * j) (index_offsets ?base idx (length idx)))"
    unfolding d(1) using assms(2) by (simp add: mult.commute)
  moreover have "length ?pre + j * 4 + 4 \<le> length (ib_data ib)"
    unfolding d(1) using assms(2) by simp
  ultimately have offs: "slice (ib_data ib) (length ?pre + j * 4) (length ?pre + j * 4 + 4) =
      Inr (u32_bytes (of_nat (length xs)))"
    using index_offsets_nth [OF assms(2), of ?base idx] xs by (simp add: slice_def)
  have "as_u32 j < length idx" using assms(2) index_sizes(3) [OF assms(1)] by simp
  then have "get_entry_offset ib j = Inr (length xs)"
    using index_header_ok [OF assms(1)] offs off_small
    unfolding get_entry_offset_def
    by (simp add: small length_index_prefix [of idx sz mn mx, symmetric] Let_def)
  then show thesis using that data by blast
qed

lemma index_entry_ok:
  assumes "index_holds ib idx sz mn mx" and "j < length idx"
  shows "get_block_id ib j = Inr (snd (idx ! j))" "get_block_key ib j = Inr (fst (idx ! j))"
proof -
  obtain xs ys where data: "ib_data ib = xs @ index_entry_bytes (idx ! j) @ ys"
    and off: "get_entry_offset ib j = Inr (length xs)"
    using index_entry_at [OF assms] .
  let ?h = "index_entry_header_bytes (snd (idx ! j)) (of_nat (length (fst (idx ! j))))"
  have hdr: "slice (ib_data ib) (length xs) (length xs + INDEX_ENTRY_HEADER_SIZE) = Inr ?h"
    unfolding data by (simp add: slice_def index_entry_bytes_def)
  have fields: "u64_at ?h 0 = snd (idx ! j)" "unat (u32_at ?h 8) = length (fst (idx ! j))"
    using index_sizes(4) [OF assms] by (simp_all add: index_entry_header_bytes_def codec_simps)
  have k: "slice (ib_data ib) (length xs + INDEX_ENTRY_HEADER_SIZE)
      (length xs + INDEX_ENTRY_HEADER_SIZE + length (fst (idx ! j))) = Inr (fst (idx ! j))"
    unfolding data by (simp add: slice_def index_entry_bytes_def)
  show "get_block_id ib j = Inr (snd (idx ! j))" using off hdr fields by (simp add: get_block_id_def)
  show "get_block_key ib j = Inr (fst (idx ! j))" using off hdr fields k by (simp add: get_block_key_def)
qed

section \<open>The search finds the block of a key\<close>

definition index_range :: "(key \<times> u64) list \<Rightarrow> key \<Rightarrow> nat \<Rightarrow> nat \<Rightarrow> bool" where
  "index_range idx k start end \<longleftrightarrow>
     start \<le> end \<and> end < length idx \<and> (start = 0 \<or> fst (idx ! start) \<le> k) \<and>
     (end = length idx - 1 \<or> k < fst (idx ! end))"

lemma index_search_loop_ok:
  assumes "index_holds ib idx sz mn mx"
  shows "index_range idx k start end \<Longrightarrow>
    (\<exists>i < length idx. fst (idx ! i) = k \<and> index_search_loop ib k start end = Inr (Inl i)) \<or>
    (\<exists>start' end'. index_search_loop ib k start end = Inr (Inr (start', end')) \<and>
       index_range idx k start' end' \<and> end' - start' \<le> 1)"
proof (induction "end - start" arbitrary: start "end" rule: less_induct)
  case less
  show ?case
  proof (cases "end - start > 1")
    case True
    define mid where "mid = (end - start) div 2 + start"
    have mid: "start < mid" "mid < end" using True by (auto simp: mid_def)
    then have bound: "mid < length idx" using less.prems by (auto simp: index_range_def)
    have body: "index_search_loop ib k start end =
        (if fst (idx ! mid) = k then Inr (Inl mid)
         else if fst (idx ! mid) > k then index_search_loop ib k start mid
         else index_search_loop ib k mid end)"
      unfolding index_search_loop.simps [of ib k start "end"] Let_def mid_def [symmetric]
      using True index_entry_ok(2) [OF assms bound] by simp
    consider (eq) "fst (idx ! mid) = k" | (lt) "fst (idx ! mid) < k" | (gt) "k < fst (idx ! mid)"
      by (rule linorder_cases)
    then show ?thesis
    proof cases
      case eq
      then show ?thesis using body bound by auto
    next
      case lt
      then have range: "index_range idx k mid end" using less.prems mid by (auto simp: index_range_def)
      have eq: "index_search_loop ib k start end = index_search_loop ib k mid end"
        unfolding body using lt by auto
      have "end - mid < end - start" using mid by linarith
      from less.hyps [OF this range] show ?thesis unfolding eq .
    next
      case gt
      then have range: "index_range idx k start mid" using less.prems mid by (auto simp: index_range_def)
      have eq: "index_search_loop ib k start end = index_search_loop ib k start mid"
        unfolding body using gt by auto
      have "mid - start < end - start" using mid by linarith
      from less.hyps [OF this range] show ?thesis unfolding eq .
    qed
  next
    case False
    then show ?thesis using less.prems by (subst index_search_loop.simps) auto
  qed
qed

text \<open>
  A key outside the range of the table is rejected; any other key that is not smaller than the first
  key of the first block is found in the last block that starts at or before it.
\<close>

definition block_of_key :: "(key \<times> u64) list \<Rightarrow> key \<Rightarrow> nat \<Rightarrow> bool" where
  "block_of_key idx k j \<longleftrightarrow>
     j < length idx \<and> fst (idx ! j) \<le> k \<and> (\<forall>i. j < i \<and> i < length idx \<longrightarrow> k < fst (idx ! i))"

lemma index_binary_search_outside:
  assumes "index_holds ib idx sz mn mx" and "k < mn \<or> mx < k"
  shows "index_binary_search ib k = Inr None"
  using index_fields_ok [OF assms(1)] assms(2) by (simp add: index_binary_search_def)

lemma index_binary_search_ok:
  assumes holds: "index_holds ib idx sz mn mx" and sorted: "sorted_strict (map fst idx)"
    and ne: "idx \<noteq> []" and inside: "mn \<le> k" "k \<le> mx" and first: "fst (idx ! 0) \<le> k"
  shows "\<exists>j. index_binary_search ib k = Inr (Some (snd (idx ! j))) \<and> block_of_key idx k j"
proof -
  note fields = index_fields_ok [OF holds] and entry = index_entry_ok [OF holds]
  have less: "fst (idx ! i) < fst (idx ! j) \<longleftrightarrow> i < j" if "i < length idx" "j < length idx" for i j
    using sorted_strict_nth_less_iff [OF sorted] that by simp
  have later: "k < fst (idx ! i)" if "k < fst (idx ! j)" "j \<le> i" "i < length idx" for i j
    using that less [of j i] by (cases "i = j") (auto intro: less_trans)
  have ifs: "\<not> (k < mn \<or> mx < k)" using inside by auto
  have "index_range idx k 0 (length idx - 1)" using ne by (simp add: index_range_def)
  from index_search_loop_ok [OF holds this] show ?thesis
  proof (elim disjE exE conjE)
    fix i assume i: "i < length idx" "fst (idx ! i) = k"
      and loop: "index_search_loop ib k 0 (length idx - 1) = Inr (Inl i)"
    have "block_of_key idx k i" using i less by (auto simp: block_of_key_def)
    moreover have "index_binary_search ib k = Inr (Some (snd (idx ! i)))"
      using fields ifs ne loop entry(1) [OF i(1)] by (simp add: index_binary_search_def Suc_le_eq)
    ultimately show ?thesis by blast
  next
    fix start "end"
    assume loop: "index_search_loop ib k 0 (length idx - 1) = Inr (Inr (start, end))"
      and range: "index_range idx k start end" and close: "end - start \<le> 1"
    have bounds: "start < length idx" "end < length idx" "start \<le> end"
      using range by (auto simp: index_range_def)
    have start: "fst (idx ! start) \<le> k" using range first by (auto simp: index_range_def)
    let ?j = "if k \<ge> fst (idx ! end) then end else start"
    have j: "?j < length idx" using bounds by simp
    have "index_binary_search ib k = Inr (Some (snd (idx ! ?j)))"
      using fields ifs ne loop entry [OF bounds(1)] entry [OF bounds(2)] start entry(1) [OF j]
      by (simp add: index_binary_search_def Suc_le_eq)
    moreover have "block_of_key idx k ?j"
    proof (cases "fst (idx ! end) \<le> k")
      case True
      then have "end = length idx - 1" using range by (auto simp: index_range_def)
      then show ?thesis using True bounds by (auto simp: block_of_key_def)
    next
      case False
      have "end \<le> Suc start" using close by simp
      then show ?thesis using False bounds start later [of "end"] by (auto simp: block_of_key_def)
    qed
    ultimately show ?thesis by blast
  qed
qed

text \<open>
  A key inside the recorded range but in front of the first block does not count as missing: the
  assertion behind the loop fails.
\<close>

lemma index_binary_search_gap:
  assumes holds: "index_holds ib idx sz mn mx" and sorted: "sorted_strict (map fst idx)"
    and ne: "idx \<noteq> []" and inside: "mn \<le> k" "k \<le> mx" and first: "k < fst (idx ! 0)"
  shows "index_binary_search ib k = Inl (Panic ''assertion failed: key >= self.get_block_key(start)'')"
proof -
  note fields = index_fields_ok [OF holds] and entry = index_entry_ok [OF holds]
  have ge: "k < fst (idx ! i)" if "i < length idx" for i
    using sorted_strict_nth_mono [OF sorted, of 0 i] that first ne by simp
  have ifs: "\<not> (k < mn \<or> mx < k)" using inside by auto
  have "index_range idx k 0 (length idx - 1)" using ne by (simp add: index_range_def)
  from index_search_loop_ok [OF holds this] show ?thesis
  proof (elim disjE exE conjE)
    fix i assume "i < length idx" "fst (idx ! i) = k"
    then show ?thesis using ge [of i] by simp
  next
    fix start "end"
    assume loop: "index_search_loop ib k 0 (length idx - 1) = Inr (Inr (start, end))"
      and range: "index_range idx k start end"
    have start: "start < length idx" using range by (auto simp: index_range_def)
    then have "\<not> fst (idx ! start) \<le> k" using ge [of start] by simp
    then show ?thesis
      using fields ifs ne loop entry(2) [OF start] by (simp add: index_binary_search_def Suc_le_eq)
  qed
qed

end
