(* ===== verification/Lsm_SortedTable.thy ===== *)
theory Lsm_SortedTable
  imports Lsm_BlockCache Lsm_IndexBlock
begin

text \<open>
  Sorted tables (\<open>src/src/sorted_table/mod.rs\<close>) and their builder (\<open>builder.rs\<close>), without the
  \<open>wisckey\<close> feature.

  The lemmas show that a table built from a strictly sorted list of entries is stored on disk in full:
  it can be loaded again, and a lookup returns the entry of the key or, when there is none, nothing.
\<close>

section \<open>Tables\<close>

type_synonym i32 = "32 word"

record sorted_table =
  tbl_identifier :: u64
  tbl_index :: index_block
  compaction_flag :: bool
  allowed_seeks :: i32

definition i32_mul :: "i32 \<Rightarrow> i32 \<Rightarrow> i32 result" where
  "i32_mul a b =
     (if - (2 ^ 31) \<le> sint a * sint b \<and> sint a * sint b < 2 ^ 31 then Inr (a * b)
      else Inl (Panic ''attempt to multiply with overflow''))"

definition initial_seeks :: "params \<Rightarrow> index_block \<Rightarrow> i32 result" where
  "initial_seeks p ib =
     (case seek_based_compaction p of
        Some count \<Rightarrow>
          bind_result (index_get_size ib) (\<lambda>sz. i32_mul (of_nat (max (sz div 1024) 1)) (of_nat count))
      | None \<Rightarrow> Inr 0)"

definition table_load :: "('c, 'bf) config \<Rightarrow> fs \<Rightarrow> u64 \<Rightarrow> sorted_table result" where
  "table_load cf fs identifier =
     bind_result (index_block_load (cf_codec cf) (cf_params cf) fs identifier) (\<lambda>ib.
     bind_result (initial_seeks (cf_params cf) ib) (\<lambda>seeks.
     Inr \<lparr> tbl_identifier = identifier, tbl_index = ib, compaction_flag = False, allowed_seeks = seeks \<rparr>))"

definition has_maximum_seeks :: "sorted_table \<Rightarrow> bool" where
  "has_maximum_seeks t \<longleftrightarrow> sint (allowed_seeks t) \<le> 0"

text \<open>\<open>compare_exchange(false, true)\<close> on the compaction flag, and its release.\<close>

definition table_maybe_start_compaction :: "sorted_table \<Rightarrow> sorted_table \<times> bool" where
  "table_maybe_start_compaction t =
     (if compaction_flag t then (t, False) else (t\<lparr> compaction_flag := True \<rparr>, True))"

definition abort_compaction :: "sorted_table \<Rightarrow> sorted_table result" where
  "abort_compaction t =
     bind_result (assert_that (compaction_flag t) ''Compaction flag was not set!'') (\<lambda>_.
     Inr (t\<lparr> compaction_flag := False \<rparr>))"

definition finish_fast_compaction :: "sorted_table \<Rightarrow> sorted_table result" where
  "finish_fast_compaction t =
     bind_result (assert_that (compaction_flag t) ''Compaction flag was not set!'') (\<lambda>_.
     Inr (t\<lparr> compaction_flag := False \<rparr>))"

definition table_get_size :: "sorted_table \<Rightarrow> nat result" where
  "table_get_size t = index_get_size (tbl_index t)"

definition table_get_min :: "sorted_table \<Rightarrow> key result" where
  "table_get_min t = index_get_min (tbl_index t)"

definition table_get_max :: "sorted_table \<Rightarrow> key result" where
  "table_get_max t = index_get_max (tbl_index t)"

definition table_get ::
    "('c, 'bf) config \<Rightarrow> 'c store \<Rightarrow> sorted_table \<Rightarrow> key
     \<Rightarrow> ('c store \<times> sorted_table \<times> 'bf data_entry option) run" where
  "table_get cf s t k =
     (let t = t\<lparr> allowed_seeks := allowed_seeks t - 1 \<rparr> in
      bind_run (Some (index_binary_search (tbl_index t) k)) (\<lambda>block_id.
      case block_id of
        None \<Rightarrow> Some (Inr (s, t, None))
      | Some block_id \<Rightarrow>
          bind_run (Some (get_block cf s block_id)) (\<lambda>(s, block).
          bind_run (get_by_key (cf_bloom cf) block k) (\<lambda>entry.
          Some (Inr (s, t, entry))))))"

definition table_overlaps :: "sorted_table \<Rightarrow> key \<Rightarrow> key \<Rightarrow> bool result" where
  "table_overlaps t mn mx =
     bind_result (table_get_max t) (\<lambda>t_max.
     if t_max \<ge> mn then bind_result (table_get_min t) (\<lambda>t_min. Inr (t_min \<le> mx)) else Inr False)"

section \<open>The builder\<close>

record 'bf table_builder =
  tb_identifier :: u64
  tb_min_key :: key
  tb_max_key :: key
  tb_data_block :: "'bf data_block_builder"
  tb_block_index :: "(key \<times> u64) list"
  tb_last_key :: key
  tb_block_entry_count :: nat
  tb_size :: nat
  tb_restart_count :: nat
  tb_index_key :: "key option"

definition table_builder_new :: "('c, 'bf) config \<Rightarrow> u64 \<Rightarrow> key \<Rightarrow> key \<Rightarrow> 'bf table_builder" where
  "table_builder_new cf identifier min_key max_key =
     \<lparr> tb_identifier = identifier, tb_min_key = min_key, tb_max_key = max_key,
       tb_data_block = block_builder_new (cf_bloom cf), tb_block_index = [], tb_last_key = [],
       tb_block_entry_count = 0, tb_size = 0, tb_restart_count = 0, tb_index_key = None \<rparr>"

text \<open>The loop that counts the leading bytes a key shares with the previous key of the block.\<close>

fun common_prefix_len :: "key \<Rightarrow> key \<Rightarrow> nat" where
  "common_prefix_len (x # xs) (y # ys) = (if x = y then Suc (common_prefix_len xs ys) else 0)"
| "common_prefix_len xs ys = 0"

definition table_add_entry ::
    "('c, 'bf) config \<Rightarrow> 'c store \<times> 'bf table_builder \<Rightarrow> key \<Rightarrow> u64 \<Rightarrow> u8 \<Rightarrow> bytes
     \<Rightarrow> ('c store \<times> 'bf table_builder) result" where
  "table_add_entry cf = (\<lambda>(s, tb) k seq op_type value.
     let tb = (if tb_index_key tb = None then tb\<lparr> tb_index_key := Some k \<rparr> else tb);
         (prefix_len, restart_count) =
           (if tb_restart_count tb = block_restart_interval (cf_params cf) then (0, 0)
            else (common_prefix_len k (tb_last_key tb), tb_restart_count tb));
         suffix = drop prefix_len k;
         tb = tb\<lparr> tb_block_entry_count := tb_block_entry_count tb + 1,
                  tb_restart_count := restart_count + 1, tb_last_key := k \<rparr> in
     bind_result
       (block_add_entry (cf_bloom cf) (cf_params cf) (tb_data_block tb) (prefixed_key_new prefix_len suffix)
          k seq op_type value) (\<lambda>data_block.
     if tb_block_entry_count tb \<ge> max_key_block_size (cf_params cf)
     then
       bind_result (block_finish cf s data_block) (\<lambda>(s, finished).
       bind_result (expect finished ''called `Option::unwrap()` on a `None` value'') (\<lambda>block_id.
       bind_result (expect (tb_index_key tb) ''called `Option::unwrap()` on a `None` value'') (\<lambda>index_key.
       Inr (s, tb\<lparr> tb_size := tb_size tb + length (bb_data data_block),
                    tb_data_block := block_builder_new (cf_bloom cf),
                    tb_block_index := tb_block_index tb @ [(index_key, block_id)],
                    tb_index_key := None, tb_block_entry_count := 0, tb_restart_count := 0,
                    tb_last_key := [] \<rparr>))))
     else Inr (s, tb\<lparr> tb_data_block := data_block \<rparr>)))"

definition table_add_value ::
    "('c, 'bf) config \<Rightarrow> 'c store \<times> 'bf table_builder \<Rightarrow> key \<Rightarrow> u64 \<Rightarrow> val
     \<Rightarrow> ('c store \<times> 'bf table_builder) result" where
  "table_add_value cf stb k seq value = table_add_entry cf stb k seq PUT_OP value"

definition table_add_deletion ::
    "('c, 'bf) config \<Rightarrow> 'c store \<times> 'bf table_builder \<Rightarrow> key \<Rightarrow> u64
     \<Rightarrow> ('c store \<times> 'bf table_builder) result" where
  "table_add_deletion cf stb k seq = table_add_entry cf stb k seq DELETE_OP []"

definition table_finish ::
    "('c, 'bf) config \<Rightarrow> 'c store \<times> 'bf table_builder \<Rightarrow> ('c store \<times> sorted_table) result" where
  "table_finish cf = (\<lambda>(s, tb).
     let block_size = length (bb_data (tb_data_block tb)) in
     bind_result (block_finish cf s (tb_data_block tb)) (\<lambda>(s, finished).
     bind_result
       (case finished of
          Some block_id \<Rightarrow>
            bind_result (expect (tb_index_key tb) ''called `Option::unwrap()` on a `None` value'') (\<lambda>index_key.
            Inr (tb\<lparr> tb_size := tb_size tb + block_size,
                     tb_block_index := tb_block_index tb @ [(index_key, block_id)], tb_index_key := None \<rparr>))
        | None \<Rightarrow> Inr tb) (\<lambda>tb.
     bind_result
       (index_block_new (cf_codec cf) (cf_params cf) (st_fs s) (tb_identifier tb) (tb_block_index tb)
          (of_nat (tb_size tb)) (tb_min_key tb) (tb_max_key tb)) (\<lambda>(fs, ib).
     bind_result (initial_seeks (cf_params cf) ib) (\<lambda>seeks.
     Inr (s\<lparr> st_fs := fs \<rparr>,
          \<lparr> tbl_identifier = tb_identifier tb, tbl_index = ib, compaction_flag = False,
            allowed_seeks = seeks \<rparr>))))))"

text \<open>
  The loop both users of the builder run: add every entry of a list, as a value or as a deletion.
\<close>

definition table_add ::
    "('c, 'bf) config \<Rightarrow> 'c store \<times> 'bf table_builder \<Rightarrow> key \<times> memtable_entry
     \<Rightarrow> ('c store \<times> 'bf table_builder) result" where
  "table_add cf stb = (\<lambda>(k, e).
     case e of
       Value seq v \<Rightarrow> table_add_value cf stb k seq v
     | Deletion seq \<Rightarrow> table_add_deletion cf stb k seq)"

section \<open>What a table holds\<close>

definition indexed_chunk :: "('c, 'bf) config \<Rightarrow> fs \<Rightarrow> key \<times> u64 \<Rightarrow> (key \<times> memtable_entry) list \<Rightarrow> bool" where
  "indexed_chunk cf fs x chunk \<longleftrightarrow>
     chunk \<noteq> [] \<and> fst x = fst (hd chunk) \<and>
     (\<exists>b. load_block cf fs (snd x) = Inr b \<and> block_holds (cf_bloom cf) b chunk)"

definition table_layout ::
    "('c, 'bf) config \<Rightarrow> fs \<Rightarrow> sorted_table \<Rightarrow> (key \<times> u64) list \<Rightarrow> (key \<times> memtable_entry) list list \<Rightarrow> bool" where
  "table_layout cf fs t idx chunks \<longleftrightarrow>
     chunks \<noteq> [] \<and> list_all2 (indexed_chunk cf fs) idx chunks \<and> sorted_strict (map fst (concat chunks)) \<and>
     (\<exists>sz. index_holds (tbl_index t) idx sz (fst (hd (concat chunks))) (fst (last (concat chunks))))"

definition table_holds :: "('c, 'bf) config \<Rightarrow> fs \<Rightarrow> sorted_table \<Rightarrow> (key \<times> memtable_entry) list \<Rightarrow> bool" where
  "table_holds cf fs t es \<longleftrightarrow> (\<exists>idx chunks. table_layout cf fs t idx chunks \<and> es = concat chunks)"

text \<open>An entry of a block stands for an entry of the table.\<close>

definition entry_denotes :: "'bf data_entry \<Rightarrow> memtable_entry \<Rightarrow> bool" where
  "entry_denotes e x \<longleftrightarrow>
     get_sequence_number e = Inr (entry_seq_number x) \<and> get_type e = Inr (entry_type_of x) \<and>
     get_value e = Inr (entry_value x)"

lemma indexed_chunk_kept:
  "blocks_kept (cf_params cf) fs fs' \<Longrightarrow> indexed_chunk cf fs x chunk \<Longrightarrow> indexed_chunk cf fs' x chunk"
  using load_block_kept [of cf fs fs'] unfolding indexed_chunk_def by blast

lemma indexed_chunks_kept:
  "blocks_kept (cf_params cf) fs fs' \<Longrightarrow> list_all2 (indexed_chunk cf fs) idx chunks \<Longrightarrow>
   list_all2 (indexed_chunk cf fs') idx chunks"
  using indexed_chunk_kept [of cf fs fs'] by (auto elim: list_all2_mono)

lemma table_layout_kept:
  "blocks_kept (cf_params cf) fs fs' \<Longrightarrow> table_layout cf fs t idx chunks \<Longrightarrow> table_layout cf fs' t idx chunks"
  using indexed_chunks_kept [of cf fs fs' idx chunks] by (simp add: table_layout_def)

lemma table_holds_kept:
  "blocks_kept (cf_params cf) fs fs' \<Longrightarrow> table_holds cf fs t es \<Longrightarrow> table_holds cf fs' t es"
  using table_layout_kept by (metis table_holds_def)

lemma table_holds_index: "tbl_index t' = tbl_index t \<Longrightarrow> table_holds cf fs t' es \<longleftrightarrow> table_holds cf fs t es"
  by (simp add: table_holds_def table_layout_def)

lemma table_layout_nonempty: "table_layout cf fs t idx chunks \<Longrightarrow> concat chunks \<noteq> []"
  by (cases chunks; cases idx) (auto simp: table_layout_def indexed_chunk_def)

lemma table_holdsD:
  assumes "table_holds cf fs t es"
  shows "es \<noteq> []" "sorted_strict (map fst es)" "table_get_min t = Inr (fst (hd es))"
    "table_get_max t = Inr (fst (last es))"
proof -
  obtain idx chunks where lay: "table_layout cf fs t idx chunks" and es: "es = concat chunks"
    using assms by (auto simp: table_holds_def)
  show "es \<noteq> []" using table_layout_nonempty [OF lay] es by simp
  obtain sz where ih: "index_holds (tbl_index t) idx sz (fst (hd es)) (fst (last es))"
    and sorted: "sorted_strict (map fst es)"
    using lay es by (auto simp: table_layout_def)
  show "sorted_strict (map fst es)" by (rule sorted)
  show "table_get_min t = Inr (fst (hd es))" "table_get_max t = Inr (fst (last es))"
    using index_fields_ok(3,4) [OF ih] by (simp_all add: table_get_min_def table_get_max_def)
qed

lemma table_overlaps_ok:
  assumes "table_holds cf fs t es"
  shows "table_overlaps t mn mx = Inr (mn \<le> fst (last es) \<and> fst (hd es) \<le> mx)"
  using table_holdsD(3,4) [OF assms] by (simp add: table_overlaps_def)

section \<open>Looking up a key\<close>

lemma concat_split:
  "j < length cs \<Longrightarrow> concat cs = concat (take j cs) @ cs ! j @ concat (drop (Suc j) cs)"
  by (metis concat.simps(2) concat_append id_take_nth_drop)

lemma chunk_hd_le:
  assumes "sorted_strict (map fst ys)" and "x \<in> set ys"
  shows "fst (hd ys) \<le> fst x"
  using assms by (cases ys) auto

lemma chunk_lookup:
  assumes sorted: "sorted_strict (map fst (concat cs))" and j: "j < length cs" and ne: "\<forall>c \<in> set cs. c \<noteq> []"
    and lo: "fst (hd (cs ! j)) \<le> k" and hi: "Suc j < length cs \<Longrightarrow> k < fst (hd (cs ! Suc j))"
  shows "map_of (concat cs) k = map_of (cs ! j) k"
proof -
  let ?A = "concat (take j cs)" and ?B = "concat (drop (Suc j) cs)"
  have split: "concat cs = ?A @ cs ! j @ ?B" using j by (rule concat_split)
  have sorted': "sorted_strict (map fst ?A @ map fst (cs ! j) @ map fst ?B)" using sorted split by simp
  have nej: "cs ! j \<noteq> []" using ne j by simp
  have "fst x < k" if "x \<in> set ?A" for x
  proof -
    have "fst (hd (cs ! j)) \<in> set (map fst (cs ! j) @ map fst ?B)" using nej by simp
    moreover have "fst x \<in> set (map fst ?A)" using that by force
    ultimately have "fst x < fst (hd (cs ! j))" using sorted' unfolding sorted_wrt_append by blast
    then show ?thesis using lo by (rule less_le_trans)
  qed
  then have "map_of ?A k = None" by (fastforce simp: map_of_eq_None_iff)
  moreover have "map_of ?B k = None"
  proof (cases "Suc j < length cs")
    case True
    have drop: "drop (Suc j) cs = cs ! Suc j # drop (Suc (Suc j)) cs" using True by (simp add: Cons_nth_drop_Suc)
    have "hd ?B = hd (cs ! Suc j)" using ne True drop by simp
    moreover have "sorted_strict (map fst ?B)" using sorted' unfolding sorted_wrt_append by blast
    ultimately have "k < fst x" if "x \<in> set ?B" for x
      using chunk_hd_le [of ?B x] that hi [OF True] by (metis less_le_trans)
    then show ?thesis by (fastforce simp: map_of_eq_None_iff)
  next
    case False
    then show ?thesis by simp
  qed
  ultimately show ?thesis unfolding split map_of_append map_add_def by (simp split: option.split)
qed

lemma chunk_sorted:
  assumes "sorted_strict (map fst (concat cs))" and "c \<in> set cs"
  shows "sorted_strict (map fst c)"
proof -
  obtain j where j: "j < length cs" "c = cs ! j" using assms(2) by (metis in_set_conv_nth)
  have "sorted_strict (map fst (concat (take j cs)) @ map fst c @ map fst (concat (drop (Suc j) cs)))"
    using assms(1) concat_split [OF j(1)] j(2) by (metis map_append)
  then show ?thesis unfolding sorted_wrt_append by blast
qed

lemma chunk_heads_sorted:
  assumes "sorted_strict (map fst (concat cs))" and "\<forall>c \<in> set cs. c \<noteq> []"
  shows "sorted_strict (map (fst \<circ> hd) cs)"
  using assms
proof (induction cs)
  case (Cons c cs)
  have sorted: "sorted_strict (map fst c @ map fst (concat cs))" using Cons.prems(1) by simp
  have "(fst \<circ> hd) c < (fst \<circ> hd) c'" if "c' \<in> set cs" for c'
  proof -
    have "hd c \<in> set c" "hd c' \<in> set c'" using Cons.prems(2) that by auto
    then have "hd c \<in> set c" "hd c' \<in> set (concat cs)" using that by auto
    then have "fst (hd c) \<in> set (map fst c)" "fst (hd c') \<in> set (map fst (concat cs))" by auto
    then show ?thesis using sorted unfolding sorted_wrt_append comp_def by blast
  qed
  moreover have "sorted_strict (map (fst \<circ> hd) cs)"
    using sorted Cons.prems(2) by (intro Cons.IH) (simp_all add: sorted_wrt_append)
  ultimately show ?case by (simp add: comp_def)
qed simp

lemma table_layoutD:
  assumes "table_layout cf fs t idx chunks"
  shows "length idx = length chunks" "idx \<noteq> []" "\<forall>c \<in> set chunks. c \<noteq> []"
    "map fst idx = map (fst \<circ> hd) chunks" "sorted_strict (map fst idx)"
    "\<And>j. j < length idx \<Longrightarrow> \<exists>b. load_block cf fs (snd (idx ! j)) = Inr b \<and> block_holds (cf_bloom cf) b (chunks ! j)"
proof -
  have all: "list_all2 (indexed_chunk cf fs) idx chunks" and ne: "chunks \<noteq> []"
    and sorted: "sorted_strict (map fst (concat chunks))"
    using assms by (simp_all add: table_layout_def)
  have len: "length idx = length chunks" using all by (rule list_all2_lengthD)
  have each: "indexed_chunk cf fs (idx ! j) (chunks ! j)" if "j < length idx" for j
    using all that by (rule list_all2_nthD)
  show "length idx = length chunks" by (rule len)
  show "idx \<noteq> []" using len ne by auto
  show nes: "\<forall>c \<in> set chunks. c \<noteq> []"
    using each len by (metis in_set_conv_nth indexed_chunk_def)
  show heads: "map fst idx = map (fst \<circ> hd) chunks"
    using each len by (intro nth_equalityI) (simp_all add: indexed_chunk_def)
  show "sorted_strict (map fst idx)"
    unfolding heads using sorted nes by (rule chunk_heads_sorted)
  show "\<And>j. j < length idx \<Longrightarrow> \<exists>b. load_block cf fs (snd (idx ! j)) = Inr b \<and> block_holds (cf_bloom cf) b (chunks ! j)"
    using each by (simp add: indexed_chunk_def)
qed

lemma block_lookup:
  assumes "block_holds bl b es" and "sorted_strict (map fst es)"
  shows "\<exists>r. get_by_key bl b k = Some (Inr r) \<and> rel_option entry_denotes r (map_of es k)"
proof -
  obtain ps where lay: "block_layout bl b ps es" using assms(1) by (auto simp: block_holds_def)
  show ?thesis
  proof (cases "k \<in> fst ` set es")
    case True
    then obtain i where i: "i < length es" "fst (es ! i) = k"
        "get_by_key bl b k = Some (Inr (Some (entry_at bl b ps es i)))"
      using get_by_key_ok [OF lay assms(2), of k] by blast
    have "map_of es k = Some (snd (es ! i))"
      using sorted_strict_distinct [OF assms(2)] i(1,2) by (metis map_of_is_SomeI nth_mem prod.collapse)
    then show ?thesis using i entry_accessors_ok [OF lay i(1)] by (simp add: entry_denotes_def)
  next
    case False
    then have "get_by_key bl b k = Some (Inr None)"
      using get_by_key_ok [OF lay assms(2), of k] by (metis image_eqI nth_mem)
    then show ?thesis using False by (simp add: map_of_eq_None_iff)
  qed
qed

lemma table_get_ok:
  assumes ok: "coherent cf s" and laws: "lru_laws (cf_lru cf)" and holds: "table_holds cf (st_fs s) t es"
  shows "\<exists>s' r. table_get cf s t k = Some (Inr (s', t\<lparr> allowed_seeks := allowed_seeks t - 1 \<rparr>, r)) \<and>
    st_fs s' = st_fs s \<and> coherent cf s' \<and> rel_option entry_denotes r (map_of es k)"
proof -
  obtain idx chunks where lay: "table_layout cf (st_fs s) t idx chunks" and es: "es = concat chunks"
    using holds by (auto simp: table_holds_def)
  note D = table_layoutD [OF lay]
  have sorted: "sorted_strict (map fst (concat chunks))" using lay by (simp add: table_layout_def)
  obtain sz where ih: "index_holds (tbl_index t) idx sz (fst (hd es)) (fst (last es))"
    using lay es by (auto simp: table_layout_def)
  have ne: "es \<noteq> []" using table_holdsD(1) [OF holds] .
  show ?thesis
  proof (cases "k < fst (hd es) \<or> fst (last es) < k")
    case True
    have "fst (hd es) \<le> fst x \<and> fst x \<le> fst (last es)" if "x \<in> set es" for x
    proof -
      obtain i where i: "i < length es" "x = es ! i" using \<open>x \<in> set es\<close> by (metis in_set_conv_nth)
      then have "map fst es ! 0 \<le> map fst es ! i" "map fst es ! i \<le> map fst es ! (length es - 1)"
        using sorted es by (intro sorted_strict_nth_mono; simp)+
      then show ?thesis using i ne by (simp add: hd_conv_nth last_conv_nth)
    qed
    then have "map_of es k = None" using True by (fastforce simp: map_of_eq_None_iff)
    then show ?thesis
      using index_binary_search_outside [OF ih True] ok by (simp add: table_get_def)
  next
    case False
    have "fst (idx ! 0) = fst (hd es)"
      using D(1-4) es by (cases chunks; cases idx) auto
    then obtain j where j: "index_binary_search (tbl_index t) k = Inr (Some (snd (idx ! j)))" "block_of_key idx k j"
      using index_binary_search_ok [OF ih D(5,2), of k] False by (auto simp: not_less)
    have jl: "j < length chunks" and lo: "fst (idx ! j) \<le> k" and hi: "\<And>i. j < i \<Longrightarrow> i < length idx \<Longrightarrow> k < fst (idx ! i)"
      using j(2) D(1) by (auto simp: block_of_key_def)
    have heads: "fst (idx ! i) = fst (hd (chunks ! i))" if "i < length chunks" for i
      using D(1,4) that by (metis comp_apply nth_map)
    have eq: "map_of es k = map_of (chunks ! j) k"
      unfolding es using sorted jl D(3) lo hi heads D(1) by (intro chunk_lookup) auto
    obtain b where b: "load_block cf (st_fs s) (snd (idx ! j)) = Inr b" "block_holds (cf_bloom cf) b (chunks ! j)"
      using D(6) [of j] jl D(1) by auto
    obtain s' where s': "get_block cf s (snd (idx ! j)) = Inr (s', b)" "st_fs s' = st_fs s" "coherent cf s'"
      using get_block_ok [OF ok laws b(1)] by blast
    obtain r where "get_by_key (cf_bloom cf) b k = Some (Inr r)" "rel_option entry_denotes r (map_of (chunks ! j) k)"
      using block_lookup [OF b(2) chunk_sorted [OF sorted]] jl by (metis nth_mem)
    then show ?thesis using j(1) s' eq by (simp add: table_get_def)
  qed
qed

section \<open>Building a table\<close>

text \<open>
  A bound on the bytes an entry contributes to the files of its table: its own bytes, and the header
  and index entry of a block in case it starts one. Block and index offsets are 32 bits wide, so the
  format holds tables whose weight is below \<open>2^32\<close>.
\<close>

definition entry_weight :: "key \<times> memtable_entry \<Rightarrow> nat" where
  "entry_weight x = 1200 + 3 * length (fst x) + length (entry_data_bytes (snd x))"

definition table_weight :: "(key \<times> memtable_entry) list \<Rightarrow> nat" where
  "table_weight es = sum_list (map entry_weight es)"

definition table_fits :: "(key \<times> memtable_entry) list \<Rightarrow> bool" where
  "table_fits es \<longleftrightarrow> table_weight es + 100 < 2 ^ 32"

definition seeks_fit :: "params \<Rightarrow> bool" where
  "seeks_fit p \<longleftrightarrow> (\<forall>count. seek_based_compaction p = Some count \<longrightarrow> count \<le> 512)"

definition table_building ::
    "('c, 'bf) config \<Rightarrow> fs \<Rightarrow> 'bf table_builder \<Rightarrow> (key \<times> memtable_entry) list list
     \<Rightarrow> (key \<times> memtable_entry) list \<Rightarrow> bool" where
  "table_building cf fs tb chunks cur \<longleftrightarrow>
     list_all2 (indexed_chunk cf fs) (tb_block_index tb) chunks \<and>
     (\<exists>ps. builder_holds (cf_bloom cf) (block_restart_interval (cf_params cf)) (tb_data_block tb) ps cur) \<and>
     tb_block_entry_count tb = length cur \<and>
     tb_index_key tb = (if cur = [] then None else Some (fst (hd cur))) \<and>
     tb_last_key tb = (if cur = [] then [] else fst (last cur)) \<and>
     (if cur = [] then tb_restart_count tb = 0
      else 0 < tb_restart_count tb \<and> tb_restart_count tb \<le> block_restart_interval (cf_params cf) \<and>
           length cur mod block_restart_interval (cf_params cf) =
           tb_restart_count tb mod block_restart_interval (cf_params cf)) \<and>
     tb_size tb \<le> table_weight (concat chunks)"

text \<open>What building a table leaves alone, and how it moves the block counter of the manifest.\<close>

definition only_blocks :: "params \<Rightarrow> fs \<Rightarrow> fs \<Rightarrow> bool" where
  "only_blocks p fs fs' \<longleftrightarrow>
     blocks_kept p fs fs' \<and>
     (\<forall>q. q \<noteq> manifest_path p \<and> (\<forall>i. q \<noteq> data_block_path p i) \<longrightarrow> fs' q = fs q)"

definition blocks_drawn :: "database_metadata \<Rightarrow> nat \<Rightarrow> database_metadata \<Rightarrow> bool" where
  "blocks_drawn m n m' \<longleftrightarrow>
     m' = m\<lparr> next_data_block_id := next_data_block_id m' \<rparr> \<and>
     unat (next_data_block_id m) \<le> unat (next_data_block_id m') \<and>
     unat (next_data_block_id m') \<le> unat (next_data_block_id m) + n"

lemma only_blocks_refl [simp]: "only_blocks p fs fs"
  by (simp add: only_blocks_def)

lemma only_blocks_trans: "only_blocks p fs fs1 \<Longrightarrow> only_blocks p fs1 fs2 \<Longrightarrow> only_blocks p fs fs2"
  using blocks_kept_trans by (simp add: only_blocks_def) blast

lemma blocks_drawn_refl [simp]: "blocks_drawn m n m"
  by (simp add: blocks_drawn_def)

lemma blocks_drawn_trans:
  assumes "blocks_drawn m n m1" and "blocks_drawn m1 n' m2"
  shows "blocks_drawn m (n + n') m2"
proof -
  have "m2 = m1\<lparr> next_data_block_id := next_data_block_id m2 \<rparr>"
    "m1 = m\<lparr> next_data_block_id := next_data_block_id m1 \<rparr>"
    using assms unfolding blocks_drawn_def by blast+
  then have "m2 = m\<lparr> next_data_block_id := next_data_block_id m2 \<rparr>"
    by (metis database_metadata.update_convs(6) database_metadata.surjective)
  then show ?thesis using assms unfolding blocks_drawn_def by linarith
qed

lemma table_weight_simps [simp]:
  "table_weight [] = 0" "table_weight (x # xs) = entry_weight x + table_weight xs"
  "table_weight (xs @ ys) = table_weight xs + table_weight ys"
  by (simp_all add: table_weight_def)

lemma header_length_bound: "header_length bl \<le> 1100"
  by (simp add: header_length_def BLOOM_LENGTH_def BLOOM_HEADER_SIZE_def split: bloom_feature.split)

lemma entries_bytes_weight:
  assumes "length ps = length es"
  shows "length (entries_bytes ps es) + 1150 * length es \<le> table_weight es"
  using assms
proof (induction ps es rule: list_induct2)
  case (Cons n ps x es)
  have "entries_bytes (n # ps) (x # es) = entry_bytes n x @ entries_bytes ps es"
    by (simp add: entries_bytes_def)
  moreover have "length (entry_bytes n x) + 1150 \<le> entry_weight x"
    by (simp add: length_entry_bytes entry_weight_def ENTRY_HEADER_SIZE_def)
  ultimately show ?case using Cons.IH by simp
qed (simp add: entries_bytes_def)

lemma num_restarts_le: "num_restarts interval n \<le> n"
proof (cases "interval = 0")
  case False
  then have "n + interval - 1 < (n + 1) * interval" by (cases interval) (simp_all add: algebra_simps)
  then show ?thesis using False by (simp add: num_restarts_def div_less_iff_less_mult less_Suc_eq_le [symmetric])
qed (simp add: num_restarts_def)

lemma builder_weight:
  assumes "builder_holds bl interval bb ps es"
  shows "length (bb_data bb) \<le> 1100 + table_weight es"
    "es \<noteq> [] \<Longrightarrow> length (bb_data bb) + 4 * length (bb_restart_list bb) \<le> table_weight es"
proof -
  have len: "length ps = length es" using assms by (simp add: builder_holds_def prefixes_ok_def)
  have data: "length (bb_data bb) = header_length bl + length (entries_bytes ps es)"
    and rl: "length (bb_restart_list bb) = num_restarts interval (length es)"
    using assms by (simp_all add: builder_holds_def restart_offsets_def)
  note w = entries_bytes_weight [OF len] and h = header_length_bound [of bl]
    and r = num_restarts_le [of interval "length es"]
  show "length (bb_data bb) \<le> 1100 + table_weight es" using data w h by linarith
  show "length (bb_data bb) + 4 * length (bb_restart_list bb) \<le> table_weight es" if "es \<noteq> []"
  proof -
    have "1 \<le> length es" using that by (simp add: Suc_le_eq)
    then show ?thesis using data rl w h r by linarith
  qed
qed

lemma common_prefix_len_le:
  "common_prefix_len xs ys \<le> length xs" "common_prefix_len xs ys \<le> length ys"
  by (induction xs ys rule: common_prefix_len.induct) simp_all

lemma common_prefix_len_take: "take (common_prefix_len xs ys) ys = take (common_prefix_len xs ys) xs"
  by (induction xs ys rule: common_prefix_len.induct) simp_all

lemma common_prefix_len_Nil [simp]: "common_prefix_len xs [] = 0"
  by (cases xs) simp_all

lemma table_building_new:
  assumes "config_ok cf"
  shows "table_building cf fs (table_builder_new cf i mn mx) [] []"
  using assms builder_holds_new [of "block_restart_interval (cf_params cf)" "cf_bloom cf"]
  by (auto simp: table_building_def table_builder_new_def config_ok_def)

lemma table_add_entry_eq:
  "table_add cf stb (k, e) = table_add_entry cf stb k (entry_seq_number e) (entry_op e) (entry_data_bytes e)"
  by (cases e) (simp_all add: table_add_def table_add_value_def table_add_deletion_def)

lemma restart_count_next:
  assumes "0 < (n::nat)" and "0 < r" and "r \<le> n" and "l mod n = r mod n"
  shows "Suc l mod n = Suc (if r = n then 0 else r) mod n" "l mod n = 0 \<longleftrightarrow> r = n"
proof -
  show "l mod n = 0 \<longleftrightarrow> r = n" using assms by (cases "r = n") auto
  have "Suc l mod n = Suc (r mod n) mod n" using assms(4) by (metis mod_Suc_eq)
  moreover have "Suc n mod n = Suc 0 mod n" by (metis mod_Suc_eq mod_self)
  ultimately show "Suc l mod n = Suc (if r = n then 0 else r) mod n" by (simp add: mod_Suc_eq)
qed

text \<open>The part of \<open>add_entry\<close> up to the test whether the block is full.\<close>

definition table_push ::
    "('c, 'bf) config \<Rightarrow> 'bf table_builder \<Rightarrow> key \<times> memtable_entry \<Rightarrow> 'bf data_block_builder \<Rightarrow> 'bf table_builder" where
  "table_push cf tb x bb =
     tb\<lparr> tb_index_key := Some (case tb_index_key tb of None \<Rightarrow> fst x | Some k \<Rightarrow> k),
         tb_block_entry_count := tb_block_entry_count tb + 1,
         tb_restart_count :=
           Suc (if tb_restart_count tb = block_restart_interval (cf_params cf) then 0 else tb_restart_count tb),
         tb_last_key := fst x, tb_data_block := bb \<rparr>"

lemma table_push_ok:
  assumes cfg: "config_ok cf" and inv: "table_building cf fs tb chunks cur"
    and fits: "table_fits (cur @ [(k, e)])"
  defines "n \<equiv> (if tb_restart_count tb = block_restart_interval (cf_params cf) then 0
                 else common_prefix_len k (tb_last_key tb))"
  shows "\<exists>bb. block_add_entry (cf_bloom cf) (cf_params cf) (tb_data_block tb) (prefixed_key_new n (drop n k)) k
           (entry_seq_number e) (entry_op e) (entry_data_bytes e) = Inr bb \<and>
         table_building cf fs (table_push cf tb (k, e) bb) chunks (cur @ [(k, e)])"
proof -
  let ?r = "block_restart_interval (cf_params cf)" and ?bl = "cf_bloom cf"
  obtain ps where holds: "builder_holds ?bl ?r (tb_data_block tb) ps cur"
    using inv by (auto simp: table_building_def)
  have pos: "0 < ?r" and laws: "bloom_laws ?bl" using cfg by (simp_all add: config_ok_def)
  have w: "table_weight cur + entry_weight (k, e) < 2 ^ 32" using fits by (simp add: table_fits_def)
  have k: "length k < 2 ^ 32" using w by (simp add: entry_weight_def)
  have size: "length (bb_data (tb_data_block tb)) < 2 ^ 32"
    using builder_weight(1) [OF holds] w by (simp add: entry_weight_def)
  have last: "tb_last_key tb = (if cur = [] then [] else fst (last cur))"
    using inv by (simp add: table_building_def)
  have count: "cur \<noteq> [] \<Longrightarrow> 0 < tb_restart_count tb \<and> tb_restart_count tb \<le> ?r \<and>
      length cur mod ?r = tb_restart_count tb mod ?r" "cur = [] \<Longrightarrow> tb_restart_count tb = 0"
    using inv by (auto simp: table_building_def split: if_splits)
  have n1: "n \<le> length k" using common_prefix_len_le(1) by (simp add: n_def)
  have n2: "n = 0" if "length cur mod ?r = 0"
  proof (cases "cur = []")
    case True
    then show ?thesis using last by (simp add: n_def)
  next
    case False
    then have "tb_restart_count tb = ?r"
      using count(1) restart_count_next(2) [OF pos, of "tb_restart_count tb" "length cur"] that by blast
    then show ?thesis by (simp add: n_def)
  qed
  have n3: "n \<le> length (fst (last cur)) \<and> take n (fst (last cur)) = take n k" if "cur \<noteq> []"
    using that last common_prefix_len_le(2) common_prefix_len_take by (simp add: n_def)
  obtain bb where bb: "block_add_entry ?bl (cf_params cf) (tb_data_block tb)
        (prefixed_key_new n (drop n k)) k (entry_seq_number e) (entry_op e) (entry_data_bytes e) = Inr bb"
      "builder_holds ?bl ?r bb (ps @ [n]) (cur @ [(k, e)])"
    using block_add_entry_ok [OF holds pos laws k n1 n2 n3 size] by blast
  have "Suc (length cur) mod ?r = Suc (if tb_restart_count tb = ?r then 0 else tb_restart_count tb) mod ?r"
    using count restart_count_next(1) [OF pos] pos by (cases "cur = []") auto
  moreover have "Suc (if tb_restart_count tb = ?r then 0 else tb_restart_count tb) \<le> ?r"
    using count pos by (cases "cur = []") (auto simp: Suc_le_eq)
  ultimately have "table_building cf fs (table_push cf tb (k, e) bb) chunks (cur @ [(k, e)])"
    using inv bb(2) by (auto simp: table_building_def table_push_def)
  then show ?thesis using bb(1) by blast
qed

lemma table_add_entry_push:
  assumes "block_add_entry (cf_bloom cf) (cf_params cf) (tb_data_block tb) (prefixed_key_new n (drop n k)) k
             (entry_seq_number e) (entry_op e) (entry_data_bytes e) = Inr bb"
    and "n = (if tb_restart_count tb = block_restart_interval (cf_params cf) then 0
              else common_prefix_len k (tb_last_key tb))"
  defines "tb' \<equiv> table_push cf tb (k, e) bb"
  shows "table_add cf (s, tb) (k, e) =
    (if tb_block_entry_count tb' \<ge> max_key_block_size (cf_params cf)
     then bind_result (block_finish cf s bb) (\<lambda>(s, finished).
          bind_result (expect finished ''called `Option::unwrap()` on a `None` value'') (\<lambda>block_id.
          bind_result (expect (tb_index_key tb') ''called `Option::unwrap()` on a `None` value'') (\<lambda>index_key.
          Inr (s, tb'\<lparr> tb_size := tb_size tb' + length (bb_data bb),
                        tb_data_block := block_builder_new (cf_bloom cf),
                        tb_block_index := tb_block_index tb' @ [(index_key, block_id)],
                        tb_index_key := None, tb_block_entry_count := 0, tb_restart_count := 0,
                        tb_last_key := [] \<rparr>))))
     else Inr (s, tb'))"
  using assms(1,2)
  by (auto simp: table_add_entry_eq table_add_entry_def tb'_def table_push_def Let_def split: option.split)

lemma store_okD:
  assumes "store_ok cf s m T"
  shows "config_ok cf" "coherent cf s" "lru_laws (cf_lru cf)" "manifest_ok False (cf_params cf) (st_fs s) m T"
  using assms by (simp_all add: store_ok_def config_ok_def)

text \<open>Closing the current block of a builder.\<close>

lemma close_block_ok:
  assumes ok: "store_ok cf s m T" and inv: "table_building cf (st_fs s) tb chunks cur"
    and fits: "table_fits cur" and ne: "cur \<noteq> []" and fresh: "unat (next_data_block_id m) < 2 ^ 64 - 1"
  shows "\<exists>s' i m'. block_finish cf s (tb_data_block tb) = Inr (s', Some i) \<and> store_ok cf s' m' T \<and>
      blocks_drawn m 1 m' \<and> only_blocks (cf_params cf) (st_fs s) (st_fs s') \<and>
      list_all2 (indexed_chunk cf (st_fs s')) (tb_block_index tb @ [(fst (hd cur), i)]) (chunks @ [cur]) \<and>
      tb_size tb + length (bb_data (tb_data_block tb)) \<le> table_weight (concat (chunks @ [cur]))"
proof -
  let ?p = "cf_params cf" and ?i = "next_data_block_id m"
  obtain ps where holds: "builder_holds (cf_bloom cf) (block_restart_interval ?p) (tb_data_block tb) ps cur"
    using inv by (auto simp: table_building_def)
  note w = builder_weight(2) [OF holds ne]
  have "length (bb_data (tb_data_block tb)) + 4 * length (bb_restart_list (tb_data_block tb)) < 2 ^ 32"
    using w fits by (simp add: table_fits_def)
  then obtain s' b where s': "block_finish cf s (tb_data_block tb) = Inr (s', Some ?i)"
      "store_ok cf s' (m\<lparr> next_data_block_id := ?i + 1 \<rparr>) T"
      "load_block cf (st_fs s') ?i = Inr b" "block_holds (cf_bloom cf) b cur"
      "blocks_kept ?p (st_fs s) (st_fs s')"
      "\<forall>q. q \<noteq> manifest_path ?p \<and> q \<noteq> data_block_path ?p ?i \<longrightarrow> st_fs s' q = st_fs s q"
    using block_finish_ok [OF ok holds ne _ fresh] by blast
  have "indexed_chunk cf (st_fs s') (fst (hd cur), ?i) cur"
    using s'(3,4) ne by (simp add: indexed_chunk_def)
  moreover have "list_all2 (indexed_chunk cf (st_fs s')) (tb_block_index tb) chunks"
    using inv indexed_chunks_kept [OF s'(5)] by (simp add: table_building_def)
  ultimately have "list_all2 (indexed_chunk cf (st_fs s')) (tb_block_index tb @ [(fst (hd cur), ?i)]) (chunks @ [cur])"
    by (simp add: list_all2_appendI)
  moreover have "blocks_drawn m 1 (m\<lparr> next_data_block_id := ?i + 1 \<rparr>)"
    using unat_succ_u64 [OF fresh] by (simp add: blocks_drawn_def)
  moreover have "only_blocks ?p (st_fs s) (st_fs s')" using s'(5,6) by (simp add: only_blocks_def)
  moreover have "tb_size tb + length (bb_data (tb_data_block tb)) \<le> table_weight (concat (chunks @ [cur]))"
    using inv w by (simp add: table_building_def)
  ultimately show ?thesis using s'(1,2) by blast
qed

lemma table_add_ok:
  assumes ok: "store_ok cf s m T" and inv: "table_building cf (st_fs s) tb chunks cur"
    and fits: "table_fits (concat chunks @ cur @ [x])" and fresh: "unat (next_data_block_id m) < 2 ^ 64 - 1"
  shows "\<exists>s' tb' chunks' cur' m'. table_add cf (s, tb) x = Inr (s', tb') \<and> store_ok cf s' m' T \<and>
      blocks_drawn m 1 m' \<and> only_blocks (cf_params cf) (st_fs s) (st_fs s') \<and>
      table_building cf (st_fs s') tb' chunks' cur' \<and> concat chunks' @ cur' = concat chunks @ cur @ [x] \<and>
      tb_identifier tb' = tb_identifier tb \<and> tb_min_key tb' = tb_min_key tb \<and> tb_max_key tb' = tb_max_key tb"
proof -
  obtain k e where x: "x = (k, e)" by (cases x)
  have cfg: "config_ok cf" using ok by (simp add: store_ok_def)
  have fits': "table_fits (cur @ [(k, e)])" using fits x by (simp add: table_fits_def)
  obtain bb n where n: "n = (if tb_restart_count tb = block_restart_interval (cf_params cf) then 0
        else common_prefix_len k (tb_last_key tb))"
    and bb: "block_add_entry (cf_bloom cf) (cf_params cf) (tb_data_block tb) (prefixed_key_new n (drop n k)) k
        (entry_seq_number e) (entry_op e) (entry_data_bytes e) = Inr bb"
    and push: "table_building cf (st_fs s) (table_push cf tb (k, e) bb) chunks (cur @ [(k, e)])"
    using table_push_ok [OF cfg inv fits'] by blast
  define tb1 where "tb1 = table_push cf tb (k, e) bb"
  have keep: "tb_identifier tb1 = tb_identifier tb" "tb_min_key tb1 = tb_min_key tb"
      "tb_max_key tb1 = tb_max_key tb" "tb_data_block tb1 = bb"
      "tb_index_key tb1 = Some (fst (hd (cur @ [(k, e)])))"
    using push by (simp_all add: tb1_def table_push_def table_building_def)
  note eq = table_add_entry_push [OF bb n, of s, folded tb1_def]
  show ?thesis
  proof (cases "tb_block_entry_count tb1 \<ge> max_key_block_size (cf_params cf)")
    case True
    obtain s' i m' where fin: "block_finish cf s bb = Inr (s', Some i)" "store_ok cf s' m' T"
        "blocks_drawn m 1 m'" "only_blocks (cf_params cf) (st_fs s) (st_fs s')"
        "list_all2 (indexed_chunk cf (st_fs s')) (tb_block_index tb1 @ [(fst (hd (cur @ [(k, e)])), i)])
           (chunks @ [cur @ [(k, e)]])"
        "tb_size tb1 + length (bb_data bb) \<le> table_weight (concat (chunks @ [cur @ [(k, e)]]))"
      using close_block_ok [OF ok push fits' _ fresh] keep(4) unfolding tb1_def [symmetric] by auto
    define tb2 where "tb2 = tb1\<lparr> tb_size := tb_size tb1 + length (bb_data bb),
        tb_data_block := block_builder_new (cf_bloom cf),
        tb_block_index := tb_block_index tb1 @ [(fst (hd (cur @ [(k, e)])), i)],
        tb_index_key := None, tb_block_entry_count := 0, tb_restart_count := 0, tb_last_key := [] \<rparr>"
    have "table_add cf (s, tb) x = Inr (s', tb2)"
      unfolding x eq using True fin(1) keep(5) by (simp add: tb2_def)
    moreover have "table_building cf (st_fs s') tb2 (chunks @ [cur @ [(k, e)]]) []"
      using fin(5,6) cfg builder_holds_new [of "block_restart_interval (cf_params cf)" "cf_bloom cf"]
      by (auto simp: table_building_def tb2_def config_ok_def)
    moreover have "tb_identifier tb2 = tb_identifier tb" "tb_min_key tb2 = tb_min_key tb" "tb_max_key tb2 = tb_max_key tb"
      using keep by (simp_all add: tb2_def)
    moreover have "concat (chunks @ [cur @ [(k, e)]]) @ [] = concat chunks @ cur @ [x]" by (simp add: x)
    ultimately show ?thesis using fin(2-4) by blast
  next
    case False
    then have "table_add cf (s, tb) x = Inr (s, tb1)" unfolding x eq by simp
    moreover have "concat chunks @ (cur @ [(k, e)]) = concat chunks @ cur @ [x]" by (simp add: x)
    ultimately show ?thesis
      using ok push [folded tb1_def] keep(1-3) blocks_drawn_refl only_blocks_refl by blast
  qed
qed

lemma table_adds_ok:
  assumes "store_ok cf s m T" and "table_building cf (st_fs s) tb chunks cur"
    and "table_fits (concat chunks @ cur @ es)" and "unat (next_data_block_id m) + length es < 2 ^ 64"
  shows "\<exists>s' tb' chunks' cur' m'. fold_result (table_add cf) (s, tb) es = Inr (s', tb') \<and> store_ok cf s' m' T \<and>
      blocks_drawn m (length es) m' \<and> only_blocks (cf_params cf) (st_fs s) (st_fs s') \<and>
      table_building cf (st_fs s') tb' chunks' cur' \<and> concat chunks' @ cur' = concat chunks @ cur @ es \<and>
      tb_identifier tb' = tb_identifier tb \<and> tb_min_key tb' = tb_min_key tb \<and> tb_max_key tb' = tb_max_key tb"
  using assms
proof (induction es arbitrary: s m tb chunks cur)
  case Nil
  have "concat chunks @ cur = concat chunks @ cur @ []" by simp
  then show ?case using Nil.prems blocks_drawn_refl only_blocks_refl unfolding fold_result.simps by blast
next
  case (Cons x es)
  have fits: "table_fits (concat chunks @ cur @ [x])" using Cons.prems(3) by (simp add: table_fits_def)
  have fresh: "unat (next_data_block_id m) < 2 ^ 64 - 1" using Cons.prems(4) by simp
  obtain s1 tb1 chunks1 cur1 m1 where 1: "table_add cf (s, tb) x = Inr (s1, tb1)" "store_ok cf s1 m1 T"
      "blocks_drawn m 1 m1" "only_blocks (cf_params cf) (st_fs s) (st_fs s1)"
      "table_building cf (st_fs s1) tb1 chunks1 cur1" "concat chunks1 @ cur1 = concat chunks @ cur @ [x]"
      "tb_identifier tb1 = tb_identifier tb" "tb_min_key tb1 = tb_min_key tb" "tb_max_key tb1 = tb_max_key tb"
    using table_add_ok [OF Cons.prems(1,2) fits fresh] by blast
  have all: "concat chunks1 @ cur1 @ es = concat chunks @ cur @ x # es" using 1(6) by (metis append.assoc append_Cons append_Nil)
  have "table_fits (concat chunks1 @ cur1 @ es)" unfolding all by (rule Cons.prems(3))
  moreover have "unat (next_data_block_id m1) + length es < 2 ^ 64"
    using Cons.prems(4) 1(3) by (simp add: blocks_drawn_def)
  ultimately obtain s' tb' chunks' cur' m' where 2: "fold_result (table_add cf) (s1, tb1) es = Inr (s', tb')"
      "store_ok cf s' m' T" "blocks_drawn m1 (length es) m'" "only_blocks (cf_params cf) (st_fs s1) (st_fs s')"
      "table_building cf (st_fs s') tb' chunks' cur'" "concat chunks' @ cur' = concat chunks1 @ cur1 @ es"
      "tb_identifier tb' = tb_identifier tb1" "tb_min_key tb' = tb_min_key tb1" "tb_max_key tb' = tb_max_key tb1"
    using Cons.IH [OF 1(2,5)] by blast
  have "fold_result (table_add cf) (s, tb) (x # es) = Inr (s', tb')" using 1(1) 2(1) by simp
  moreover have "blocks_drawn m (length (x # es)) m'" using blocks_drawn_trans [OF 1(3) 2(3)] by simp
  moreover have "only_blocks (cf_params cf) (st_fs s) (st_fs s')" using 1(4) 2(4) by (rule only_blocks_trans)
  ultimately show ?case using 2(2,5-9) 1(7-9) all by metis
qed

section \<open>Finishing and loading a table\<close>

definition only_table :: "params \<Rightarrow> u64 \<Rightarrow> fs \<Rightarrow> fs \<Rightarrow> bool" where
  "only_table p i fs fs' \<longleftrightarrow>
     blocks_kept p fs fs' \<and>
     (\<forall>q. q \<noteq> manifest_path p \<and> (\<forall>j. q \<noteq> data_block_path p j) \<and> q \<noteq> index_block_path p i \<longrightarrow> fs' q = fs q)"

lemma store_ok_frame:
  assumes ok: "store_ok cf s m T" and man: "manifest_ok False (cf_params cf) fs' m' T'"
    and blocks: "\<And>i. fs' (data_block_path (cf_params cf) i) = st_fs s (data_block_path (cf_params cf) i)"
    and nxt: "next_data_block_id m' = next_data_block_id m"
  shows "store_ok cf (s\<lparr> st_fs := fs' \<rparr>) m' T'"
proof -
  have "load_block cf fs' i = load_block cf (st_fs s) i" for i using blocks by (rule load_block_cong)
  then show ?thesis using ok man blocks nxt by (simp add: store_ok_def coherent_def ids_unused_def)
qed

lemma sint_of_nat_i32: "n < 2 ^ 31 \<Longrightarrow> sint (of_nat n :: i32) = int n"
  by (simp add: signed_of_nat signed_take_bit_int_eq_self)

lemma initial_seeks_ok:
  assumes "index_holds ib idx sz mn mx" and "unat sz < 2 ^ 32" and "seeks_fit p"
  shows "\<exists>seeks. initial_seeks p ib = Inr seeks"
proof (cases "seek_based_compaction p")
  case (Some count)
  let ?a = "max (unat sz div 1024) 1"
  have a: "?a < 2 ^ 22" using assms(2) by (simp add: div_less_iff_less_mult)
  have c: "count \<le> 512" using assms(3) Some by (simp add: seeks_fit_def)
  have "?a * count \<le> (2 ^ 22 - 1) * 512" using a c by (intro mult_mono) auto
  then have "int ?a * int count < 2 ^ 31" by (simp flip: of_nat_mult)
  moreover have "0 \<le> int ?a * int count" by simp
  moreover have "sint (of_nat ?a :: i32) = int ?a" "sint (of_nat count :: i32) = int count"
    using a c by (intro sint_of_nat_i32; simp)+
  ultimately have "i32_mul (of_nat ?a) (of_nat count) = Inr (of_nat ?a * of_nat count)"
    unfolding i32_mul_def by (simp del: of_nat_max of_nat_0_le_iff mult_nonneg_nonneg)
  then show ?thesis using Some index_fields_ok(2) [OF assms(1)] by (simp add: initial_seeks_def)
qed (simp add: initial_seeks_def)

lemma sum_list_weight: "sum_list (map (\<lambda>x. length (fst x)) es) * 3 \<le> table_weight es"
  by (induction es) (simp_all add: entry_weight_def)

lemma length_key_le: "x \<in> set es \<Longrightarrow> length (fst x) \<le> sum_list (map (\<lambda>x. length (fst x)) es)"
  by (induction es) auto

lemma index_weight:
  assumes "list_all2 (indexed_chunk cf fs) idx chunks"
  shows "length (index_entries_bytes idx) + 4 * length idx + 2 * sum_list (map (\<lambda>x. length (fst x)) (concat chunks))
     \<le> table_weight (concat chunks)"
  using assms
proof (induction rule: list_all2_induct)
  case (Cons x idx c chunks)
  obtain y ys where c: "c = y # ys" "fst x = fst y"
    using Cons.hyps(1) by (cases c) (auto simp: indexed_chunk_def)
  have "2 * sum_list (map (\<lambda>x. length (fst x)) ys) \<le> table_weight ys" using sum_list_weight [of ys] by simp
  then show ?case
    using Cons.IH c by (simp add: index_entries_bytes_def index_entry_bytes_def entry_weight_def
        INDEX_ENTRY_HEADER_SIZE_def)
qed (simp add: index_entries_bytes_def)

lemma pad_offset_le: "pad_offset n \<le> n + 7"
  using compute_padding_less [of n] by (simp add: pad_offset_def WORD_SIZE_def)

lemma table_index_ok:
  assumes chunks: "list_all2 (indexed_chunk cf fs) idx chunks" and ne: "concat chunks \<noteq> []"
    and fits: "table_fits (concat chunks)"
  shows "\<exists>data. index_block_data idx sz (fst (hd (concat chunks))) (fst (last (concat chunks))) = Inr data \<and>
      index_layout data idx sz (fst (hd (concat chunks))) (fst (last (concat chunks)))"
proof (rule index_block_data_ok)
  let ?es = "concat chunks"
  have "length (fst (hd ?es)) \<le> sum_list (map (\<lambda>x. length (fst x)) ?es)"
    "length (fst (last ?es)) \<le> sum_list (map (\<lambda>x. length (fst x)) ?es)"
    using length_key_le [of "hd ?es" ?es] length_key_le [of "last ?es" ?es] hd_in_set [OF ne] last_in_set [OF ne]
    by blast+
  then show "length (index_prefix idx sz (fst (hd ?es)) (fst (last ?es))) + pad_offset (length idx) * 4 +
      length (index_entries_bytes idx) < 2 ^ 32"
    using index_weight [OF chunks] fits pad_offset_le [of "length idx"]
      pad_offset_le [of "INDEX_HEADER_SIZE + length (fst (hd ?es)) + length (fst (last ?es))"]
    unfolding length_index_prefix table_fits_def INDEX_HEADER_SIZE_def by linarith
qed

text \<open>The last part of \<open>finish\<close>, once every block is stored: write the index block.\<close>

lemma table_index_stored:
  assumes ok: "store_ok cf s m T" and chunks: "list_all2 (indexed_chunk cf (st_fs s)) idx chunks"
    and es: "es = concat chunks" "es \<noteq> []" "sorted_strict (map fst es)" and fits: "table_fits es"
    and size: "sz \<le> table_weight es" and seeks: "seeks_fit (cf_params cf)"
  defines "p \<equiv> cf_params cf"
  shows "\<exists>fs' ib n. index_block_new (cf_codec cf) p (st_fs s) i idx (of_nat sz) (fst (hd es)) (fst (last es)) = Inr (fs', ib) \<and>
      initial_seeks p ib = Inr n \<and> store_ok cf (s\<lparr> st_fs := fs' \<rparr>) m T \<and> only_table p i (st_fs s) fs' \<and>
      table_load cf fs' i = Inr \<lparr> tbl_identifier = i, tbl_index = ib, compaction_flag = False, allowed_seeks = n \<rparr> \<and>
      table_holds cf fs' \<lparr> tbl_identifier = i, tbl_index = ib, compaction_flag = False, allowed_seeks = n \<rparr> es"
proof -
  obtain data where data: "index_block_data idx (of_nat sz) (fst (hd es)) (fst (last es)) = Inr data"
      "index_layout data idx (of_nat sz) (fst (hd es)) (fst (last es))"
    using table_index_ok [OF chunks] es fits by blast
  define ib where "ib = \<lparr> ib_data = data \<rparr>"
  define fs' where "fs' = disk_write (cf_codec cf) (st_fs s) (index_block_path p i) data"
  have ih: "index_holds ib idx (of_nat sz) (fst (hd es)) (fst (last es))"
    using data(2) by (simp add: index_holds_def ib_def)
  have "unat (of_nat sz :: u64) < 2 ^ 32" using size fits by (simp add: table_fits_def)
  then obtain n where n: "initial_seeks p ib = Inr n"
    using initial_seeks_ok [OF ih _ seeks] by (auto simp: p_def)
  have new: "index_block_new (cf_codec cf) p (st_fs s) i idx (of_nat sz) (fst (hd es)) (fst (last es)) = Inr (fs', ib)"
    using data(1) by (simp add: index_block_new_def ib_def fs'_def)
  have blocks: "fs' (data_block_path p j) = st_fs s (data_block_path p j)" for j
    by (simp add: fs'_def disk_write_apply)
  have "manifest_ok False p fs' m T"
    using store_okD(4) [OF ok, folded p_def]
    by (rule manifest_ok_frame) (simp_all add: fs'_def disk_write_apply)
  then have ok': "store_ok cf (s\<lparr> st_fs := fs' \<rparr>) m T"
    using store_ok_frame [OF ok] blocks by (simp add: p_def)
  have only: "only_table p i (st_fs s) fs'"
    by (simp add: only_table_def blocks_kept_def fs'_def disk_write_apply)
  have "codec_laws (cf_codec cf)" using store_okD(1) [OF ok] by (simp add: config_ok_def)
  then have "index_block_load (cf_codec cf) p fs' i = Inr ib"
    by (simp add: index_block_load_def fs'_def ib_def)
  then have load: "table_load cf fs' i =
      Inr \<lparr> tbl_identifier = i, tbl_index = ib, compaction_flag = False, allowed_seeks = n \<rparr>"
    using n by (simp add: table_load_def p_def)
  have "list_all2 (indexed_chunk cf fs') idx chunks"
  proof (rule indexed_chunks_kept [OF _ chunks])
    show "blocks_kept (cf_params cf) (st_fs s) fs'" using only by (simp add: only_table_def p_def)
  qed
  then have "table_layout cf fs' \<lparr> tbl_identifier = i, tbl_index = ib, compaction_flag = False, allowed_seeks = n \<rparr> idx chunks"
    using ih es by (auto simp: table_layout_def)
  then have "table_holds cf fs' \<lparr> tbl_identifier = i, tbl_index = ib, compaction_flag = False, allowed_seeks = n \<rparr> es"
    using es(1) by (auto simp: table_holds_def)
  then show ?thesis using new n ok' only load by blast
qed

lemma table_finish_ok:
  assumes ok: "store_ok cf s m T" and inv: "table_building cf (st_fs s) tb chunks cur"
    and es: "es = concat chunks @ cur" "es \<noteq> []" "sorted_strict (map fst es)"
    and range: "tb_min_key tb = fst (hd es)" "tb_max_key tb = fst (last es)"
    and fits: "table_fits es" and seeks: "seeks_fit (cf_params cf)"
    and fresh: "unat (next_data_block_id m) < 2 ^ 64 - 1"
  shows "\<exists>s' t m'. table_finish cf (s, tb) = Inr (s', t) \<and> store_ok cf s' m' T \<and> blocks_drawn m 1 m' \<and>
      only_table (cf_params cf) (tb_identifier tb) (st_fs s) (st_fs s') \<and>
      table_load cf (st_fs s') (tb_identifier tb) = Inr t \<and> table_holds cf (st_fs s') t es \<and>
      tbl_identifier t = tb_identifier tb \<and> \<not> compaction_flag t"
proof (cases "cur = []")
  case True
  have chunks: "list_all2 (indexed_chunk cf (st_fs s)) (tb_block_index tb) chunks"
    and size: "tb_size tb \<le> table_weight es" and pos: "bb_position (tb_data_block tb) = 0"
    using inv es(1) True by (auto simp: table_building_def builder_holds_def)
  have "es = concat chunks" using es(1) True by simp
  from table_index_stored [OF ok chunks this es(2,3) fits size seeks, of "tb_identifier tb"]
  show ?thesis
    using range block_finish_empty [OF pos, of cf s] by (fastforce simp: table_finish_def)
next
  case False
  have fits_cur: "table_fits cur" using fits es(1) by (simp add: table_fits_def)
  obtain s1 i m1 where 1: "block_finish cf s (tb_data_block tb) = Inr (s1, Some i)" "store_ok cf s1 m1 T"
      "blocks_drawn m 1 m1" "only_blocks (cf_params cf) (st_fs s) (st_fs s1)"
      "list_all2 (indexed_chunk cf (st_fs s1)) (tb_block_index tb @ [(fst (hd cur), i)]) (chunks @ [cur])"
      "tb_size tb + length (bb_data (tb_data_block tb)) \<le> table_weight (concat (chunks @ [cur]))"
    using close_block_ok [OF ok inv fits_cur False fresh] by blast
  have key: "tb_index_key tb = Some (fst (hd cur))" using inv False by (simp add: table_building_def)
  have all: "es = concat (chunks @ [cur])" using es(1) by simp
  obtain fs' ib n where 2: "index_block_new (cf_codec cf) (cf_params cf) (st_fs s1) (tb_identifier tb)
        (tb_block_index tb @ [(fst (hd cur), i)]) (of_nat (tb_size tb + length (bb_data (tb_data_block tb))))
        (fst (hd es)) (fst (last es)) = Inr (fs', ib)"
      "initial_seeks (cf_params cf) ib = Inr n" "store_ok cf (s1\<lparr> st_fs := fs' \<rparr>) m1 T"
      "only_table (cf_params cf) (tb_identifier tb) (st_fs s1) fs'"
      "table_load cf fs' (tb_identifier tb) =
         Inr \<lparr> tbl_identifier = tb_identifier tb, tbl_index = ib, compaction_flag = False, allowed_seeks = n \<rparr>"
      "table_holds cf fs' \<lparr> tbl_identifier = tb_identifier tb, tbl_index = ib, compaction_flag = False, allowed_seeks = n \<rparr> es"
    using table_index_stored [OF 1(2,5) all es(2,3) fits 1(6) [folded all] seeks] by metis
  have "table_finish cf (s, tb) = Inr (s1\<lparr> st_fs := fs' \<rparr>,
      \<lparr> tbl_identifier = tb_identifier tb, tbl_index = ib, compaction_flag = False, allowed_seeks = n \<rparr>)"
    using 1(1) key 2(1,2) range by (simp add: table_finish_def)
  moreover have "only_table (cf_params cf) (tb_identifier tb) (st_fs s) fs'"
    using 1(4) 2(4) blocks_kept_trans unfolding only_table_def only_blocks_def by metis
  ultimately show ?thesis using 2(3,5,6) 1(3) by fastforce
qed

text \<open>From the new builder to the finished table.\<close>

definition build_table ::
    "('c, 'bf) config \<Rightarrow> 'c store \<Rightarrow> u64 \<Rightarrow> key \<Rightarrow> key \<Rightarrow> (key \<times> memtable_entry) list \<Rightarrow> ('c store \<times> sorted_table) result" where
  "build_table cf s i mn mx es =
     bind_result (fold_result (table_add cf) (s, table_builder_new cf i mn mx) es) (table_finish cf)"

lemma build_table_ok:
  assumes ok: "store_ok cf s m T" and es: "es \<noteq> []" "sorted_strict (map fst es)"
    and fits: "table_fits es" and seeks: "seeks_fit (cf_params cf)"
    and fresh: "unat (next_data_block_id m) + length es < 2 ^ 64 - 1"
  shows "\<exists>s' t m'. build_table cf s i (fst (hd es)) (fst (last es)) es = Inr (s', t) \<and> store_ok cf s' m' T \<and>
      blocks_drawn m (Suc (length es)) m' \<and> only_table (cf_params cf) i (st_fs s) (st_fs s') \<and>
      table_load cf (st_fs s') i = Inr t \<and> table_holds cf (st_fs s') t es \<and>
      tbl_identifier t = i \<and> \<not> compaction_flag t"
proof -
  define tb where "tb = table_builder_new cf i (fst (hd es)) (fst (last es))"
  have inv: "table_building cf (st_fs s) tb [] []"
    using table_building_new store_okD(1) [OF ok] by (simp add: tb_def)
  obtain s1 tb1 chunks cur m1 where 1: "fold_result (table_add cf) (s, tb) es = Inr (s1, tb1)" "store_ok cf s1 m1 T"
      "blocks_drawn m (length es) m1" "only_blocks (cf_params cf) (st_fs s) (st_fs s1)"
      "table_building cf (st_fs s1) tb1 chunks cur" "concat chunks @ cur = es"
      "tb_identifier tb1 = tb_identifier tb" "tb_min_key tb1 = tb_min_key tb" "tb_max_key tb1 = tb_max_key tb"
    using table_adds_ok [OF ok inv, of es] fits fresh by auto
  have "unat (next_data_block_id m1) < 2 ^ 64 - 1" using 1(3) fresh by (simp add: blocks_drawn_def)
  from table_finish_ok [OF 1(2,5) 1(6) [symmetric] es _ _ fits seeks this]
  obtain s' t m' where 2: "table_finish cf (s1, tb1) = Inr (s', t)" "store_ok cf s' m' T" "blocks_drawn m1 1 m'"
      "only_table (cf_params cf) i (st_fs s1) (st_fs s')" "table_load cf (st_fs s') i = Inr t"
      "table_holds cf (st_fs s') t es" "tbl_identifier t = i" "\<not> compaction_flag t"
    using 1(7-9) by (auto simp: tb_def table_builder_new_def)
  have "only_table (cf_params cf) i (st_fs s) (st_fs s')"
    using 1(4) 2(4) blocks_kept_trans unfolding only_table_def only_blocks_def by metis
  moreover have "build_table cf s i (fst (hd es)) (fst (last es)) es = Inr (s', t)"
    using 1(1) 2(1) by (simp add: build_table_def tb_def)
  moreover have "blocks_drawn m (Suc (length es)) m'" using blocks_drawn_trans [OF 1(3) 2(3)] by simp
  ultimately show ?thesis using 2 by blast
qed

end
