(* ===== verification/Lsm_TableIterator.thy ===== *)
theory Lsm_TableIterator
  imports Lsm_SortedTable
begin

text \<open>
  The iterator over a sorted table (\<open>TableIterator\<close> of \<open>src/src/sorted_table/iterator.rs\<close>), forward and
  reverse, without the \<open>wisckey\<close> feature.

  The iterator reads its blocks through the cache; since the caches are transparent
  (\<open>Lsm_BlockCache\<close>), its operations are stated over the block files. It is an instance of the
  interface of internal iterators, so that every lemma of the interface holds for it.
\<close>

section \<open>The operations\<close>

record 'bf table_iterator =
  ti_block_pos :: int
  ti_block_offset :: nat
  ti_key :: key
  ti_entry :: "'bf data_entry"
  ti_table :: sorted_table
  ti_reverse :: bool

definition table_block :: "('c, 'bf) config \<Rightarrow> fs \<Rightarrow> sorted_table \<Rightarrow> nat \<Rightarrow> 'bf data_block result" where
  "table_block cf fs t pos = bind_result (get_block_id (tbl_index t) pos) (load_block cf fs)"

definition table_iterator_new_reverse ::
    "('c, 'bf) config \<Rightarrow> fs \<Rightarrow> sorted_table \<Rightarrow> 'bf table_iterator result" where
  "table_iterator_new_reverse cf fs t =
     bind_result (num_data_blocks (tbl_index t)) (\<lambda>num_blocks.
     bind_result (assert_that (num_blocks > 0) ''assertion failed: num_blocks > 0'') (\<lambda>_.
     bind_result (table_block cf fs t (num_blocks - 1)) (\<lambda>first_block.
     let len = num_entries first_block in
     bind_result (assert_that (len > 0) ''assertion failed: len > 0'') (\<lambda>_.
     bind_result (get_entry_at_index (cf_bloom cf) first_block (len - 1)) (\<lambda>(k, entry).
     bind_result
       (if len = 1
        then
          let next_pos = int num_blocks - 2 in
          if next_pos \<ge> 0
          then
            bind_result (table_block cf fs t (nat next_pos)) (\<lambda>next_block.
            let len = num_entries next_block in
            bind_result (assert_that (len > 0) ''assertion failed: len > 0'') (\<lambda>_.
            Inr (next_pos, len - 1)))
          else Inr (next_pos, 0)
        else Inr (int num_blocks - 1, len - 2)) (\<lambda>(block_pos, block_offset).
     Inr \<lparr> ti_block_pos = block_pos, ti_block_offset = block_offset, ti_key = k, ti_entry = entry,
           ti_table = t, ti_reverse = True \<rparr>))))))"

definition table_iterator_new_forward ::
    "('c, 'bf) config \<Rightarrow> fs \<Rightarrow> sorted_table \<Rightarrow> 'bf table_iterator result" where
  "table_iterator_new_forward cf fs t =
     bind_result (table_block cf fs t 0) (\<lambda>first_block.
     bind_result (byte_len (cf_bloom cf) first_block) (\<lambda>byte_len.
     bind_result (get_entry_at_offset (cf_bloom cf) first_block 0 []) (\<lambda>(k, entry).
     let next_offset = de_next_offset entry;
         (block_pos, block_offset) = (if byte_len = next_offset then (1, 0) else (0, next_offset)) in
     Inr \<lparr> ti_block_pos = block_pos, ti_block_offset = block_offset, ti_key = k, ti_entry = entry,
           ti_table = t, ti_reverse = False \<rparr>)))"

definition table_iterator_new ::
    "('c, 'bf) config \<Rightarrow> fs \<Rightarrow> sorted_table \<Rightarrow> bool \<Rightarrow> 'bf table_iterator result" where
  "table_iterator_new cf fs t reverse =
     (if reverse then table_iterator_new_reverse cf fs t else table_iterator_new_forward cf fs t)"

definition table_iter_at_end :: "'bf table_iterator \<Rightarrow> bool result" where
  "table_iter_at_end it =
     (if ti_reverse it then Inr (ti_block_pos it < - 1)
      else bind_result (num_data_blocks (tbl_index (ti_table it))) (\<lambda>n. Inr (ti_block_pos it > int n)))"

definition table_iter_get_key :: "'bf table_iterator \<Rightarrow> key result" where
  "table_iter_get_key it = Inr (ti_key it)"

definition table_iter_get_seq_number :: "'bf table_iterator \<Rightarrow> u64 result" where
  "table_iter_get_seq_number it = get_sequence_number (ti_entry it)"

definition table_iter_get_entry :: "'bf table_iterator \<Rightarrow> 'bf data_entry option result" where
  "table_iter_get_entry it =
     bind_result (get_type (ti_entry it)) (\<lambda>ty.
     case ty of PutEntry \<Rightarrow> Inr (Some (ti_entry it)) | DeleteEntry \<Rightarrow> Inr None)"

definition table_iter_get_entry_type :: "'bf table_iterator \<Rightarrow> data_entry_type result" where
  "table_iter_get_entry_type it = get_type (ti_entry it)"

definition table_iter_step_reverse ::
    "('c, 'bf) config \<Rightarrow> fs \<Rightarrow> 'bf table_iterator \<Rightarrow> 'bf table_iterator result" where
  "table_iter_step_reverse cf fs it =
     (if ti_block_pos it < - 1 then Inl (Panic ''Cannot step(); already at end'')
      else if ti_block_pos it = - 1 then Inr (it\<lparr> ti_block_pos := ti_block_pos it - 1 \<rparr>)
      else
        bind_result (table_block cf fs (ti_table it) (nat (ti_block_pos it))) (\<lambda>block.
        bind_result (get_entry_at_index (cf_bloom cf) block (ti_block_offset it)) (\<lambda>(k, entry).
        let it = it\<lparr> ti_key := k, ti_entry := entry \<rparr> in
        if ti_block_offset it = 0
        then
          let it = it\<lparr> ti_block_pos := ti_block_pos it - 1 \<rparr> in
          if ti_block_pos it \<ge> 0
          then
            bind_result (table_block cf fs (ti_table it) (nat (ti_block_pos it))) (\<lambda>block.
            bind_result (checked_sub (num_entries block) 1) (\<lambda>n.
            Inr (it\<lparr> ti_block_offset := n \<rparr>)))
          else Inr (it\<lparr> ti_block_offset := 0 \<rparr>)
        else Inr (it\<lparr> ti_block_offset := ti_block_offset it - 1 \<rparr>))))"

definition table_iter_step_forward ::
    "('c, 'bf) config \<Rightarrow> fs \<Rightarrow> 'bf table_iterator \<Rightarrow> 'bf table_iterator result" where
  "table_iter_step_forward cf fs it =
     bind_result (num_data_blocks (tbl_index (ti_table it))) (\<lambda>num_blocks.
     if ti_block_pos it = int num_blocks then Inr (it\<lparr> ti_block_pos := ti_block_pos it + 1 \<rparr>)
     else if ti_block_pos it > int num_blocks then Inl (Panic ''Cannot step(); already at end'')
     else
       bind_result (table_block cf fs (ti_table it) (nat (ti_block_pos it))) (\<lambda>block.
       bind_result (byte_len (cf_bloom cf) block) (\<lambda>byte_len.
       bind_result (get_entry_at_offset (cf_bloom cf) block (ti_block_offset it) (ti_key it)) (\<lambda>(k, entry).
       let next_offset = de_next_offset entry;
           it = it\<lparr> ti_key := k, ti_entry := entry \<rparr> in
       if next_offset \<ge> byte_len
       then Inr (it\<lparr> ti_block_pos := ti_block_pos it + 1, ti_block_offset := 0 \<rparr>)
       else Inr (it\<lparr> ti_block_offset := next_offset \<rparr>)))))"

definition table_iter_step ::
    "('c, 'bf) config \<Rightarrow> fs \<Rightarrow> 'bf table_iterator \<Rightarrow> 'bf table_iterator result" where
  "table_iter_step cf fs it =
     (if ti_reverse it then table_iter_step_reverse cf fs it else table_iter_step_forward cf fs it)"

text \<open>What a client reads from the entry of \<open>get_entry\<close>, if there is one.\<close>

definition table_iter_get_value :: "'bf table_iterator \<Rightarrow> val option result" where
  "table_iter_get_value it =
     bind_result (table_iter_get_entry it) (\<lambda>e.
     case e of None \<Rightarrow> Inr None | Some entry \<Rightarrow> get_value entry)"

section \<open>Where an iterator is\<close>

text \<open>The iterator has read entry \<open>i\<close> of block \<open>j\<close> of a table.\<close>

definition ti_at ::
    "('c, 'bf) config \<Rightarrow> fs \<Rightarrow> 'bf table_iterator \<Rightarrow> (key \<times> u64) list \<Rightarrow> (key \<times> memtable_entry) list list
     \<Rightarrow> nat \<Rightarrow> nat \<Rightarrow> 'bf data_block \<Rightarrow> nat list \<Rightarrow> bool" where
  "ti_at cf fs it idx chunks j i b ps \<longleftrightarrow>
     j < length idx \<and> i < length (chunks ! j) \<and> load_block cf fs (snd (idx ! j)) = Inr b \<and>
     block_layout (cf_bloom cf) b ps (chunks ! j) \<and> ti_key it = fst (chunks ! j ! i) \<and>
     ti_entry it = entry_at (cf_bloom cf) b ps (chunks ! j) i"

definition ti_delivers ::
    "('c, 'bf) config \<Rightarrow> fs \<Rightarrow> 'bf table_iterator \<Rightarrow> (key \<times> memtable_entry) list \<Rightarrow> bool" where
  "ti_delivers cf fs it xs \<longleftrightarrow>
     (\<exists>idx chunks. table_layout cf fs (ti_table it) idx chunks \<and>
       (if ti_reverse it
        then (ti_block_pos it = - 2 \<and> xs = []) \<or>
             (\<exists>j i b ps. ti_at cf fs it idx chunks j i b ps \<and>
                xs = rev (concat (take j chunks) @ take (Suc i) (chunks ! j)) \<and>
                (if 0 < i then ti_block_pos it = int j \<and> ti_block_offset it = i - 1
                 else ti_block_pos it = int j - 1 \<and>
                      ti_block_offset it = (if 0 < j then length (chunks ! (j - 1)) - 1 else 0)))
        else (ti_block_pos it = int (length idx) + 1 \<and> xs = []) \<or>
             (\<exists>j i b ps. ti_at cf fs it idx chunks j i b ps \<and>
                xs = drop i (chunks ! j) @ concat (drop (Suc j) chunks) \<and>
                (if Suc i < length (chunks ! j)
                 then ti_block_pos it = int j \<and> ti_block_offset it = entry_off ps (chunks ! j) (Suc i)
                 else ti_block_pos it = int (Suc j) \<and> ti_block_offset it = 0))))"

lemma ti_at_current:
  assumes "ti_at cf fs it idx chunks j i b ps" and "chunks ! j ! i = (k, e)"
  shows "table_iter_get_key it = Inr k" "table_iter_get_seq_number it = Inr (entry_seq_number e)"
    "table_iter_get_entry_type it = Inr (entry_type_of e)" "table_iter_get_value it = Inr (entry_value e)"
proof -
  have i: "i < length (chunks ! j)" and lay: "block_layout (cf_bloom cf) b ps (chunks ! j)"
    and cur: "ti_key it = k" "ti_entry it = entry_at (cf_bloom cf) b ps (chunks ! j) i"
    using assms by (simp_all add: ti_at_def)
  note acc = entry_accessors_ok [OF lay i]
  show "table_iter_get_key it = Inr k" "table_iter_get_seq_number it = Inr (entry_seq_number e)"
    "table_iter_get_entry_type it = Inr (entry_type_of e)" "table_iter_get_value it = Inr (entry_value e)"
    using cur acc assms(2)
    by (cases e; simp add: table_iter_get_key_def table_iter_get_seq_number_def table_iter_get_entry_type_def
        table_iter_get_value_def table_iter_get_entry_def)+
qed

lemma table_block_ok:
  assumes "table_layout cf fs t idx chunks" and "j < length idx"
  obtains b ps where "load_block cf fs (snd (idx ! j)) = Inr b" "table_block cf fs t j = Inr b"
    "block_layout (cf_bloom cf) b ps (chunks ! j)" "chunks ! j \<noteq> []"
proof -
  obtain sz mn mx where "index_holds (tbl_index t) idx sz mn mx" using assms(1) by (auto simp: table_layout_def)
  then have "get_block_id (tbl_index t) j = Inr (snd (idx ! j))" using index_entry_ok(1) assms(2) by blast
  then show ?thesis
    using table_layoutD(6) [OF assms] table_layoutD(1,3) [OF assms(1)] assms(2) that
    by (metis bind_result_Inr block_holds_def nth_mem table_block_def)
qed

lemma table_num_blocks:
  assumes "table_layout cf fs t idx chunks"
  shows "num_data_blocks (tbl_index t) = Inr (length idx)"
  using assms index_fields_ok(1) by (auto simp: table_layout_def)

section \<open>Forward\<close>

lemma ti_delivers_forward:
  assumes "table_layout cf fs (ti_table it) idx chunks" and "\<not> ti_reverse it"
    and "ti_at cf fs it idx chunks j i b ps"
    and "if Suc i < length (chunks ! j)
         then ti_block_pos it = int j \<and> ti_block_offset it = entry_off ps (chunks ! j) (Suc i)
         else ti_block_pos it = int (Suc j) \<and> ti_block_offset it = 0"
  shows "ti_delivers cf fs it (drop i (chunks ! j) @ concat (drop (Suc j) chunks))"
  unfolding ti_delivers_def if_not_P [OF assms(2)] using assms(1,3,4) by blast

lemma entry_off_end:
  assumes "block_layout bl b ps es" and "i < length es"
  shows "length (entries_bytes ps es) \<le> entry_off ps es (Suc i) \<longleftrightarrow> Suc i = length es"
    "length (entries_bytes ps es) = entry_off ps es (Suc i) \<longleftrightarrow> Suc i = length es"
proof -
  have len: "length ps = length es" using block_layoutD(3) [OF assms(1)] .
  have "entry_off ps es (Suc i) < entry_off ps es (length es) \<longleftrightarrow> Suc i < length es"
    using entry_off_less_iff [OF len, of "Suc i" "length es"] assms(2) by simp
  moreover have "entry_off ps es (length es) = length (entries_bytes ps es)" using len by simp
  moreover have "entry_off ps es (Suc i) \<le> length (entries_bytes ps es)"
    using entry_off_bound(1) [OF assms(1)] assms(2) by (simp add: Suc_le_eq)
  ultimately show "length (entries_bytes ps es) \<le> entry_off ps es (Suc i) \<longleftrightarrow> Suc i = length es"
    "length (entries_bytes ps es) = entry_off ps es (Suc i) \<longleftrightarrow> Suc i = length es"
    using assms(2) by linarith+
qed

lemma read_forward:
  assumes lay: "table_layout cf fs (ti_table it) idx chunks" and fwd: "\<not> ti_reverse it"
    and j: "j < length idx" and i: "i < length (chunks ! j)" and load: "load_block cf fs (snd (idx ! j)) = Inr b"
    and bl: "block_layout (cf_bloom cf) b ps (chunks ! j)"
    and pos: "ti_block_pos it = int j" "ti_block_offset it = entry_off ps (chunks ! j) i"
    and prev: "i = 0 \<or> ti_key it = fst (chunks ! j ! (i - 1))"
  shows "\<exists>it'. table_iter_step_forward cf fs it = Inr it' \<and>
      ti_delivers cf fs it' (drop i (chunks ! j) @ concat (drop (Suc j) chunks))"
proof -
  let ?c = "chunks ! j" and ?bl = "cf_bloom cf"
  have tb: "table_block cf fs (ti_table it) j = Inr b"
    using table_block_ok [OF lay j] load by (metis sum.inject(2))
  have entry: "get_entry_at_offset ?bl b (entry_off ps ?c i) (ti_key it) =
      Inr (fst (?c ! i), entry_at ?bl b ps ?c i)"
  proof (cases i)
    case 0
    then show ?thesis using get_restart_entry_ok [OF bl i] by simp
  next
    case (Suc i')
    then show ?thesis using get_next_entry_ok [OF bl, of i'] i prev by simp
  qed
  have nxt: "de_next_offset (entry_at ?bl b ps ?c i) = entry_off ps ?c (Suc i)" by (simp add: entry_at_def)
  define it' where "it' =
    (if Suc i = length ?c
     then it\<lparr> ti_key := fst (?c ! i), ti_entry := entry_at ?bl b ps ?c i,
              ti_block_pos := int (Suc j), ti_block_offset := 0 \<rparr>
     else it\<lparr> ti_key := fst (?c ! i), ti_entry := entry_at ?bl b ps ?c i,
              ti_block_offset := entry_off ps ?c (Suc i) \<rparr>)"
  have step: "table_iter_step_forward cf fs it = Inr it'"
    using table_num_blocks [OF lay] pos j tb entry nxt byte_len_ok [OF bl] entry_off_end(1) [OF bl i]
    by (simp add: table_iter_step_forward_def it'_def Let_def)
  have at: "ti_at cf fs it' idx chunks j i b ps"
    using j i load bl by (simp add: ti_at_def it'_def)
  have "ti_delivers cf fs it' (drop i ?c @ concat (drop (Suc j) chunks))"
    using lay fwd i pos by (intro ti_delivers_forward [OF _ _ at]) (auto simp: it'_def)
  then show ?thesis using step by blast
qed

lemma step_forward_ok:
  assumes "ti_delivers cf fs it (x # xs)" and fwd: "\<not> ti_reverse it"
  shows "\<exists>it'. table_iter_step_forward cf fs it = Inr it' \<and> ti_delivers cf fs it' xs"
proof -
  obtain idx chunks j i b ps where lay: "table_layout cf fs (ti_table it) idx chunks"
      and at: "ti_at cf fs it idx chunks j i b ps"
      and xs: "x # xs = drop i (chunks ! j) @ concat (drop (Suc j) chunks)"
      and pos: "if Suc i < length (chunks ! j)
         then ti_block_pos it = int j \<and> ti_block_offset it = entry_off ps (chunks ! j) (Suc i)
         else ti_block_pos it = int (Suc j) \<and> ti_block_offset it = 0"
    using assms unfolding ti_delivers_def by (auto simp del: of_nat_Suc)
  have j: "j < length idx" and i: "i < length (chunks ! j)" and load: "load_block cf fs (snd (idx ! j)) = Inr b"
    and bl: "block_layout (cf_bloom cf) b ps (chunks ! j)" and key: "ti_key it = fst (chunks ! j ! i)"
    using at by (simp_all add: ti_at_def)
  have tail: "xs = drop (Suc i) (chunks ! j) @ concat (drop (Suc j) chunks)"
    using xs i by (simp add: Cons_nth_drop_Suc [symmetric])
  note len = table_layoutD(1) [OF lay]
  show ?thesis
  proof (cases "Suc i < length (chunks ! j)")
    case True
    then show ?thesis using read_forward [OF lay fwd j True load bl] pos key tail by simp
  next
    case False
    then have p: "ti_block_pos it = int (Suc j)" "ti_block_offset it = 0" using pos by auto
    have tail': "xs = concat (drop (Suc j) chunks)" using tail False by simp
    show ?thesis
    proof (cases "Suc j < length idx")
      case True
      obtain b' ps' where b': "load_block cf fs (snd (idx ! Suc j)) = Inr b'"
          "block_layout (cf_bloom cf) b' ps' (chunks ! Suc j)" "chunks ! Suc j \<noteq> []"
        using table_block_ok [OF lay True] by metis
      have "xs = drop 0 (chunks ! Suc j) @ concat (drop (Suc (Suc j)) chunks)"
        using True len by (simp add: tail' Cons_nth_drop_Suc [symmetric])
      then show ?thesis
        using read_forward [OF lay fwd True _ b'(1,2), of 0] b'(3) p by simp
    next
      case False
      then have last: "Suc j = length idx" using j by simp
      have "table_iter_step_forward cf fs it = Inr (it\<lparr> ti_block_pos := int (length idx) + 1 \<rparr>)"
        using table_num_blocks [OF lay] p last by (simp add: table_iter_step_forward_def)
      moreover have "xs = []" using tail' last len by simp
      ultimately show ?thesis using lay fwd by (auto simp: ti_delivers_def)
    qed
  qed
qed

lemma new_forward_ok:
  assumes "table_holds cf fs t es"
  shows "\<exists>it. table_iterator_new_forward cf fs t = Inr it \<and> ti_delivers cf fs it es \<and> \<not> ti_reverse it"
proof -
  obtain idx chunks where lay: "table_layout cf fs t idx chunks" and es: "es = concat chunks"
    using assms by (auto simp: table_holds_def)
  note len = table_layoutD(1) [OF lay]
  have j: "0 < length idx" using table_layoutD(2) [OF lay] by simp
  let ?c = "chunks ! 0" and ?bl = "cf_bloom cf"
  obtain b ps where b: "load_block cf fs (snd (idx ! 0)) = Inr b" "table_block cf fs t 0 = Inr b"
      "block_layout ?bl b ps ?c" "?c \<noteq> []"
    using table_block_ok [OF lay j] by metis
  have i: "0 < length ?c" using b(4) by simp
  then have many: "Suc 0 \<noteq> length ?c \<longleftrightarrow> Suc 0 < length ?c" by linarith
  define it where "it = \<lparr> ti_block_pos = (if Suc 0 = length ?c then 1 else 0),
      ti_block_offset = (if Suc 0 = length ?c then 0 else entry_off ps ?c (Suc 0)), ti_key = fst (?c ! 0),
      ti_entry = entry_at ?bl b ps ?c 0, ti_table = t, ti_reverse = False \<rparr>"
  have "get_entry_at_offset ?bl b 0 [] = Inr (fst (?c ! 0), entry_at ?bl b ps ?c 0)"
    using get_restart_entry_ok [OF b(3) i] by simp
  moreover have "de_next_offset (entry_at ?bl b ps ?c 0) = entry_off ps ?c (Suc 0)" by (simp add: entry_at_def)
  ultimately have "table_iterator_new_forward cf fs t = Inr it"
    using b(2) byte_len_ok [OF b(3)] entry_off_end(2) [OF b(3) i]
    by (simp add: table_iterator_new_forward_def it_def)
  moreover have "ti_delivers cf fs it (drop 0 ?c @ concat (drop (Suc 0) chunks))"
    by (rule ti_delivers_forward) (use lay j i b many in \<open>auto simp: it_def ti_at_def\<close>)
  moreover have "drop 0 ?c @ concat (drop (Suc 0) chunks) = es"
    using j len es by (cases chunks) auto
  ultimately show ?thesis by (auto simp: it_def)
qed

section \<open>Reverse\<close>

lemma ti_delivers_reverse:
  assumes "table_layout cf fs (ti_table it) idx chunks" and "ti_reverse it"
    and "ti_at cf fs it idx chunks j i b ps"
    and "if 0 < i then ti_block_pos it = int j \<and> ti_block_offset it = i - 1
         else ti_block_pos it = int j - 1 \<and>
              ti_block_offset it = (if 0 < j then length (chunks ! (j - 1)) - 1 else 0)"
  shows "ti_delivers cf fs it (rev (concat (take j chunks) @ take (Suc i) (chunks ! j)))"
  unfolding ti_delivers_def if_P [OF assms(2)] using assms(1,3,4) by blast

lemma table_block_entries:
  assumes "table_layout cf fs t idx chunks" and "j < length idx"
  obtains b where "table_block cf fs t j = Inr b" "num_entries b = length (chunks ! j)" "chunks ! j \<noteq> []"
  using table_block_ok [OF assms] block_layoutD(4) by metis

lemma read_reverse:
  assumes lay: "table_layout cf fs (ti_table it) idx chunks" and rev: "ti_reverse it"
    and j: "j < length idx" and i: "i < length (chunks ! j)"
    and pos: "ti_block_pos it = int j" "ti_block_offset it = i"
  shows "\<exists>it'. table_iter_step_reverse cf fs it = Inr it' \<and>
      ti_delivers cf fs it' (rev (concat (take j chunks) @ take (Suc i) (chunks ! j)))"
proof -
  let ?c = "chunks ! j" and ?bl = "cf_bloom cf"
  obtain b ps where b: "load_block cf fs (snd (idx ! j)) = Inr b" "table_block cf fs (ti_table it) j = Inr b"
      "block_layout ?bl b ps ?c"
    using table_block_ok [OF lay j] by metis
  define it1 where "it1 = it\<lparr> ti_key := fst (?c ! i), ti_entry := entry_at ?bl b ps ?c i \<rparr>"
  define it' where "it' =
    (if 0 < i then it1\<lparr> ti_block_offset := i - 1 \<rparr>
     else it1\<lparr> ti_block_pos := int j - 1,
               ti_block_offset := (if 0 < j then length (chunks ! (j - 1)) - 1 else 0) \<rparr>)"
  have step: "table_iter_step_reverse cf fs it = Inr it'"
  proof (cases "0 < i \<or> j = 0")
    case True
    then show ?thesis
      using pos b(2) get_entry_at_index_ok [OF b(3) i]
      by (auto simp: table_iter_step_reverse_def it'_def it1_def Let_def)
  next
    case False
    then obtain j' where j': "j = Suc j'" "i = 0" by (cases j) auto
    obtain b' where "table_block cf fs (ti_table it) j' = Inr b'" "num_entries b' = length (chunks ! j')"
        "chunks ! j' \<noteq> []"
      using table_block_entries [OF lay, of j'] j j'(1) by auto
    then show ?thesis
      using pos b(2) get_entry_at_index_ok [OF b(3) i] j'
      by (simp add: table_iter_step_reverse_def it'_def it1_def Let_def Suc_le_eq nat_add_distrib)
  qed
  have at: "ti_at cf fs it' idx chunks j i b ps"
    using j i b by (simp add: ti_at_def it'_def it1_def)
  have "ti_delivers cf fs it' (List.rev (concat (take j chunks) @ take (Suc i) ?c))"
    using lay rev pos by (intro ti_delivers_reverse [OF _ _ at]) (auto simp: it'_def it1_def)
  then show ?thesis using step by blast
qed

lemma step_reverse_ok:
  assumes "ti_delivers cf fs it (x # xs)" and rev: "ti_reverse it"
  shows "\<exists>it'. table_iter_step_reverse cf fs it = Inr it' \<and> ti_delivers cf fs it' xs"
proof -
  obtain idx chunks j i b ps where lay: "table_layout cf fs (ti_table it) idx chunks"
      and at: "ti_at cf fs it idx chunks j i b ps"
      and xs: "x # xs = List.rev (concat (take j chunks) @ take (Suc i) (chunks ! j))"
      and pos: "if 0 < i then ti_block_pos it = int j \<and> ti_block_offset it = i - 1
         else ti_block_pos it = int j - 1 \<and>
              ti_block_offset it = (if 0 < j then length (chunks ! (j - 1)) - 1 else 0)"
    using assms unfolding ti_delivers_def if_P [OF rev] by blast
  have j: "j < length idx" and i: "i < length (chunks ! j)" using at by (simp_all add: ti_at_def)
  have tail: "xs = List.rev (concat (take j chunks) @ take i (chunks ! j))"
    using xs i by (simp add: take_Suc_conv_app_nth)
  note len = table_layoutD(1) [OF lay]
  show ?thesis
  proof (cases i)
    case (Suc i')
    then show ?thesis using read_reverse [OF lay rev j, of i'] pos i tail by simp
  next
    case 0
    show ?thesis
    proof (cases j)
      case (Suc j')
      have ne: "chunks ! j' \<noteq> []" using table_layoutD(3) [OF lay] j Suc len by simp
      have "take j chunks = take j' chunks @ [chunks ! j']"
        using Suc j len by (simp add: take_Suc_conv_app_nth)
      then have "xs = List.rev (concat (take j' chunks) @ take (Suc (length (chunks ! j') - 1)) (chunks ! j'))"
        using ne by (simp add: tail 0)
      then show ?thesis
        using read_reverse [OF lay rev, of j' "length (chunks ! j') - 1"] pos 0 Suc j ne by simp
    next
      case j0: 0
      have "table_iter_step_reverse cf fs it = Inr (it\<lparr> ti_block_pos := - 2 \<rparr>)"
        using pos 0 j0 by (simp add: table_iter_step_reverse_def)
      moreover have "xs = []" by (simp add: tail 0 j0)
      ultimately show ?thesis using lay rev by (auto simp: ti_delivers_def)
    qed
  qed
qed

lemma new_reverse_ok:
  assumes "table_holds cf fs t es"
  shows "\<exists>it. table_iterator_new_reverse cf fs t = Inr it \<and> ti_delivers cf fs it (rev es) \<and> ti_reverse it"
proof -
  obtain idx chunks where lay: "table_layout cf fs t idx chunks" and es: "es = concat chunks"
    using assms by (auto simp: table_holds_def)
  note len = table_layoutD(1) [OF lay]
  define j where "j = length idx - 1"
  have j: "j < length idx" and n: "length idx = Suc j" using table_layoutD(2) [OF lay] by (auto simp: j_def)
  let ?c = "chunks ! j" and ?bl = "cf_bloom cf"
  obtain b ps where b: "load_block cf fs (snd (idx ! j)) = Inr b" "table_block cf fs t j = Inr b"
      "block_layout ?bl b ps ?c" "?c \<noteq> []"
    using table_block_ok [OF lay j] by metis
  define i where "i = length ?c - 1"
  have i: "i < length ?c" "length ?c = Suc i" using b(4) by (auto simp: i_def)
  define it where "it = \<lparr> ti_block_pos = (if 0 < i then int j else int j - 1),
      ti_block_offset = (if 0 < i then i - 1 else if 0 < j then length (chunks ! (j - 1)) - 1 else 0),
      ti_key = fst (?c ! i), ti_entry = entry_at ?bl b ps ?c i, ti_table = t, ti_reverse = True \<rparr>"
  have num: "num_entries b = Suc i" using block_layoutD(4) [OF b(3)] i(2) by simp
  note entry = get_entry_at_index_ok [OF b(3) i(1)]
  have "table_iterator_new_reverse cf fs t = Inr it"
  proof (cases "0 < i \<or> j = 0")
    case True
    then show ?thesis
      using table_num_blocks [OF lay] n b(2) num entry
      by (auto simp: table_iterator_new_reverse_def it_def Let_def numeral_2_eq_2)
  next
    case False
    then obtain j' where j': "j = Suc j'" "i = 0" by (cases j) auto
    obtain b' where "table_block cf fs t j' = Inr b'" "num_entries b' = length (chunks ! j')" "chunks ! j' \<noteq> []"
      using table_block_entries [OF lay, of j'] j j'(1) by auto
    then show ?thesis
      using table_num_blocks [OF lay] n b(2) num entry j'
      by (simp add: table_iterator_new_reverse_def it_def Let_def)
  qed
  moreover have "ti_delivers cf fs it (rev (concat (take j chunks) @ take (Suc i) ?c))"
    by (rule ti_delivers_reverse) (use lay j i b in \<open>auto simp: it_def ti_at_def\<close>)
  moreover have "concat (take j chunks) @ take (Suc i) ?c = es"
  proof -
    have "chunks = take j chunks @ [?c]" using n len by (metis lessI take_Suc_conv_app_nth take_all order_refl)
    then have "concat chunks = concat (take j chunks) @ ?c" by (metis append_Nil2 concat.simps concat_append)
    then show ?thesis using i(2) es by simp
  qed
  ultimately show ?thesis by (auto simp: it_def)
qed

section \<open>An internal iterator\<close>

lemma ti_delivers_cases:
  assumes "ti_delivers cf fs it (x # xs)"
  obtains idx chunks j i b ps where "ti_at cf fs it idx chunks j i b ps" "chunks ! j ! i = x"
proof -
  obtain idx chunks j i b ps where at: "ti_at cf fs it idx chunks j i b ps"
      and xs: "x # xs = (if ti_reverse it then rev (concat (take j chunks) @ take (Suc i) (chunks ! j))
                         else drop i (chunks ! j) @ concat (drop (Suc j) chunks))"
    using assms unfolding ti_delivers_def by (cases "ti_reverse it") (auto simp del: rev_append)
  have i: "i < length (chunks ! j)" using at by (simp add: ti_at_def)
  have "chunks ! j ! i = x"
    using xs i by (auto simp: Cons_nth_drop_Suc [symmetric] take_Suc_conv_app_nth split: if_splits)
  then show ?thesis using at that by blast
qed

lemma ti_at_end_ok:
  assumes "ti_delivers cf fs it xs"
  shows "table_iter_at_end it = Inr (xs = [])"
proof -
  obtain idx chunks where lay: "table_layout cf fs (ti_table it) idx chunks"
    and cases: "if ti_reverse it
       then (ti_block_pos it = - 2 \<and> xs = []) \<or> (xs \<noteq> [] \<and> - 1 \<le> ti_block_pos it)
       else (ti_block_pos it = int (length idx) + 1 \<and> xs = []) \<or> (xs \<noteq> [] \<and> ti_block_pos it \<le> int (length idx))"
    using assms unfolding ti_delivers_def
    by (cases "ti_reverse it") (fastforce simp: ti_at_def take_Suc_conv_app_nth split: if_splits)+
  show ?thesis using cases table_num_blocks [OF lay] by (auto simp: table_iter_at_end_def split: if_splits)
qed

interpretation ti: deletion_aware_iterator table_iter_at_end "table_iter_step cf fs" table_iter_get_key
  table_iter_get_seq_number table_iter_get_entry_type "ti_delivers cf fs" table_iter_get_value for cf fs
proof unfold_locales
  fix it x xs
  assume "ti_delivers cf fs it (x # xs)"
  then show "\<exists>it'. table_iter_step cf fs it = Inr it' \<and> ti_delivers cf fs it' xs"
    using step_forward_ok step_reverse_ok unfolding table_iter_step_def by (metis (full_types))
qed (metis ti_at_end_ok ti_at_current ti_delivers_cases)+

lemma table_iterator_new_ok:
  assumes "table_holds cf fs t es"
  shows "\<exists>it. table_iterator_new cf fs t reverse = Inr it \<and> ti_delivers cf fs it (if reverse then rev es else es)"
  using new_forward_ok [OF assms] new_reverse_ok [OF assms] by (auto simp: table_iterator_new_def)

section \<open>A configuration for examples\<close>

text \<open>
  An LRU cache as a list with the most recent entry in front, and a filter that only remembers
  whether a key was ever set: both satisfy what the code relies on.
\<close>

definition list_lru :: "(nat \<times> (u64 \<times> 'bf data_block) list, 'bf) lru_api" where
  "list_lru =
     \<lparr> lru_new = (\<lambda>n. (n, [])),
       lru_get = (\<lambda>(n, xs) i. case map_of xs i of
           None \<Rightarrow> ((n, xs), None)
         | Some b \<Rightarrow> ((n, (i, b) # filter (\<lambda>x. fst x \<noteq> i) xs), Some b)),
       lru_put = (\<lambda>(n, xs) i b. (n, take n ((i, b) # filter (\<lambda>x. fst x \<noteq> i) xs))),
       lru_peek = (\<lambda>(n, xs). map_of xs) \<rparr>"

definition flag_bloom :: "bool bloom_api" where
  "flag_bloom =
     \<lparr> bf_new = False, bf_set = (\<lambda>f k. True), bf_check = (\<lambda>f k. f),
       bf_as_slice = (\<lambda>f. replicate (BLOOM_LENGTH + BLOOM_HEADER_SIZE) (if f then 1 else 0)),
       bf_from_bytes = (\<lambda>bs. Some (bs ! 0 = 1)) \<rparr>"

definition example_config :: "(nat \<times> (u64 \<times> bool data_block) list, bool) config" where
  "example_config =
     \<lparr> cf_codec = plain_codec, cf_bloom = WithBloom flag_bloom, cf_lru = list_lru,
       cf_params = small_params\<lparr> max_key_block_size := 2 \<rparr> \<rparr>"

definition example_store :: "(nat \<times> (u64 \<times> bool data_block) list) store" where
  "example_store =
     \<lparr> st_fs = manifest_new False (cf_params example_config) Map.empty, st_caches = replicate 64 (1, []) \<rparr>"

definition example_entries :: "(key \<times> memtable_entry) list" where
  "example_entries = [([1], Value 4 [7, 8]), ([1, 2], Deletion 5), ([3], Value 6 [])]"

lemma map_of_filter_other: "map_of (filter (\<lambda>x. fst x \<noteq> i) xs) j = (if j = i then None else map_of xs j)"
  by (induction xs) auto

lemma map_of_take:
  "map_of (take n xs) i = Some b \<Longrightarrow> map_of xs i = Some b"
proof (induction xs arbitrary: n)
  case (Cons x xs)
  then show ?case by (cases n; cases x) (auto split: if_splits)
qed simp

lemma lru_laws_list [simp]: "lru_laws (list_lru :: (_, 'a) lru_api)"
proof -
  have 1: "map_of ((i, b) # filter (\<lambda>x. fst x \<noteq> i) xs) = map_of xs" if "map_of xs i = Some b" for xs i b
    using that by (auto simp: map_of_filter_other fun_eq_iff)
  have 2: "if j = i then b' = b else map_of xs j = Some b'"
    if "map_of (take n ((i, b) # filter (\<lambda>x. fst x \<noteq> i) xs)) j = Some b'" for n xs i b j b'
    using map_of_take [OF that] by (auto simp: map_of_filter_other split: if_splits)
  show ?thesis
    unfolding lru_laws_def
  proof (intro conjI allI impI)
    fix c :: "nat \<times> (u64 \<times> 'a data_block) list" and i
    obtain n xs where c: "c = (n, xs)" by (cases c)
    show "snd (lru_get list_lru c i) = lru_peek list_lru c i"
      "lru_peek list_lru (fst (lru_get list_lru c i)) = lru_peek list_lru c"
      using 1 [of xs i] by (auto simp: list_lru_def c split: option.split)
  next
    fix c :: "nat \<times> (u64 \<times> 'a data_block) list" and i b j b'
    assume "lru_peek list_lru (lru_put list_lru c i b) j = Some b'"
    then show "if j = i then b' = b else lru_peek list_lru c j = Some b'"
      using 2 [of "fst c" i b "snd c" j b'] by (simp add: list_lru_def case_prod_beta)
  qed (simp add: list_lru_def)
qed

lemma bloom_laws_flag [simp]: "bloom_laws (WithBloom flag_bloom)"
  by (simp add: bloom_laws_def flag_bloom_def BLOOM_LENGTH_def)

lemma example_store_ok: "store_ok example_config example_store (metadata_new False (cf_params example_config)) (\<lambda>i. {})"
proof -
  let ?p = "cf_params example_config"
  have "manifest_new False ?p Map.empty (data_block_path ?p i) = None" for i
    by (simp add: manifest_new_def fold_level_files store_meta_def)
  moreover have "manifest_ok False ?p (manifest_new False ?p Map.empty) (metadata_new False ?p) (\<lambda>i. {})"
    by (rule manifest_new_ok) (simp add: example_config_def small_params_def)
  moreover have "config_ok example_config"
    by (simp add: config_ok_def example_config_def small_params_def default_params_def)
  moreover have "coherent example_config example_store"
    by (simp add: coherent_def example_store_def NUM_SHARDS_def example_config_def list_lru_def)
  ultimately show ?thesis by (simp add: store_ok_def ids_unused_def example_store_def)
qed

lemma example_entries_ok:
  "example_entries \<noteq> []" "sorted_strict (map fst example_entries)" "table_fits example_entries"
  "seeks_fit (cf_params example_config)"
  "unat (next_data_block_id (metadata_new False (cf_params example_config))) + length example_entries < 2 ^ 64 - 1"
  by (simp_all add: example_entries_def table_fits_def entry_weight_def seeks_fit_def example_config_def
      small_params_def default_params_def metadata_new_def)

section \<open>Properties\<close>

text \<open>C8: A table built from any nonempty, strictly sorted list of entries that fits the 32-bit offsets of
  the format is complete on disk. Loading its index from the files gives the table the builder
  returned, and looking up any key in it returns the entry the list has for the key, with its sequence
  number, type and value, or nothing when the list has none. No assertion of the source fires, and
  the search ends.\<close>

theorem table_build_lookup:
  assumes "store_ok cf s m T" and "es \<noteq> []" and "sorted_strict (map fst es)" and "table_fits es"
    and "seeks_fit (cf_params cf)" and "unat (next_data_block_id m) + length es < 2 ^ 64 - 1"
  shows "\<exists>s' t. build_table cf s i (fst (hd es)) (fst (last es)) es = Inr (s', t) \<and>
      table_load cf (st_fs s') i = Inr t \<and>
      (\<forall>k. \<exists>s'' t' r. table_get cf s' t k = Some (Inr (s'', t', r)) \<and> rel_option entry_denotes r (map_of es k))"
proof -
  obtain s' t m' where b: "build_table cf s i (fst (hd es)) (fst (last es)) es = Inr (s', t)" "store_ok cf s' m' T"
      "table_load cf (st_fs s') i = Inr t" "table_holds cf (st_fs s') t es"
    using build_table_ok [OF assms] by blast
  show ?thesis using b(1,3) table_get_ok [OF store_okD(2,3) [OF b(2)] b(4)] by blast
qed

theorem table_build_lookup_witness:
  "\<exists>s' t s'' t' e. build_table example_config example_store 1 [1] [3] example_entries = Inr (s', t) \<and>
      table_load example_config (st_fs s') 1 = Inr t \<and>
      table_get example_config s' t [1, 2] = Some (Inr (s'', t', Some e)) \<and> get_type e = Inr DeleteEntry"
proof -
  obtain s' t where b: "build_table example_config example_store 1 (fst (hd example_entries))
        (fst (last example_entries)) example_entries = Inr (s', t)" "table_load example_config (st_fs s') 1 = Inr t"
      "\<forall>k. \<exists>s'' t' r. table_get example_config s' t k = Some (Inr (s'', t', r)) \<and>
         rel_option entry_denotes r (map_of example_entries k)"
    using table_build_lookup [OF example_store_ok example_entries_ok] by blast
  obtain s'' t' r where "table_get example_config s' t [1, 2] = Some (Inr (s'', t', r))"
      "rel_option entry_denotes r (map_of example_entries [1, 2])"
    using b(3) by blast
  moreover have "map_of example_entries [1, 2] = Some (Deletion 5)" by (simp add: example_entries_def)
  ultimately show ?thesis
    using b(1,2) by (auto simp: example_entries_def entry_denotes_def option_rel_Some2)
qed

text \<open>C9: The iterator over a table delivers every entry of the table exactly once, in ascending key order
  and, for a reverse iterator, in descending order: after any number of steps up to the number of
  entries it is at its end exactly when all were delivered, and otherwise its accessors return the key,
  sequence number and type of the next one and the value exactly when the entry is not a deletion. No
  check of the source fires, across all block boundaries.\<close>

theorem table_iterator_enumerates:
  assumes "table_holds cf fs t es" and "xs = (if reverse then rev es else es)" and "n \<le> length xs"
  shows "\<exists>it0 it. table_iterator_new cf fs t reverse = Inr it0 \<and> steps (table_iter_step cf fs) n it0 = Inr it \<and>
      table_iter_at_end it = Inr (n = length xs) \<and>
      (n < length xs \<longrightarrow>
         table_iter_get_key it = Inr (fst (xs ! n)) \<and>
         table_iter_get_seq_number it = Inr (entry_seq_number (snd (xs ! n))) \<and>
         table_iter_get_entry_type it = Inr (entry_type_of (snd (xs ! n))) \<and>
         table_iter_get_value it = Inr (entry_value (snd (xs ! n))))"
proof -
  obtain it0 where it0: "table_iterator_new cf fs t reverse = Inr it0" "ti_delivers cf fs it0 xs"
    using table_iterator_new_ok [OF assms(1), of reverse] assms(2) by metis
  obtain it where it: "steps (table_iter_step cf fs) n it0 = Inr it" "ti_delivers cf fs it (drop n xs)"
    using ti.steps_ok [OF it0(2) assms(3)] by blast
  have "table_iter_get_value it = Inr (entry_value (snd (xs ! n)))" if "n < length xs"
    using ti.value_ok [of cf fs it "fst (xs ! n)" "snd (xs ! n)"] it(2) that
    by (metis Cons_nth_drop_Suc prod.collapse)
  then show ?thesis using it0(1) it(1) ti.enumerates [OF it0(2) assms(3)] by auto
qed

theorem table_iterator_enumerates_witness:
  "\<exists>s' t it0 it. build_table example_config example_store 1 [1] [3] example_entries = Inr (s', t) \<and>
      table_iterator_new example_config (st_fs s') t True = Inr it0 \<and>
      steps (table_iter_step example_config (st_fs s')) 2 it0 = Inr it \<and>
      table_iter_at_end it = Inr False \<and> table_iter_get_key it = Inr [1] \<and>
      table_iter_get_value it = Inr (Some [7, 8])"
proof -
  obtain s' t where b: "build_table example_config example_store 1 (fst (hd example_entries))
        (fst (last example_entries)) example_entries = Inr (s', t)" "table_holds example_config (st_fs s') t example_entries"
    using build_table_ok [OF example_store_ok example_entries_ok] by blast
  show ?thesis
    using b(1) table_iterator_enumerates [OF b(2), of "rev example_entries" True 2]
    by (auto simp: example_entries_def)
qed

text \<open>C10: The block caches are transparent. In a coherent store, asking for a block gives what loading its
  file gives, whether the block was cached, evicted or never read; the files stay as they are and the
  store stays coherent, so the same holds for the next request. A block whose file is missing or
  corrupt raises the same panic either way.\<close>

theorem get_block_transparent:
  assumes "coherent cf s" and "lru_laws (cf_lru cf)"
  shows "case load_block cf (st_fs s) i of
           Inl e \<Rightarrow> get_block cf s i = Inl e
         | Inr b \<Rightarrow> \<exists>s'. get_block cf s i = Inr (s', b) \<and> st_fs s' = st_fs s \<and> coherent cf s'"
  using get_block_ok [OF assms] get_block_fault [OF assms] by (cases "load_block cf (st_fs s) i") auto

theorem get_block_transparent_witness:
  "get_block example_config example_store 7 = Inl (Panic ''Failed to load data block from disk'')"
proof -
  have "st_fs example_store (data_block_path (cf_params example_config) 7) = None"
    by (simp add: example_store_def manifest_new_def fold_level_files store_meta_def)
  then have "load_block example_config (st_fs example_store) 7 = Inl (Panic ''Failed to load data block from disk'')"
    by (simp add: load_block_def disk_read_def read_uncompressed_def)
  then show ?thesis
    using get_block_transparent [of example_config example_store 7] store_okD(2,3) [OF example_store_ok] by simp
qed

text \<open>
  Adding entries with given prefix lengths to a block builder.
\<close>

definition block_add_all ::
    "'bf bloom_feature \<Rightarrow> params \<Rightarrow> (nat \<times> key \<times> memtable_entry) list \<Rightarrow> 'bf data_block_builder result" where
  "block_add_all bl p = fold_result (\<lambda>bb (n, k, e).
     block_add_entry bl p bb (prefixed_key_new n (drop n k)) k (entry_seq_number e) (entry_op e) (entry_data_bytes e))
     (block_builder_new bl)"

lemma block_add_all_ok:
  assumes "0 < block_restart_interval p" and "bloom_laws bl"
    and "prefixes_ok (block_restart_interval p) ps (map fst es)" and "table_fits es"
  shows "\<exists>bb. block_add_all bl p (zip ps es) = Inr bb \<and> builder_holds bl (block_restart_interval p) bb ps es"
  using assms(3,4)
proof (induction es arbitrary: ps rule: rev_induct)
  case Nil
  then show ?case using builder_holds_new [OF assms(1), of bl] by (simp add: prefixes_ok_def block_add_all_def)
next
  case (snoc x es)
  obtain k e where x: "x = (k, e)" by (cases x)
  have len: "length ps = Suc (length es)" using snoc.prems(1) by (simp add: prefixes_ok_def)
  define qs n where "qs = butlast ps" and "n = last ps"
  have "ps \<noteq> []" using len by auto
  then have ps: "ps = qs @ [n]" and qs: "length qs = length es" using len by (simp_all add: qs_def n_def)
  have each: "(i mod block_restart_interval p = 0 \<longrightarrow> ps ! i = 0) \<and> ps ! i \<le> length (map fst (es @ [x]) ! i) \<and>
      (0 < i \<longrightarrow> ps ! i \<le> length (map fst (es @ [x]) ! (i - 1)) \<and>
         take (ps ! i) (map fst (es @ [x]) ! (i - 1)) = take (ps ! i) (map fst (es @ [x]) ! i))"
    if "i \<le> length es" for i
    using spec [OF conjunct2 [OF snoc.prems(1) [unfolded prefixes_ok_def]], of i] that by simp
  have "prefixes_ok (block_restart_interval p) qs (map fst es)"
    unfolding prefixes_ok_def
  proof (intro conjI allI impI)
    fix i assume "i < length (map fst es)"
    then have i: "i < length es" by simp
    then have nth: "ps ! i = qs ! i" "map fst (es @ [x]) ! i = map fst es ! i"
        "map fst (es @ [x]) ! (i - 1) = map fst es ! (i - 1)"
      using qs by (simp_all add: ps nth_append less_imp_diff_less)
    show "i mod block_restart_interval p = 0 \<Longrightarrow> qs ! i = 0" "qs ! i \<le> length (map fst es ! i)"
      "0 < i \<Longrightarrow> qs ! i \<le> length (map fst es ! (i - 1))"
      "0 < i \<Longrightarrow> take (qs ! i) (map fst es ! (i - 1)) = take (qs ! i) (map fst es ! i)"
      using each [of i] i unfolding nth by simp_all
  qed (simp add: qs)
  moreover have fits: "table_fits es" using snoc.prems(2) by (simp add: table_fits_def)
  ultimately obtain bb where bb: "block_add_all bl p (zip qs es) = Inr bb"
      "builder_holds bl (block_restart_interval p) bb qs es"
    using snoc.IH by blast
  have w: "table_weight es + entry_weight (k, e) < 2 ^ 32" using snoc.prems(2) x by (simp add: table_fits_def)
  have k: "length k < 2 ^ 32" using w by (simp add: entry_weight_def)
  have psn: "ps ! length es = n" and keys: "map fst (es @ [x]) ! length es = k" using qs by (simp_all add: ps nth_append x)
  have n1: "n \<le> length k" and n2: "length es mod block_restart_interval p = 0 \<Longrightarrow> n = 0"
    using each [of "length es"] unfolding psn keys by simp_all
  have n3: "n \<le> length (fst (last es)) \<and> take n (fst (last es)) = take n k" if "es \<noteq> []"
  proof -
    have "map fst (es @ [x]) ! (length es - 1) = fst (last es)" using that by (simp add: nth_append last_conv_nth)
    then show ?thesis using each [of "length es"] that unfolding psn keys by simp
  qed
  have d: "length (bb_data bb) < 2 ^ 32"
    using builder_weight(1) [OF bb(2)] w by (simp add: entry_weight_def)
  obtain bb' where "block_add_entry bl p bb (prefixed_key_new n (drop n k)) k (entry_seq_number e)
        (entry_op e) (entry_data_bytes e) = Inr bb'"
      "builder_holds bl (block_restart_interval p) bb' (qs @ [n]) (es @ [(k, e)])"
    using block_add_entry_ok [OF bb(2) assms(1,2) k n1 n2 n3 d] by blast
  then show ?case using bb(1) qs by (simp add: ps x block_add_all_def fold_result_append)
qed

text \<open>C11: A data block gives back what its builder was given, for every legal choice of shared prefixes and
  every restart interval. The finished block, read back from its bytes, is the same block; its entry at
  any index has the key, sequence number, type and value that were added at that position; and the
  search by key, bloom filter, binary search over the restarts and linear scan together, finds
  exactly the keys that were added. The search ends and no offset is out of range.\<close>

theorem data_block_round_trip:
  assumes "0 < block_restart_interval p" and "bloom_laws bl"
    and "prefixes_ok (block_restart_interval p) ps (map fst es)" and "es \<noteq> []" and "sorted_strict (map fst es)"
    and "table_fits es"
  shows "\<exists>bb b. block_add_all bl p (zip ps es) = Inr bb \<and> block_finish_data bl p bb = b \<and>
      new_from_data bl (block_data b) (block_restart_interval p) = Inr b \<and>
      (\<forall>i < length es. \<exists>e. get_entry_at_index bl b i = Inr (fst (es ! i), e) \<and> entry_denotes e (snd (es ! i))) \<and>
      (\<forall>k. \<exists>r. get_by_key bl b k = Some (Inr r) \<and> rel_option entry_denotes r (map_of es k))"
proof -
  obtain bb where bb: "block_add_all bl p (zip ps es) = Inr bb" "builder_holds bl (block_restart_interval p) bb ps es"
    using block_add_all_ok [OF assms(1-3,6)] by blast
  have "length (bb_data bb) + 4 * length (bb_restart_list bb) < 2 ^ 32"
    using builder_weight(2) [OF bb(2) assms(4)] assms(6) by (simp add: table_fits_def)
  note fin = block_finish_data_ok [OF bb(2) assms(1,2,4) this]
  let ?b = "block_finish_data bl p bb"
  have "restart_interval ?b = block_restart_interval p" by (simp add: block_finish_data_def Let_def)
  then have "new_from_data bl (block_data ?b) (block_restart_interval p) = Inr ?b" using fin(2) by simp
  moreover have "\<exists>e. get_entry_at_index bl ?b i = Inr (fst (es ! i), e) \<and> entry_denotes e (snd (es ! i))"
    if "i < length es" for i
    using get_entry_at_index_ok [OF fin(1) that] entry_accessors_ok [OF fin(1) that] by (simp add: entry_denotes_def)
  moreover have "block_holds bl ?b es" using fin(1) by (auto simp: block_holds_def)
  ultimately show ?thesis using bb(1) block_lookup assms(5) by blast
qed

theorem data_block_round_trip_witness:
  "\<exists>bb b e. block_add_all (WithBloom flag_bloom) small_params (zip [0, 1, 0] example_entries) = Inr bb \<and>
      block_finish_data (WithBloom flag_bloom) small_params bb = b \<and>
      get_by_key (WithBloom flag_bloom) b [3] = Some (Inr (Some e)) \<and> get_value e = Inr (Some []) \<and>
      get_by_key (WithBloom flag_bloom) b [2] = Some (Inr None)"
proof -
  have "prefixes_ok (block_restart_interval small_params) [0, 1, 0] (map fst example_entries)"
    unfolding prefixes_ok_def
  proof (intro conjI allI)
    fix i :: nat
    have "i < 3 \<longleftrightarrow> i = 0 \<or> i = 1 \<or> i = 2" by auto
    then show "i < length (map fst example_entries) \<longrightarrow>
        (i mod block_restart_interval small_params = 0 \<longrightarrow> [0, 1, 0] ! i = 0) \<and>
        [0, 1, 0] ! i \<le> length (map fst example_entries ! i) \<and>
        (0 < i \<longrightarrow> [0, 1, 0] ! i \<le> length (map fst example_entries ! (i - 1)) \<and>
           take ([0, 1, 0] ! i) (map fst example_entries ! (i - 1)) =
           take ([0, 1, 0] ! i) (map fst example_entries ! i))"
      by (auto simp: example_entries_def small_params_def default_params_def)
  qed (simp add: example_entries_def)
  moreover have "0 < block_restart_interval small_params" by (simp add: small_params_def default_params_def)
  ultimately obtain bb b where b: "block_add_all (WithBloom flag_bloom) small_params (zip [0, 1, 0] example_entries) = Inr bb"
      "block_finish_data (WithBloom flag_bloom) small_params bb = b"
      "\<forall>k. \<exists>r. get_by_key (WithBloom flag_bloom) b k = Some (Inr r) \<and>
         rel_option entry_denotes r (map_of example_entries k)"
    using data_block_round_trip [of small_params "WithBloom flag_bloom" "[0, 1, 0]" example_entries]
      example_entries_ok(1-3) bloom_laws_flag by blast
  have m: "map_of example_entries [3] = Some (Value 6 [])" "map_of example_entries [2] = None"
    by (simp_all add: example_entries_def)
  have "\<exists>e. get_by_key (WithBloom flag_bloom) b [3] = Some (Inr (Some e)) \<and> get_value e = Inr (Some [])"
    using b(3) [rule_format, of "[3]"] m(1) by (auto simp: option_rel_Some2 entry_denotes_def)
  moreover have "get_by_key (WithBloom flag_bloom) b [2] = Some (Inr None)"
    using b(3) [rule_format, of "[2]"] m(2) by auto
  ultimately show ?thesis using b(1,2) by blast
qed

text \<open>C12: The index block of a table, read back from its bytes, has the size, key range, block keys and block
  identifiers it was built from. Searching it for a key outside of the range gives nothing; for a key
  inside, from the first block key on, it gives the last block whose first key is not greater; and
  for a key between the minimum and the first block key the assertion of the search fires.\<close>

theorem index_block_round_trip:
  assumes "length (index_prefix idx sz mn mx) + pad_offset (length idx) * 4 +
      length (index_entries_bytes idx) < 2 ^ 32" and "idx \<noteq> []" and "sorted_strict (map fst idx)"
  shows "\<exists>data. index_block_data idx sz mn mx = Inr data \<and>
      (let ib = \<lparr> ib_data = data \<rparr> in
       num_data_blocks ib = Inr (length idx) \<and> index_get_size ib = Inr (unat sz) \<and>
       index_get_min ib = Inr mn \<and> index_get_max ib = Inr mx \<and>
       (\<forall>j < length idx. get_block_key ib j = Inr (fst (idx ! j)) \<and> get_block_id ib j = Inr (snd (idx ! j))) \<and>
       (\<forall>k. if k < mn \<or> mx < k then index_binary_search ib k = Inr None
            else if fst (idx ! 0) \<le> k
            then \<exists>j. index_binary_search ib k = Inr (Some (snd (idx ! j))) \<and> block_of_key idx k j
            else index_binary_search ib k = Inl (Panic ''assertion failed: key >= self.get_block_key(start)'')))"
proof -
  obtain data where data: "index_block_data idx sz mn mx = Inr data" "index_layout data idx sz mn mx"
    using index_block_data_ok [OF assms(1)] by blast
  have ih: "index_holds \<lparr> ib_data = data \<rparr> idx sz mn mx" using data(2) by (simp add: index_holds_def)
  show ?thesis
    using data(1) index_fields_ok [OF ih] index_entry_ok [OF ih] index_binary_search_outside [OF ih]
      index_binary_search_ok [OF ih assms(3,2)] index_binary_search_gap [OF ih assms(3,2)]
    by (auto simp: Let_def not_less)
qed

definition example_index :: "(key \<times> u64) list" where
  "example_index = [([2], 7), ([5], 9)]"

theorem index_block_round_trip_witness:
  "\<exists>data. index_block_data example_index 100 [1] [8] = Inr data \<and>
      index_binary_search \<lparr> ib_data = data \<rparr> [9] = Inr None \<and>
      index_binary_search \<lparr> ib_data = data \<rparr> [1] =
        Inl (Panic ''assertion failed: key >= self.get_block_key(start)'')"
proof -
  have "length (index_prefix example_index 100 [1] [8]) + pad_offset (length example_index) * 4 +
      length (index_entries_bytes example_index) < 2 ^ 32"
    by (simp add: example_index_def length_index_prefix index_entries_bytes_def index_entry_bytes_def
        INDEX_HEADER_SIZE_def INDEX_ENTRY_HEADER_SIZE_def pad_offset_def compute_padding_def WORD_SIZE_def)
  moreover have "example_index \<noteq> []" "sorted_strict (map fst example_index)" by (simp_all add: example_index_def)
  ultimately obtain data where data: "index_block_data example_index 100 [1] [8] = Inr data"
      "\<forall>k. if k < [1] \<or> [8] < k then index_binary_search \<lparr> ib_data = data \<rparr> k = Inr None
            else if fst (example_index ! 0) \<le> k
            then \<exists>j. index_binary_search \<lparr> ib_data = data \<rparr> k = Inr (Some (snd (example_index ! j))) \<and>
                   block_of_key example_index k j
            else index_binary_search \<lparr> ib_data = data \<rparr> k =
                   Inl (Panic ''assertion failed: key >= self.get_block_key(start)'')"
    using index_block_round_trip unfolding Let_def by blast
  have "fst (example_index ! 0) = [2]" by (simp add: example_index_def)
  then show ?thesis
    using data(1) data(2) [rule_format, of "[9]"] data(2) [rule_format, of "[1]"] by simp
qed

end
