(* ===== verification/Lsm_WalTask.thy ===== *)
theory Lsm_WalTask
  imports Lsm_WalReader
begin

text \<open>
  The write-ahead log as a concurrent system: the writer task (\<open>WalWriter::update_log\<close> of
  \<open>src/src/wal/writer.rs\<close>) and any number of clients that call \<open>store\<close>, \<open>sync\<close>, \<open>set_offset\<close> and \<open>stop\<close>
  (\<open>src/src/wal/mod.rs\<close>).

  Every section of the source that runs under the lock of the log status is one function and one step;
  what the writer does without the lock is divided into a step per buffer, the sync and the removal
  of pages. A client that waits on a condition variable may go on in any state in which the condition
  holds: the source registers for the notification before it releases the lock, so none is lost.

  The lemmas establish an invariant of all reachable states, from which follow that the writer
  never fails, that a \<open>store\<close> returns only once its bytes are in the log files, and that it can always
  return.
\<close>

section \<open>The sections under the lock\<close>

record writer_work =
  to_write :: "bytes list"
  wk_sync_flag :: bool
  wk_sync_pos :: nat
  new_offset :: "(nat \<times> nat) option"
  wk_stop_flag :: bool

definition update_take :: "log_status \<Rightarrow> wal_writer \<Rightarrow> (log_status \<times> writer_work option) result" where
  "update_take st w =
     bind_result
       (if offset_pos st > flush_pos st then Inr (Some (offset_pos st, flush_pos st))
        else bind_result (assert_that (offset_pos st = flush_pos st)
               ''assertion failed: lock.offset_pos == lock.flush_pos'') (\<lambda>_. Inr None)) (\<lambda>new_offset.
     let work = \<lparr> to_write = queue st, wk_sync_flag = sync_flag st, wk_sync_pos = sync_pos st,
                  new_offset = new_offset, wk_stop_flag = stop_flag st \<rparr>;
         st = st\<lparr> queue := [] \<rparr> in
     if to_write work \<noteq> [] \<or> new_offset \<noteq> None \<or> wk_sync_flag work \<or> wk_stop_flag work
     then bind_result (assert_that (position w = write_pos st) ''assertion failed: self.position == lock.write_pos'')
            (\<lambda>_. Inr (st\<lparr> sync_flag := False \<rparr>, Some work))
     else bind_result (assert_that (write_pos st = queue_pos st) ''assertion failed: lock.write_pos == lock.queue_pos'')
            (\<lambda>_. Inr (st, None)))"

text \<open>
  \<open>sync_data\<close> makes the current log file durable; \<open>durable\<close> holds what a crash cannot take away.
\<close>

definition update_sync :: "writer_work \<Rightarrow> fs \<Rightarrow> fs \<Rightarrow> log_status \<Rightarrow> wal_writer \<Rightarrow> fs \<times> log_status" where
  "update_sync work fs durable st w =
     (if wk_sync_flag work \<and> wk_sync_pos work < position w
      then (durable(fh_path (log_file w) := fs (fh_path (log_file w))), st\<lparr> sync_pos := position w \<rparr>)
      else (durable, st))"

definition update_offset :: "params \<Rightarrow> writer_work \<Rightarrow> fs \<Rightarrow> fs result" where
  "update_offset p work fs =
     (case new_offset work of
        Some (new, old) \<Rightarrow> wal_set_offset p fs new old
      | None \<Rightarrow> Inr fs)"

definition update_notify :: "writer_work \<Rightarrow> log_status \<Rightarrow> wal_writer \<Rightarrow> log_status result" where
  "update_notify work st w =
     bind_result (assert_that (write_pos st \<le> position w) ''assertion failed: lock.write_pos <= self.position'') (\<lambda>_.
     let st = st\<lparr> write_pos := position w \<rparr> in
     Inr (case new_offset work of Some (new, _) \<Rightarrow> st\<lparr> flush_pos := new \<rparr> | None \<Rightarrow> st))"

text \<open>The first part of \<open>sync\<close>: \<open>None\<close> when there is nothing to do, else the position to wait for.\<close>

definition sync_begin :: "log_status \<Rightarrow> (log_status \<times> nat option) result" where
  "sync_begin st =
     (if sync_pos st = write_pos st then Inr (st, None)
      else bind_result (assert_that (sync_pos st < write_pos st) ''assertion failed: lock.sync_pos < lock.write_pos'')
             (\<lambda>_. Inr (st\<lparr> sync_flag := True \<rparr>, Some (sync_pos st))))"

definition offset_begin :: "log_status \<Rightarrow> nat \<Rightarrow> log_status result" where
  "offset_begin st new =
     (if new \<le> offset_pos st then Inl (Panic ''Offset can only be increased!'')
      else Inr (st\<lparr> offset_pos := new \<rparr>))"

definition stop_begin :: "log_status \<Rightarrow> log_status" where
  "stop_begin st = st\<lparr> stop_flag := True \<rparr>"

section \<open>The system\<close>

datatype writer_phase =
    Polling
  | Writing writer_work
  | Synced writer_work
  | OffsetSet writer_work
  | Finished

text \<open>
  A client that stores waits for the position \<open>end_pos\<close>; the bytes it has queued are kept for the
  statement of the theorems only, like the stream of all bytes that were ever queued.
\<close>

datatype client_state = Idle | Storing nat bytes | Syncing nat | SettingOffset nat | Stopping

record wal_sys =
  ws_status :: log_status
  ws_fs :: fs
  ws_durable :: fs
  ws_writer :: wal_writer
  ws_phase :: writer_phase
  finish_receiver :: bool
  ws_clients :: "nat \<Rightarrow> client_state"
  ws_stream :: bytes

abbreviation set_client :: "wal_sys \<Rightarrow> nat \<Rightarrow> client_state \<Rightarrow> wal_sys" where
  "set_client s i c \<equiv> s\<lparr> ws_clients := (ws_clients s)(i := c) \<rparr>"

inductive writer_step :: "params \<Rightarrow> io_mode \<Rightarrow> wal_sys \<Rightarrow> wal_sys \<Rightarrow> bool" for p mode where
  take_work:
    "ws_phase s = Polling \<Longrightarrow> update_take (ws_status s) (ws_writer s) = Inr (st, Some work) \<Longrightarrow>
     writer_step p mode s (s\<lparr> ws_status := st, ws_phase := Writing work \<rparr>)"
| wait_work:
    "ws_phase s = Polling \<Longrightarrow> update_take (ws_status s) (ws_writer s) = Inr (st, None) \<Longrightarrow>
     writer_step p mode s (s\<lparr> ws_status := st \<rparr>)"
| write_buffer:
    "ws_phase s = Writing work \<Longrightarrow> to_write work = buf # bufs \<Longrightarrow>
     wal_write_all p mode (ws_fs s) (ws_writer s) buf 0 = (fs, w) \<Longrightarrow>
     writer_step p mode s (s\<lparr> ws_fs := fs, ws_writer := w, ws_phase := Writing (work\<lparr> to_write := bufs \<rparr>) \<rparr>)"
| sync_file:
    "ws_phase s = Writing work \<Longrightarrow> to_write work = [] \<Longrightarrow>
     update_sync work (ws_fs s) (ws_durable s) (ws_status s) (ws_writer s) = (durable, st) \<Longrightarrow>
     writer_step p mode s (s\<lparr> ws_durable := durable, ws_status := st, ws_phase := Synced work \<rparr>)"
| remove_pages:
    "ws_phase s = Synced work \<Longrightarrow> update_offset p work (ws_fs s) = Inr fs \<Longrightarrow>
     writer_step p mode s (s\<lparr> ws_fs := fs, ws_phase := OffsetSet work \<rparr>)"
| notify:
    "ws_phase s = OffsetSet work \<Longrightarrow> update_notify work (ws_status s) (ws_writer s) = Inr st \<Longrightarrow>
     writer_step p mode s
       (s\<lparr> ws_status := st, ws_phase := (if wk_stop_flag work then Finished else Polling) \<rparr>)"

text \<open>
  Clients. \<open>stop\<close> takes the receiver of the end of the writer, so it runs once; \<open>DbLogic\<close> passes to \<open>set_offset\<close> only positions that \<open>store\<close> has returned, which are not
  greater than the write position.
\<close>

inductive client_step :: "wal_sys \<Rightarrow> wal_sys \<Rightarrow> bool" where
  store:
    "ws_clients s i = Idle \<Longrightarrow> store_enqueue (ws_status s) batch = (st, end_pos) \<Longrightarrow>
     data = concat (map encode_entry batch) \<Longrightarrow>
     client_step s (set_client (s\<lparr> ws_status := st, ws_stream := ws_stream s @ data \<rparr>) i (Storing end_pos data))"
| store_returns:
    "ws_clients s i = Storing end_pos data \<Longrightarrow> end_pos \<le> write_pos (ws_status s) \<Longrightarrow>
     client_step s (set_client s i Idle)"
| sync:
    "ws_clients s i = Idle \<Longrightarrow> sync_begin (ws_status s) = Inr (st, r) \<Longrightarrow>
     client_step s (set_client (s\<lparr> ws_status := st \<rparr>) i (case r of None \<Rightarrow> Idle | Some last_pos \<Rightarrow> Syncing last_pos))"
| sync_returns:
    "ws_clients s i = Syncing last_pos \<Longrightarrow> last_pos < sync_pos (ws_status s) \<Longrightarrow> client_step s (set_client s i Idle)"
| set_offset:
    "ws_clients s i = Idle \<Longrightarrow> new \<le> write_pos (ws_status s) \<Longrightarrow> offset_begin (ws_status s) new = Inr st \<Longrightarrow>
     client_step s (set_client (s\<lparr> ws_status := st \<rparr>) i (SettingOffset new))"
| set_offset_returns:
    "ws_clients s i = SettingOffset new \<Longrightarrow> new \<le> flush_pos (ws_status s) \<Longrightarrow> client_step s (set_client s i Idle)"
| stop:
    "ws_clients s i = Idle \<Longrightarrow> finish_receiver s \<Longrightarrow>
     client_step s
       (set_client (s\<lparr> ws_status := stop_begin (ws_status s), finish_receiver := False \<rparr>) i Stopping)"
| stop_returns:
    "ws_clients s i = Stopping \<Longrightarrow> ws_phase s = Finished \<Longrightarrow> client_step s (set_client s i Idle)"

text \<open>The log right after it was created or opened: the writer stands at the end of the stream.\<close>

definition wal_init :: "params \<Rightarrow> io_mode \<Rightarrow> wal_sys \<Rightarrow> bool" where
  "wal_init p mode s \<longleftrightarrow>
     (\<exists>start. writer_ok p mode (ws_fs s) start (ws_writer s) (ws_stream s) \<and>
        ws_status s = log_status_new (length (ws_stream s)) start) \<and>
     ws_phase s = Polling \<and> ws_clients s = (\<lambda>_. Idle)"

inductive wal_reachable :: "params \<Rightarrow> io_mode \<Rightarrow> wal_sys \<Rightarrow> bool" for p mode where
  init: "wal_init p mode s \<Longrightarrow> wal_reachable p mode s"
| writer: "wal_reachable p mode s \<Longrightarrow> writer_step p mode s t \<Longrightarrow> wal_reachable p mode t"
| client: "wal_reachable p mode s \<Longrightarrow> client_step s t \<Longrightarrow> wal_reachable p mode t"

section \<open>The invariant\<close>

primrec pending :: "writer_phase \<Rightarrow> bytes list" where
  "pending Polling = []"
| "pending (Writing work) = to_write work"
| "pending (Synced work) = []"
| "pending (OffsetSet work) = []"
| "pending Finished = []"

primrec phase_work :: "writer_phase \<Rightarrow> writer_work option" where
  "phase_work Polling = None"
| "phase_work (Writing work) = Some work"
| "phase_work (Synced work) = Some work"
| "phase_work (OffsetSet work) = Some work"
| "phase_work Finished = None"

text \<open>The first position whose page must still exist.\<close>

definition log_floor :: "nat \<Rightarrow> writer_phase \<Rightarrow> nat" where
  "log_floor flush ph =
     (case ph of
        OffsetSet work \<Rightarrow> (case new_offset work of Some (new, old) \<Rightarrow> new | None \<Rightarrow> flush)
      | _ \<Rightarrow> flush)"

definition stored_at :: "bytes \<Rightarrow> nat \<Rightarrow> bytes \<Rightarrow> bool" where
  "stored_at stream end_pos data \<longleftrightarrow>
     length data \<le> end_pos \<and> end_pos \<le> length stream \<and>
     take (length data) (drop (end_pos - length data) stream) = data"

definition client_ok :: "bytes \<Rightarrow> nat \<Rightarrow> client_state \<Rightarrow> bool" where
  "client_ok stream offset c \<longleftrightarrow>
     (case c of
        Storing end_pos data \<Rightarrow> stored_at stream end_pos data
      | SettingOffset new \<Rightarrow> new \<le> offset
      | _ \<Rightarrow> True)"

definition status_ok :: "log_status \<Rightarrow> wal_writer \<Rightarrow> bytes \<Rightarrow> bool" where
  "status_ok st w stream \<longleftrightarrow>
     queue_pos st = length stream \<and> flush_pos st \<le> offset_pos st \<and> offset_pos st \<le> write_pos st \<and>
     write_pos st \<le> position w \<and> sync_pos st \<le> position w \<and> position w \<le> length stream"

definition work_ok :: "nat \<Rightarrow> nat \<Rightarrow> writer_work \<Rightarrow> bool" where
  "work_ok flush offset work \<longleftrightarrow>
     (case new_offset work of
        Some (new, old) \<Rightarrow> old = flush \<and> old < new \<and> new \<le> offset
      | None \<Rightarrow> True)"

definition phase_ok :: "nat \<Rightarrow> log_status \<Rightarrow> writer_phase \<Rightarrow> bool" where
  "phase_ok pos st ph \<longleftrightarrow>
     (case phase_work ph of
        None \<Rightarrow> pos = write_pos st
      | Some work \<Rightarrow> work_ok (flush_pos st) (offset_pos st) work)"

definition wal_inv :: "params \<Rightarrow> io_mode \<Rightarrow> wal_sys \<Rightarrow> bool" where
  "wal_inv p mode s \<longleftrightarrow>
     status_ok (ws_status s) (ws_writer s) (ws_stream s) \<and>
     drop (position (ws_writer s)) (ws_stream s) = concat (pending (ws_phase s)) @ concat (queue (ws_status s)) \<and>
     writer_ok p mode (ws_fs s) (log_floor (flush_pos (ws_status s)) (ws_phase s)) (ws_writer s) (take (position (ws_writer s)) (ws_stream s)) \<and>
     phase_ok (position (ws_writer s)) (ws_status s) (ws_phase s) \<and>
     (\<forall>i. client_ok (ws_stream s) (offset_pos (ws_status s)) (ws_clients s i))"


lemma store_enqueue_eq:
  "store_enqueue st batch =
     (st\<lparr> queue := queue st @ map encode_entry batch,
          queue_pos := queue_pos st + length (concat (map encode_entry batch)) \<rparr>,
      queue_pos st + length (concat (map encode_entry batch)))"
proof -
  have "fold (\<lambda>data (st, end_pos).
             (st\<lparr> queue := queue st @ [data], queue_pos := queue_pos st + length data \<rparr>,
              end_pos + length data)) ws (st, n) =
        (st\<lparr> queue := queue st @ ws, queue_pos := queue_pos st + length (concat ws) \<rparr>,
         n + length (concat ws))" for ws n
    by (induction ws arbitrary: st n) (simp_all add: algebra_simps)
  then show ?thesis by (simp add: store_enqueue_def)
qed

lemma stored_at_append: "stored_at s e d \<Longrightarrow> stored_at (s @ t) e d"
  by (auto simp: stored_at_def)

lemma stored_at_end: "stored_at (s @ d) (length s + length d) d"
  by (simp add: stored_at_def)


lemma client_ok_mono:
  "client_ok s n c \<Longrightarrow> n \<le> n' \<Longrightarrow> client_ok (s @ t) n' c"
  by (auto simp: client_ok_def stored_at_append split: client_state.splits)

lemma work_ok_mono: "work_ok flush n work \<Longrightarrow> n \<le> n' \<Longrightarrow> work_ok flush n' work"
  by (auto simp: work_ok_def split: option.splits)

lemmas wal_inv_defs = wal_inv_def status_ok_def work_ok_def log_floor_def phase_ok_def

lemma wal_invD:
  assumes "wal_inv p mode s"
  shows "status_ok (ws_status s) (ws_writer s) (ws_stream s)"
    and "drop (position (ws_writer s)) (ws_stream s) = concat (pending (ws_phase s)) @ concat (queue (ws_status s))"
    and "writer_ok p mode (ws_fs s) (log_floor (flush_pos (ws_status s)) (ws_phase s)) (ws_writer s) (take (position (ws_writer s)) (ws_stream s))"
    and "phase_ok (position (ws_writer s)) (ws_status s) (ws_phase s)"
    and "client_ok (ws_stream s) (offset_pos (ws_status s)) (ws_clients s i)"
  using assms by (simp_all add: wal_inv_def)

lemma wal_init_inv:
  assumes "wal_init p mode s"
  shows "wal_inv p mode s"
  using assms
  by (auto simp: wal_init_def wal_inv_defs client_ok_def log_status_new_def writer_ok_def)

subsection \<open>The writer\<close>

text \<open>What the writer takes in a state that satisfies the invariant; no assertion fails.\<close>

lemma update_take_ok:
  assumes inv: "wal_inv p mode s" and ph: "ws_phase s = Polling"
  shows "\<exists>st r. update_take (ws_status s) (ws_writer s) = Inr (st, r)"
    and "update_take (ws_status s) (ws_writer s) = Inr (st, Some work) \<Longrightarrow>
           st = (ws_status s)\<lparr> queue := [], sync_flag := False \<rparr> \<and> to_write work = queue (ws_status s) \<and>
           wk_stop_flag work = stop_flag (ws_status s) \<and> work_ok (flush_pos (ws_status s)) (offset_pos (ws_status s)) work"
    and "update_take (ws_status s) (ws_writer s) = Inr (st, None) \<Longrightarrow>
           st = ws_status s \<and> queue st = [] \<and> \<not> stop_flag st"
proof -
  have pos: "position (ws_writer s) = write_pos (ws_status s)"
    and st: "status_ok (ws_status s) (ws_writer s) (ws_stream s)"
    and rest: "drop (position (ws_writer s)) (ws_stream s) = concat (queue (ws_status s))"
    using wal_invD(1,2,4) [OF inv] ph by (simp_all add: phase_ok_def)
  have "queue (ws_status s) = [] \<Longrightarrow> write_pos (ws_status s) = queue_pos (ws_status s)"
    using rest st pos by (simp add: status_ok_def)
  then show "\<exists>st r. update_take (ws_status s) (ws_writer s) = Inr (st, r)"
    using st pos by (auto simp: update_take_def status_ok_def assert_that_def Let_def)
  show "update_take (ws_status s) (ws_writer s) = Inr (st, Some work) \<Longrightarrow>
           st = (ws_status s)\<lparr> queue := [], sync_flag := False \<rparr> \<and> to_write work = queue (ws_status s) \<and>
           wk_stop_flag work = stop_flag (ws_status s) \<and> work_ok (flush_pos (ws_status s)) (offset_pos (ws_status s)) work"
    by (auto simp: update_take_def assert_that_def Let_def work_ok_def split: if_splits)
  show "update_take (ws_status s) (ws_writer s) = Inr (st, None) \<Longrightarrow>
           st = ws_status s \<and> queue st = [] \<and> \<not> stop_flag st"
    by (auto simp: update_take_def assert_that_def Let_def split: if_splits)
qed

lemma update_offset_ok:
  assumes inv: "wal_inv p mode s" and ph: "ws_phase s = Synced work"
  shows "\<exists>fs. update_offset p work (ws_fs s) = Inr fs"
    and "update_offset p work (ws_fs s) = Inr fs \<Longrightarrow>
           writer_ok p mode fs (case new_offset work of Some (new, old) \<Rightarrow> new | None \<Rightarrow> flush_pos (ws_status s))
             (ws_writer s) (take (position (ws_writer s)) (ws_stream s))"
proof -
  let ?s = "take (position (ws_writer s)) (ws_stream s)"
  have st: "status_ok (ws_status s) (ws_writer s) (ws_stream s)" and wk: "work_ok (flush_pos (ws_status s)) (offset_pos (ws_status s)) work"
    and w: "writer_ok p mode (ws_fs s) (flush_pos (ws_status s)) (ws_writer s) ?s"
    using wal_invD(1,3,4) [OF inv] ph by (simp_all add: log_floor_def phase_ok_def)
  have "\<exists>fs. update_offset p work (ws_fs s) = Inr fs \<and>
           writer_ok p mode fs (case new_offset work of Some (new, old) \<Rightarrow> new | None \<Rightarrow> flush_pos (ws_status s))
             (ws_writer s) ?s"
  proof (cases "new_offset work")
    case None
    then show ?thesis using w by (simp add: update_offset_def)
  next
    case (Some a)
    obtain new old where a: "a = (new, old)" by fastforce
    have le: "old = flush_pos (ws_status s)" "old \<le> new" "new \<le> length ?s"
      using wk st Some a by (auto simp: work_ok_def status_ok_def)
    have "log_files_ok p (ws_fs s) old ?s" using w le by (simp add: writer_ok_def)
    from wal_set_offset_ok [OF this le(2,3)] obtain fs
      where "wal_set_offset p (ws_fs s) new old = Inr fs" "log_files_ok p fs new ?s" by blast
    then show ?thesis using Some a w le by (simp add: update_offset_def writer_ok_def)
  qed
  then show "\<exists>fs. update_offset p work (ws_fs s) = Inr fs"
    and "update_offset p work (ws_fs s) = Inr fs \<Longrightarrow>
           writer_ok p mode fs (case new_offset work of Some (new, old) \<Rightarrow> new | None \<Rightarrow> flush_pos (ws_status s))
             (ws_writer s) ?s"
    by auto
qed

lemma update_notify_ok:
  assumes inv: "wal_inv p mode s" and ph: "ws_phase s = OffsetSet work"
  shows "update_notify work (ws_status s) (ws_writer s) =
           Inr ((ws_status s)\<lparr> write_pos := position (ws_writer s), flush_pos := log_floor (flush_pos (ws_status s)) (ws_phase s) \<rparr>)"
  using wal_invD(1) [OF inv] ph
  by (auto simp: update_notify_def status_ok_def assert_that_def log_floor_def phase_ok_def split: option.splits)

lemma write_buffer_inv:
  assumes inv: "wal_inv p mode s" and ph: "ws_phase s = Writing work" "to_write work = buf # bufs"
    and wr: "wal_write_all p mode (ws_fs s) (ws_writer s) buf 0 = (fs, w)"
  shows "wal_inv p mode (s\<lparr> ws_fs := fs, ws_writer := w, ws_phase := Writing (work\<lparr> to_write := bufs \<rparr>) \<rparr>)"
proof -
  let ?n = "position (ws_writer s)" and ?s = "ws_stream s"
  have st: "status_ok (ws_status s) (ws_writer s) ?s" and wk: "work_ok (flush_pos (ws_status s)) (offset_pos (ws_status s)) work"
    and rest: "drop ?n ?s = buf @ concat bufs @ concat (queue (ws_status s))"
    and w: "writer_ok p mode (ws_fs s) (flush_pos (ws_status s)) (ws_writer s) (take ?n ?s)"
    and cl: "\<And>i. client_ok (ws_stream s) (offset_pos (ws_status s)) (ws_clients s i)"
    using wal_invD [OF inv] ph by (simp_all add: log_floor_def phase_ok_def)
  have w': "writer_ok p mode fs (flush_pos (ws_status s)) w (take ?n ?s @ buf)"
    using wal_write_all_ok [OF w wr] by simp
  have s: "?s = (take ?n ?s @ buf) @ concat bufs @ concat (queue (ws_status s))"
    using rest append_take_drop_id [of ?n ?s] by simp
  have n': "position w = ?n + length buf"
    using w' st by (simp add: writer_ok_def status_ok_def)
  have len: "length (take ?n ?s @ buf) = position w" using n' st by (simp add: status_ok_def)
  have tk: "take (position w) ?s = take ?n ?s @ buf"
    using s len by (metis append_eq_conv_conj)
  have dr: "drop (position w) ?s = concat bufs @ concat (queue (ws_status s))"
    using s len by (metis append_eq_conv_conj)
  have "position w \<le> length ?s" using s len by (metis length_append le_add1)
  then have "status_ok (ws_status s) w ?s" using st n' by (simp add: status_ok_def)
  then show ?thesis using w' wk cl tk dr
    by (simp add: wal_inv_def log_floor_def phase_ok_def work_ok_def)
qed

lemma writer_step_inv:
  assumes step: "writer_step p mode s t" and inv: "wal_inv p mode s"
  shows "wal_inv p mode t"
  using step
proof cases
  case (take_work st work)
  note inv' = wal_invD [OF inv] and tw = update_take_ok(2) [OF inv take_work(2,3)]
  show ?thesis using inv' tw take_work(1,2)
    by (simp add: wal_inv_def status_ok_def log_floor_def phase_ok_def)
next
  case (wait_work st)
  then show ?thesis using update_take_ok(3) [OF inv wait_work(2,3)] inv by simp
next
  case (write_buffer work buf bufs fs w)
  then show ?thesis using write_buffer_inv [OF inv] by simp
next
  case (sync_file work durable st)
  note inv' = wal_invD [OF inv]
  show ?thesis using inv' sync_file
    by (auto simp: update_sync_def wal_inv_def status_ok_def log_floor_def phase_ok_def
        split: if_splits option.splits)
next
  case (remove_pages work fs)
  note inv' = wal_invD [OF inv] and w = update_offset_ok(2) [OF inv remove_pages(2,3)]
  show ?thesis using inv' w remove_pages(1,2)
    by (simp add: wal_inv_def log_floor_def phase_ok_def cong: option.case_cong)
next
  case (notify work st)
  note inv' = wal_invD [OF inv]
  have "log_floor (flush_pos (ws_status s)) (ws_phase s) \<le> offset_pos (ws_status s)"
    using inv'(1,4) notify(2) by (auto simp: log_floor_def phase_ok_def status_ok_def work_ok_def split: option.splits)
  then show ?thesis using inv' notify(1,2) update_notify_ok [OF inv notify(2)] notify(3)
    by (auto simp: wal_inv_def status_ok_def phase_ok_def log_floor_def split: option.splits)
qed

subsection \<open>The clients\<close>

lemma wal_inv_client:
  assumes "wal_inv p mode s" and "client_ok (ws_stream s) (offset_pos (ws_status s)) c"
  shows "wal_inv p mode (set_client s i c)"
  using assms by (auto simp: wal_inv_def)

lemma store_inv:
  assumes inv: "wal_inv p mode s"
    and st: "store_enqueue (ws_status s) batch = (st, end_pos)" "data = concat (map encode_entry batch)"
  shows "wal_inv p mode (s\<lparr> ws_status := st, ws_stream := ws_stream s @ data \<rparr>)"
    and "stored_at (ws_stream s @ data) end_pos data"
proof -
  note inv' = wal_invD [OF inv]
  have st': "st = (ws_status s)\<lparr> queue := queue (ws_status s) @ map encode_entry batch,
               queue_pos := queue_pos (ws_status s) + length data \<rparr>"
    "end_pos = queue_pos (ws_status s) + length data"
    using st by (auto simp: store_enqueue_eq)
  have pos: "position (ws_writer s) \<le> length (ws_stream s)" using inv'(1) by (simp add: status_ok_def)
  show "wal_inv p mode (s\<lparr> ws_status := st, ws_stream := ws_stream s @ data \<rparr>)"
    using inv' pos
    by (auto simp: wal_inv_def status_ok_def log_floor_def phase_ok_def st' st(2) intro: client_ok_mono [OF inv'(5) order_refl]
        split: option.splits)
  show "stored_at (ws_stream s @ data) end_pos data"
    using inv'(1) st' stored_at_end [of "ws_stream s" data] by (simp add: status_ok_def)
qed

lemma wal_inv_status:
  assumes inv: "wal_inv p mode s" and le: "offset_pos (ws_status s) \<le> n" "n \<le> write_pos (ws_status s)"
  shows "wal_inv p mode (s\<lparr> ws_status := (ws_status s)\<lparr> offset_pos := n, sync_flag := a, stop_flag := b \<rparr>,
           finish_receiver := r \<rparr>)"
proof -
  note inv' = wal_invD [OF inv]
  have cl: "client_ok (ws_stream s) n (ws_clients s i)" for i
    using client_ok_mono [OF inv'(5) le(1), where t = "[]"] by simp
  show ?thesis
    using inv' le cl by (auto simp: wal_inv_def status_ok_def log_floor_def phase_ok_def intro: work_ok_mono
        split: option.splits writer_phase.splits)
qed

lemma client_step_inv:
  assumes step: "client_step s t" and inv: "wal_inv p mode s"
  shows "wal_inv p mode t"
  using step
proof cases
  case (store i batch st end_pos data)
  note st = store_inv [OF inv store(3,4)]
  then have "client_ok (ws_stream s @ data) n (Storing end_pos data)" for n
    by (simp add: client_ok_def)
  then show ?thesis unfolding store(1) by (intro wal_inv_client st(1)) simp
next
  case (sync i st r)
  have "\<exists>f. st = (ws_status s)\<lparr> sync_flag := f \<rparr>"
    using sync(3) by (auto simp: sync_begin_def assert_that_def split: if_splits)
      (metis log_status.surjective log_status.update_convs(5))
  then obtain f where st: "st = (ws_status s)\<lparr> sync_flag := f \<rparr>" by blast
  have "offset_pos (ws_status s) \<le> write_pos (ws_status s)"
    using wal_invD(1) [OF inv] by (simp add: status_ok_def)
  from wal_inv_status [OF inv order_refl this, where a = f and b = "stop_flag (ws_status s)"
      and r = "finish_receiver s"]
  have "wal_inv p mode (s\<lparr> ws_status := st \<rparr>)" by (simp add: st)
  then show ?thesis unfolding sync(1)
    by (rule wal_inv_client) (simp add: client_ok_def split: option.splits)
next
  case (set_offset i new st)
  have st: "st = (ws_status s)\<lparr> offset_pos := new \<rparr>" "offset_pos (ws_status s) \<le> new"
    using set_offset(4) by (auto simp: offset_begin_def split: if_splits)
  from wal_inv_status [OF inv st(2) set_offset(3), where a = "sync_flag (ws_status s)"
      and b = "stop_flag (ws_status s)" and r = "finish_receiver s"]
  have "wal_inv p mode (s\<lparr> ws_status := st \<rparr>)" by (simp add: st)
  then show ?thesis unfolding set_offset(1)
    by (rule wal_inv_client) (simp add: client_ok_def st)
next
  case (stop i)
  have "offset_pos (ws_status s) \<le> write_pos (ws_status s)"
    using wal_invD(1) [OF inv] by (simp add: status_ok_def)
  from wal_inv_status [OF inv order_refl this, where a = "sync_flag (ws_status s)" and b = True and r = False]
  have "wal_inv p mode (s\<lparr> ws_status := stop_begin (ws_status s), finish_receiver := False \<rparr>)"
    by (simp add: stop_begin_def)
  then show ?thesis unfolding stop(1)
    by (rule wal_inv_client) (simp add: client_ok_def)
qed (auto intro!: wal_inv_client inv simp: client_ok_def)

lemma wal_reachable_inv: "wal_reachable p mode s \<Longrightarrow> wal_inv p mode s"
  by (induction rule: wal_reachable.induct) (blast intro: wal_init_inv writer_step_inv client_step_inv)+

subsection \<open>Progress\<close>

text \<open>What the steps of the writer leave alone.\<close>

definition undisturbed :: "wal_sys \<Rightarrow> wal_sys \<Rightarrow> bool" where
  "undisturbed s t \<longleftrightarrow> ws_clients t = ws_clients s \<and> ws_stream t = ws_stream s \<and>
     stop_flag (ws_status t) = stop_flag (ws_status s)"

lemma undisturbed_trans: "undisturbed s t \<Longrightarrow> undisturbed t u \<Longrightarrow> undisturbed s u"
  by (simp add: undisturbed_def)




lemma writes_done:
  assumes "wal_inv p mode s" and "ws_phase s = Writing work"
  shows "\<exists>fs w. (writer_step p mode)\<^sup>*\<^sup>* s
           (s\<lparr> ws_fs := fs, ws_writer := w, ws_phase := Writing (work\<lparr> to_write := [] \<rparr>) \<rparr>)"
  using assms
proof (induction "to_write work" arbitrary: s work)
  case Nil
  then have "s\<lparr> ws_fs := ws_fs s, ws_writer := ws_writer s, ws_phase := Writing (work\<lparr> to_write := [] \<rparr>) \<rparr> = s"
    by simp
  then show ?case by (metis rtranclp.rtrancl_refl)
next
  case (Cons buf bufs)
  obtain fs w where wr: "wal_write_all p mode (ws_fs s) (ws_writer s) buf 0 = (fs, w)" by fastforce
  let ?u = "s\<lparr> ws_fs := fs, ws_writer := w, ws_phase := Writing (work\<lparr> to_write := bufs \<rparr>) \<rparr>"
  have step: "writer_step p mode s ?u"
    by (rule writer_step.write_buffer [OF Cons(4) Cons(2) [symmetric] wr])
  obtain fs' w' where "(writer_step p mode)\<^sup>*\<^sup>* ?u
      (?u\<lparr> ws_fs := fs', ws_writer := w', ws_phase := Writing (work\<lparr> to_write := [] \<rparr>) \<rparr>)"
    using Cons(1) [of "work\<lparr> to_write := bufs \<rparr>" ?u] writer_step_inv [OF step Cons(3)] by auto
  from converse_rtranclp_into_rtranclp [of "writer_step p mode", OF step this] show ?case by auto
qed






section \<open>Runs\<close>

lemma reachable_steps:
  "(writer_step p mode)\<^sup>*\<^sup>* s t \<Longrightarrow> wal_reachable p mode s \<Longrightarrow> wal_reachable p mode t"
  by (induction rule: rtranclp_induct) (auto intro: wal_reachable.writer)

text \<open>A round of the writer that only writes what is queued.\<close>

lemma plain_round:
  assumes reach: "wal_reachable p mode s" and ph: "ws_phase s = Polling"
    and st: "queue (ws_status s) \<noteq> []" "\<not> sync_flag (ws_status s)" "\<not> stop_flag (ws_status s)"
      "offset_pos (ws_status s) = flush_pos (ws_status s)"
  shows "\<exists>fs w. wal_reachable p mode (s\<lparr> ws_fs := fs, ws_writer := w,
           ws_status := (ws_status s)\<lparr> queue := [], write_pos := queue_pos (ws_status s) \<rparr> \<rparr>)"
proof -
  let ?st = "(ws_status s)\<lparr> queue := [] \<rparr>"
  define work where "work = \<lparr> to_write = queue (ws_status s), wk_sync_flag = False,
    wk_sync_pos = sync_pos (ws_status s), new_offset = None, wk_stop_flag = False \<rparr>"
  have inv: "wal_inv p mode s" by (rule wal_reachable_inv [OF reach])
  have pos: "position (ws_writer s) = write_pos (ws_status s)"
    using wal_invD(4) [OF inv] ph by (simp add: phase_ok_def)
  have "update_take (ws_status s) (ws_writer s) = Inr (?st, Some work)"
    using st pos by (simp add: update_take_def work_def Let_def assert_that_def)
  from writer_step.take_work [OF ph this]
  have "writer_step p mode s (s\<lparr> ws_status := ?st, ws_phase := Writing work \<rparr>)" .
  from wal_reachable.writer [OF reach this]
  have taken: "wal_reachable p mode (s\<lparr> ws_status := ?st, ws_phase := Writing work \<rparr>)" (is "wal_reachable _ _ ?t") .
  obtain fs w where "(writer_step p mode)\<^sup>*\<^sup>* ?t
      (?t\<lparr> ws_fs := fs, ws_writer := w, ws_phase := Writing (work\<lparr> to_write := [] \<rparr>) \<rparr>)" (is "rtranclp _ _ ?u")
    using writes_done [OF wal_reachable_inv [OF taken], of work] by auto
  from reachable_steps [OF this taken] have written: "wal_reachable p mode ?u" .
  have "writer_step p mode ?u (?u\<lparr> ws_durable := ws_durable ?u, ws_status := ?st,
      ws_phase := Synced (work\<lparr> to_write := [] \<rparr>) \<rparr>)" (is "writer_step _ _ _ ?v")
    by (rule writer_step.sync_file) (simp_all add: update_sync_def work_def)
  from wal_reachable.writer [OF written this] have synced: "wal_reachable p mode ?v" .
  have "writer_step p mode ?v (?v\<lparr> ws_fs := fs, ws_phase := OffsetSet (work\<lparr> to_write := [] \<rparr>) \<rparr>)" (is "writer_step _ _ _ ?x")
    by (rule writer_step.remove_pages) (simp_all add: update_offset_def work_def)
  from wal_reachable.writer [OF synced this] have set: "wal_reachable p mode ?x" .
  note invx = wal_reachable_inv [OF set]
  have posx: "position w = queue_pos (ws_status s)" "flush_pos (ws_status s) = log_floor (flush_pos (ws_status s)) (ws_phase ?x)"
    using wal_invD(1,2) [OF invx] by (simp_all add: status_ok_def log_floor_def work_def)
  have "writer_step p mode ?x (?x\<lparr> ws_status := ?st\<lparr> write_pos := position w \<rparr>, ws_phase := Polling \<rparr>)"
    using writer_step.notify [of ?x "work\<lparr> to_write := [] \<rparr>" "?st\<lparr> write_pos := position w \<rparr>" p mode]
      update_notify_ok [OF invx, of "work\<lparr> to_write := [] \<rparr>"] posx(2)
    by (simp add: work_def)
  from wal_reachable.writer [OF set this] show ?thesis
    using ph posx(1) by (intro exI [of _ fs] exI [of _ w]) (cases s, simp)
qed

text \<open>A round with a sync, up to the point at which \<open>sync_pos\<close> has been raised.\<close>

lemma sync_round:
  assumes reach: "wal_reachable p mode s" and ph: "ws_phase s = Polling"
    and st: "sync_flag (ws_status s)" "\<not> stop_flag (ws_status s)" "offset_pos (ws_status s) = flush_pos (ws_status s)"
      "sync_pos (ws_status s) < queue_pos (ws_status s)"
  shows "\<exists>fs w ph f. wal_reachable p mode (s\<lparr> ws_fs := fs, ws_writer := w, ws_phase := ph,
      ws_durable := (ws_durable s)(f := fs f),
      ws_status := (ws_status s)\<lparr> queue := [], sync_flag := False, sync_pos := queue_pos (ws_status s) \<rparr> \<rparr>) \<and>
      f = wal_file_path p (length (ws_stream s) div PAGE_SIZE) \<and>
      log_files_ok p fs (flush_pos (ws_status s)) (ws_stream s)"
proof -
  let ?st = "(ws_status s)\<lparr> queue := [], sync_flag := False \<rparr>"
  define work where "work = \<lparr> to_write = queue (ws_status s), wk_sync_flag = True,
    wk_sync_pos = sync_pos (ws_status s), new_offset = None, wk_stop_flag = False \<rparr>"
  have inv: "wal_inv p mode s" by (rule wal_reachable_inv [OF reach])
  have pos: "position (ws_writer s) = write_pos (ws_status s)"
    using wal_invD(4) [OF inv] ph by (simp add: phase_ok_def)
  have "update_take (ws_status s) (ws_writer s) = Inr (?st, Some work)"
    using st pos by (simp add: update_take_def work_def Let_def assert_that_def)
  from writer_step.take_work [OF ph this]
  have "writer_step p mode s (s\<lparr> ws_status := ?st, ws_phase := Writing work \<rparr>)" .
  from wal_reachable.writer [OF reach this]
  have taken: "wal_reachable p mode (s\<lparr> ws_status := ?st, ws_phase := Writing work \<rparr>)" (is "wal_reachable _ _ ?t") .
  obtain fs w where "(writer_step p mode)\<^sup>*\<^sup>* ?t
      (?t\<lparr> ws_fs := fs, ws_writer := w, ws_phase := Writing (work\<lparr> to_write := [] \<rparr>) \<rparr>)" (is "rtranclp _ _ ?u")
    using writes_done [OF wal_reachable_inv [OF taken], of work] by auto
  from reachable_steps [OF this taken] have written: "wal_reachable p mode ?u" .
  note invu = wal_reachable_inv [OF written]
  have posu: "position w = queue_pos (ws_status s)"
    and q: "length (ws_stream s) = queue_pos (ws_status s)"
    using wal_invD(1,2) [OF invu] by (simp_all add: status_ok_def work_def)
  have files: "log_files_ok p fs (flush_pos (ws_status s)) (ws_stream s)"
    and path: "fh_path (log_file w) = wal_file_path p (length (ws_stream s) div PAGE_SIZE)"
    using wal_invD(3) [OF invu] posu q by (simp_all add: writer_ok_def log_floor_def)
  let ?f = "fh_path (log_file w)"
  have "writer_step p mode ?u (?u\<lparr> ws_durable := (ws_durable s)(?f := fs ?f),
      ws_status := ?st\<lparr> sync_pos := position w \<rparr>, ws_phase := Synced (work\<lparr> to_write := [] \<rparr>) \<rparr>)"
    by (rule writer_step.sync_file) (use st(4) posu in \<open>simp_all add: update_sync_def work_def\<close>)
  from wal_reachable.writer [OF written this] show ?thesis
    using posu files path
    by (intro exI [of _ fs] exI [of _ w] exI [of _ "Synced (work\<lparr> to_write := [] \<rparr>)"] exI [of _ ?f] conjI)
      (cases s, simp_all)
qed

text \<open>\<open>WriteAheadLog::new\<close> on an empty database; \<open>durable\<close> is what the disk holds before.\<close>

definition wal_start :: "params \<Rightarrow> fs \<Rightarrow> fs \<Rightarrow> wal_sys" where
  "wal_start p fs durable =
     (let (fs', w) = wal_writer_new p fs in
      \<lparr> ws_status = log_status_new 0 0, ws_fs = fs', ws_durable = durable, ws_writer = w, ws_phase = Polling,
        finish_receiver = True, ws_clients = (\<lambda>_. Idle), ws_stream = [] \<rparr>)"

lemma wal_start_reachable: "wal_reachable p mode (wal_start p fs durable)"
proof -
  obtain fs' w where new: "wal_writer_new p fs = (fs', w)" by fastforce
  have "writer_ok p mode fs' 0 w []" by (rule wal_writer_new_ok [OF new])
  then show ?thesis by (intro wal_reachable.init) (auto simp: wal_init_def wal_start_def new)
qed

text \<open>A client stores one entry in a new log, the writer writes it, and a client asks for a sync.\<close>

definition one_entry_status :: "bytes \<Rightarrow> nat \<Rightarrow> bytes list \<Rightarrow> bool \<Rightarrow> log_status" where
  "one_entry_status data pos q flag =
     \<lparr> queue_pos = length data, write_pos = pos, sync_pos = 0, queue = q, sync_flag = flag,
       offset_pos = 0, flush_pos = 0, stop_flag = False \<rparr>"

definition one_entry_log :: "bytes \<Rightarrow> log_status \<Rightarrow> fs \<Rightarrow> wal_writer \<Rightarrow> client_state \<Rightarrow> wal_sys" where
  "one_entry_log data st fs w c =
     \<lparr> ws_status = st, ws_fs = fs, ws_durable = Map.empty, ws_writer = w, ws_phase = Polling,
       finish_receiver = True, ws_clients = (\<lambda>_. Idle)(0 := c), ws_stream = data \<rparr>"

lemmas one_entry_defs = one_entry_status_def one_entry_log_def

lemma one_entry_queued:
  fixes e :: log_entry
  defines "data \<equiv> encode_entry e"
  assumes new: "wal_writer_new p Map.empty = (fs, w)"
  shows "wal_reachable p mode
           (one_entry_log data (one_entry_status data 0 [data] False) fs w (Storing (length data) data))"
proof -
  let ?s = "wal_start p Map.empty Map.empty"
  have "store_enqueue (ws_status ?s) [e] = (one_entry_status data 0 [data] False, length data)"
    by (simp add: store_enqueue_def wal_start_def new log_status_new_def data_def one_entry_defs)
  from client_step.store [OF _ this, of 0 data]
  have "client_step ?s (one_entry_log data (one_entry_status data 0 [data] False) fs w (Storing (length data) data))"
    by (simp add: wal_start_def new data_def one_entry_defs)
  from wal_reachable.client [OF wal_start_reachable this] show ?thesis .
qed

lemma one_entry_written:
  fixes e :: log_entry
  defines "data \<equiv> encode_entry e"
  shows "\<exists>fs w. wal_reachable p mode
           (one_entry_log data (one_entry_status data (length data) [] False) fs w (Storing (length data) data))"
proof -
  obtain fs w where "wal_writer_new p Map.empty = (fs, w)" by fastforce
  from plain_round [OF one_entry_queued [OF this, of mode e]] show ?thesis
    by (auto simp: one_entry_defs data_def)
qed

lemma one_entry_syncing:
  fixes e :: log_entry
  defines "data \<equiv> encode_entry e"
  assumes ne: "0 < length data"
  shows "\<exists>fs w. wal_reachable p mode
           (one_entry_log data (one_entry_status data (length data) [] True) fs w (Syncing 0))"
proof -
  let ?st = "one_entry_status data (length data) []"
  obtain fs w where "wal_reachable p mode (one_entry_log data (?st False) fs w (Storing (length data) data))"
      (is "wal_reachable _ _ ?s")
    using one_entry_written [of p mode e] by (auto simp: data_def)
  moreover have "client_step ?s (one_entry_log data (?st False) fs w Idle)"
    using client_step.store_returns [of ?s 0] by (simp add: one_entry_defs)
  ultimately have s: "wal_reachable p mode (one_entry_log data (?st False) fs w Idle)"
    (is "wal_reachable _ _ ?t") by (rule wal_reachable.client)
  have "sync_begin (ws_status ?t) = Inr (?st True, Some 0)"
    using ne by (simp add: sync_begin_def assert_that_def one_entry_defs)
  from client_step.sync [OF _ this, of 0]
  have "client_step ?t (one_entry_log data (?st True) fs w (Syncing 0))" by (simp add: one_entry_defs)
  from wal_reachable.client [OF s this] show ?thesis by blast
qed

section \<open>Properties\<close>



text \<open>C17: the writer task never fails: none of its assertions is violated, and no page that it removes
  is missing, in any interleaving with the clients.\<close>

theorem wal_writer_never_fails:
  assumes "wal_reachable p mode s"
  shows "case ws_phase s of
           Polling \<Rightarrow> \<exists>r. update_take (ws_status s) (ws_writer s) = Inr r
         | Synced work \<Rightarrow> \<exists>fs. update_offset p work (ws_fs s) = Inr fs
         | OffsetSet work \<Rightarrow> \<exists>st. update_notify work (ws_status s) (ws_writer s) = Inr st
         | _ \<Rightarrow> True"
  using update_take_ok(1) update_offset_ok(1) update_notify_ok wal_reachable_inv [OF assms]
  by (auto split: writer_phase.splits)

theorem wal_writer_never_fails_witness:
  "wal_reachable example_params StdIo (wal_start example_params Map.empty Map.empty) \<and>
   (\<exists>r. update_take (ws_status (wal_start example_params Map.empty Map.empty))
           (ws_writer (wal_start example_params Map.empty Map.empty)) = Inr r)"
  using wal_writer_never_fails [OF wal_start_reachable [of example_params StdIo Map.empty Map.empty]]
    wal_start_reachable
  by (simp add: wal_start_def split: prod.splits)



text \<open>C19: the part of the documented invariant of \<open>LogStatus\<close> that the code keeps.\<close>

theorem wal_positions_ordered:
  assumes "wal_reachable p mode s"
  shows "flush_pos (ws_status s) \<le> offset_pos (ws_status s) \<and>
         offset_pos (ws_status s) \<le> write_pos (ws_status s) \<and>
         write_pos (ws_status s) \<le> queue_pos (ws_status s) \<and> sync_pos (ws_status s) \<le> queue_pos (ws_status s)"
  using wal_invD(1) [OF wal_reachable_inv [OF assms]] by (simp_all add: status_ok_def)

theorem wal_positions_ordered_witness:
  "wal_reachable example_params StdIo (wal_start example_params Map.empty Map.empty) \<and>
   sync_pos (ws_status (wal_start example_params Map.empty Map.empty)) \<le>
   queue_pos (ws_status (wal_start example_params Map.empty Map.empty))"
  using wal_positions_ordered [OF wal_start_reachable [of example_params StdIo Map.empty Map.empty]]
    wal_start_reachable by blast

text \<open>C20: the documented \<open>sync_pos <= write_pos\<close> is not kept: the writer raises \<open>sync_pos\<close> before it raises
  \<open>write_pos\<close>, and a client that calls \<open>sync\<close> in between panics.\<close>

theorem wal_sync_can_panic:
  "\<exists>s. wal_reachable p mode s \<and> write_pos (ws_status s) < sync_pos (ws_status s) \<and>
     sync_begin (ws_status s) = Inl (Panic ''assertion failed: lock.sync_pos < lock.write_pos'')"
proof -
  define d where "d = encode_entry (Write (Delete []))"
  have len: "0 < length d" by (simp add: d_def encode_entry_length)
  obtain fs w where s: "wal_reachable p mode
      (one_entry_log d (one_entry_status d (length d) [] True) fs w (Syncing 0))" (is "wal_reachable _ _ ?s")
    using one_entry_syncing [of "Write (Delete [])"] len unfolding d_def by blast
  let ?st = "(ws_status ?s)\<lparr> queue := [d], queue_pos := length d + length d \<rparr>"
  let ?t = "set_client (?s\<lparr> ws_status := ?st, ws_stream := ws_stream ?s @ d \<rparr>) 1 (Storing (length d + length d) d)"
  have "client_step ?s ?t"
    by (rule client_step.store [where batch = "[Write (Delete [])]"])
      (simp_all add: store_enqueue_eq one_entry_defs d_def del: encode_entry.simps)
  from wal_reachable.client [OF s this] have "wal_reachable p mode ?t" .
  from sync_round [OF this] obtain fs' w' ph durable' where u:
    "wal_reachable p mode (?t\<lparr> ws_fs := fs', ws_writer := w', ws_phase := ph, ws_durable := durable',
       ws_status := (ws_status ?t)\<lparr> queue := [], sync_flag := False, sync_pos := length d + length d \<rparr> \<rparr>)"
    (is "wal_reachable _ _ ?u")
    using len by (auto simp: one_entry_defs)
  then show ?thesis
    by (intro exI [of _ ?u] conjI) (use len in \<open>simp_all add: sync_begin_def assert_that_def one_entry_defs\<close>)
qed

text \<open>C21: \<open>sync\<close> does not make every stored byte durable: only the current page is synced, and a \<open>sync\<close>
  after a \<open>store\<close> that crosses a page boundary returns although the full first page is not on disk.\<close>

theorem wal_sync_leaves_pages_volatile:
  "\<exists>s. wal_reachable p mode s \<and> ws_clients s 0 = Syncing 0 \<and> 0 < sync_pos (ws_status s) \<and>
     sync_pos (ws_status s) = length (ws_stream s) \<and>
     ws_fs s (wal_file_path p 0) = Some (page_of (ws_stream s) 0) \<and> ws_durable s (wal_file_path p 0) = None"
proof -
  define d where "d = encode_entry (Write (Put [] (replicate PAGE_SIZE 0)))"
  have len: "0 < length d" "length d = 18 + PAGE_SIZE" by (simp_all add: d_def encode_entry_length)
  obtain fs w where s: "wal_reachable p mode
      (one_entry_log d (one_entry_status d (length d) [] True) fs w (Syncing 0))" (is "wal_reachable _ _ ?s")
    using one_entry_syncing [of "Write (Put [] (replicate PAGE_SIZE 0))"] len(1) unfolding d_def by blast
  from sync_round [OF s] obtain fs' w' ph f where t:
    "wal_reachable p mode (?s\<lparr> ws_fs := fs', ws_writer := w', ws_phase := ph, ws_durable := Map.empty(f := fs' f),
       ws_status := (ws_status ?s)\<lparr> queue := [], sync_flag := False, sync_pos := length d \<rparr> \<rparr>)"
    (is "wal_reachable _ _ ?t")
    and f: "f = wal_file_path p (length d div PAGE_SIZE)" and files: "log_files_ok p fs' 0 d"
    using len(1) by (auto simp: one_entry_defs)
  have "length d div PAGE_SIZE = 1" unfolding len(2) by (simp add: PAGE_SIZE_def)
  then have "f \<noteq> wal_file_path p 0" using f by simp
  moreover have "fs' (wal_file_path p 0) = Some (page_of d 0)"
    using files by (simp add: log_files_ok_def)
  ultimately show ?thesis
    using len(1) t by (intro exI [of _ ?t] conjI) (simp_all add: one_entry_defs)
qed

end
