(* ===== verification/Lsm_WalClient.thy ===== *)
theory Lsm_WalClient
  imports Lsm_WalTask
begin

text \<open>
  The write-ahead log as a single client sees it (\<open>src/src/wal/mod.rs\<close>): a client that waits lets the
  writer task run whole rounds of \<open>update_log\<close> until its condition holds. A wait that would never end
  is a run that never returns.

  The lemmas show that on an idle log \<open>store\<close>, \<open>sync\<close>, \<open>set_offset\<close> and \<open>stop\<close> return and what they do
  to the log files.
\<close>

section \<open>The operations\<close>

record wal_log =
  wl_status :: log_status
  wl_writer :: wal_writer
  wl_durable :: fs

definition update_log :: "params \<Rightarrow> io_mode \<Rightarrow> fs \<Rightarrow> wal_log \<Rightarrow> (fs \<times> wal_log \<times> bool) run" where
  "update_log p mode fs l =
     bind_run (Some (update_take (wl_status l) (wl_writer l))) (\<lambda>(st, work).
     case work of
       None \<Rightarrow> None
     | Some work \<Rightarrow>
         let (fs, w) = wal_write_bufs p mode fs (wl_writer l) (to_write work);
             (durable, st) = update_sync work fs (wl_durable l) st w in
         bind_run (Some (update_offset p work fs)) (\<lambda>fs.
         bind_run (Some (update_notify work st w)) (\<lambda>st.
         Some (Inr (fs, \<lparr> wl_status = st, wl_writer = w, wl_durable = durable \<rparr>, wk_stop_flag work)))))"

partial_function (option) wal_wait ::
    "params \<Rightarrow> io_mode \<Rightarrow> (log_status \<Rightarrow> bool) \<Rightarrow> fs \<Rightarrow> wal_log \<Rightarrow> (fs \<times> wal_log) run" where
  "wal_wait p mode cond fs l =
     (if cond (wl_status l) then Some (Inr (fs, l))
      else bind_run (update_log p mode fs l) (\<lambda>(fs, l, stopped). wal_wait p mode cond fs l))"

definition wal_store :: "params \<Rightarrow> io_mode \<Rightarrow> fs \<Rightarrow> wal_log \<Rightarrow> log_entry list \<Rightarrow> (fs \<times> wal_log \<times> u64) run" where
  "wal_store p mode fs l batch =
     (let (st, end_pos) = store_enqueue (wl_status l) batch in
      bind_run (wal_wait p mode (\<lambda>st. write_pos st \<ge> end_pos) fs (l\<lparr> wl_status := st \<rparr>)) (\<lambda>(fs, l).
      Some (Inr (fs, l, of_nat end_pos))))"

definition wal_sync :: "params \<Rightarrow> io_mode \<Rightarrow> fs \<Rightarrow> wal_log \<Rightarrow> (fs \<times> wal_log) run" where
  "wal_sync p mode fs l =
     bind_run (Some (sync_begin (wl_status l))) (\<lambda>(st, r).
     case r of
       None \<Rightarrow> Some (Inr (fs, l\<lparr> wl_status := st \<rparr>))
     | Some last_pos \<Rightarrow> wal_wait p mode (\<lambda>st. sync_pos st > last_pos) fs (l\<lparr> wl_status := st \<rparr>))"

definition wal_flush :: "params \<Rightarrow> io_mode \<Rightarrow> fs \<Rightarrow> wal_log \<Rightarrow> u64 \<Rightarrow> (fs \<times> wal_log) run" where
  "wal_flush p mode fs l offset =
     (let new = unat offset in
      bind_run (Some (offset_begin (wl_status l) new)) (\<lambda>st.
      wal_wait p mode (\<lambda>st. flush_pos st \<ge> new) fs (l\<lparr> wl_status := st \<rparr>)))"

text \<open>\<open>stop\<close> waits for the end of the writer task, which ends after a round that saw the stop flag.\<close>

partial_function (option) wal_finish :: "params \<Rightarrow> io_mode \<Rightarrow> fs \<Rightarrow> wal_log \<Rightarrow> (fs \<times> wal_log) run" where
  "wal_finish p mode fs l =
     bind_run (update_log p mode fs l) (\<lambda>(fs, l, stopped).
     if stopped then Some (Inr (fs, l)) else wal_finish p mode fs l)"

definition wal_stop :: "params \<Rightarrow> io_mode \<Rightarrow> fs \<Rightarrow> wal_log \<Rightarrow> (fs \<times> wal_log) run" where
  "wal_stop p mode fs l = wal_finish p mode fs (l\<lparr> wl_status := stop_begin (wl_status l) \<rparr>)"

definition wal_new :: "params \<Rightarrow> fs \<Rightarrow> fs \<times> wal_log" where
  "wal_new p fs =
     (let (fs', w) = wal_writer_new p fs
      in (fs', \<lparr> wl_status = log_status_new 0 0, wl_writer = w, wl_durable = Map.empty \<rparr>))"

section \<open>An idle log\<close>

definition log_idle :: "params \<Rightarrow> io_mode \<Rightarrow> fs \<Rightarrow> wal_log \<Rightarrow> nat \<Rightarrow> bytes \<Rightarrow> bool" where
  "log_idle p mode fs l start stream \<longleftrightarrow>
     writer_ok p mode fs start (wl_writer l) stream \<and>
     sync_pos (wl_status l) \<le> length stream \<and>
     wl_status l = (log_status_new (length stream) start)\<lparr> sync_pos := sync_pos (wl_status l) \<rparr>"

definition log_frame :: "params \<Rightarrow> fs \<Rightarrow> fs \<Rightarrow> bool" where
  "log_frame p fs fs' \<longleftrightarrow> (\<forall>q. (\<forall>i. q \<noteq> wal_file_path p i) \<longrightarrow> fs' q = fs q)"

lemma log_frame_refl [simp]: "log_frame p fs fs"
  by (simp add: log_frame_def)

lemma wal_new_ok:
  assumes "wal_new p fs = (fs', l)"
  shows "log_idle p mode fs' l 0 []" "log_frame p fs fs'"
proof -
  obtain w where new: "wal_writer_new p fs = (fs', w)" and l: "wl_writer l = w" "wl_status l = log_status_new 0 0"
    using assms by (auto simp: wal_new_def split: prod.splits)
  show "log_idle p mode fs' l 0 []"
    using wal_writer_new_ok [OF new, of mode] l by (simp add: log_idle_def log_status_new_def)
  show "log_frame p fs fs'"
    using new by (auto simp: wal_writer_new_def create_file_def Let_def log_frame_def)
qed

lemma log_idleD:
  assumes "log_idle p mode fs l start stream"
  shows "writer_ok p mode fs start (wl_writer l) stream" "sync_pos (wl_status l) \<le> length stream"
    "start \<le> length stream" "write_pos (wl_status l) = length stream" "queue_pos (wl_status l) = length stream"
    "queue (wl_status l) = []" "\<not> sync_flag (wl_status l)" "\<not> stop_flag (wl_status l)"
    "offset_pos (wl_status l) = start" "flush_pos (wl_status l) = start"
proof -
  have st: "wl_status l = (log_status_new (length stream) start)\<lparr> sync_pos := sync_pos (wl_status l) \<rparr>"
    using assms by (simp add: log_idle_def)
  show "write_pos (wl_status l) = length stream" "queue_pos (wl_status l) = length stream"
    "queue (wl_status l) = []" "\<not> sync_flag (wl_status l)" "\<not> stop_flag (wl_status l)"
    "offset_pos (wl_status l) = start" "flush_pos (wl_status l) = start"
    by (subst st, simp add: log_status_new_def)+
qed (use assms in \<open>simp_all add: log_idle_def writer_ok_def\<close>)

lemma log_idleI:
  assumes "writer_ok p mode fs start (wl_writer l) stream" and "sync_pos (wl_status l) \<le> length stream"
    and "write_pos (wl_status l) = length stream" "queue_pos (wl_status l) = length stream"
    "queue (wl_status l) = []" "\<not> sync_flag (wl_status l)" "\<not> stop_flag (wl_status l)"
    "offset_pos (wl_status l) = start" "flush_pos (wl_status l) = start"
  shows "log_idle p mode fs l start stream"
  using assms by (simp add: log_idle_def log_status_new_def)

lemma log_idle_frame:
  assumes "log_idle p mode fs l start stream" and "\<And>i. fs' (wal_file_path p i) = fs (wal_file_path p i)"
  shows "log_idle p mode fs' l start stream"
  using assms by (simp add: log_idle_def writer_ok_def log_files_ok_def)

text \<open>One round of the writer on a log that a client has just put work into.\<close>

lemma update_log_ok:
  assumes w: "writer_ok p mode fs start (wl_writer l) stream"
    and st: "write_pos (wl_status l) = length stream" "flush_pos (wl_status l) = start"
      "queue_pos (wl_status l) = length stream + length (concat (queue (wl_status l)))"
    and off: "start \<le> offset_pos (wl_status l)" "offset_pos (wl_status l) \<le> length stream"
    and some: "queue (wl_status l) \<noteq> [] \<or> start < offset_pos (wl_status l) \<or> sync_flag (wl_status l) \<or> stop_flag (wl_status l)"
  defines "data \<equiv> concat (queue (wl_status l))"
  shows "\<exists>fs' l'. update_log p mode fs l = Some (Inr (fs', l', stop_flag (wl_status l))) \<and>
     writer_ok p mode fs' (offset_pos (wl_status l)) (wl_writer l') (stream @ data) \<and> log_frame p fs fs' \<and>
     wl_status l' = (wl_status l)\<lparr> queue := [], sync_flag := False, write_pos := length (stream @ data),
       flush_pos := offset_pos (wl_status l), sync_pos :=
         (if sync_flag (wl_status l) \<and> sync_pos (wl_status l) < length (stream @ data) then length (stream @ data)
          else sync_pos (wl_status l)) \<rparr>"
proof -
  let ?st = "wl_status l"
  let ?new = "if start < offset_pos ?st then Some (offset_pos ?st, start) else None"
  define work where "work = \<lparr> to_write = queue ?st, wk_sync_flag = sync_flag ?st, wk_sync_pos = sync_pos ?st,
    new_offset = ?new, wk_stop_flag = stop_flag ?st \<rparr>"
  have pos: "position (wl_writer l) = length stream" using w by (simp add: writer_ok_def)
  have take: "update_take ?st (wl_writer l) = Inr (?st\<lparr> queue := [], sync_flag := False \<rparr>, Some work)"
    using st off some pos by (auto simp: update_take_def work_def Let_def)
  obtain fs1 w1 where wr: "wal_write_bufs p mode fs (wl_writer l) (queue ?st) = (fs1, w1)" by fastforce
  have w1: "writer_ok p mode fs1 start w1 (stream @ data)" "log_frame p fs fs1"
    using wal_write_bufs_ok [OF w wr] by (auto simp: data_def log_frame_def)
  have pos1: "position w1 = length (stream @ data)" using w1(1) by (simp add: writer_ok_def)
  let ?st1 = "?st\<lparr> queue := [], sync_flag := False \<rparr>"
  obtain durable st2 where sy: "update_sync work fs1 (wl_durable l) ?st1 w1 = (durable, st2)" by fastforce
  have st2: "st2 = ?st1\<lparr> sync_pos := (if sync_flag ?st \<and> sync_pos ?st < length (stream @ data)
      then length (stream @ data) else sync_pos ?st) \<rparr>"
    using sy pos1 by (auto simp: update_sync_def work_def split: if_splits)
  have "\<exists>fs2. update_offset p work fs1 = Inr fs2 \<and> writer_ok p mode fs2 (offset_pos ?st) w1 (stream @ data) \<and>
      log_frame p fs1 fs2"
  proof (cases "start < offset_pos ?st")
    case True
    have "log_files_ok p fs1 start (stream @ data)" using w1(1) by (simp add: writer_ok_def)
    from wal_set_offset_ok [OF this, of "offset_pos ?st"] off obtain fs2 where
      "wal_set_offset p fs1 (offset_pos ?st) start = Inr fs2" "log_files_ok p fs2 (offset_pos ?st) (stream @ data)"
      "\<forall>q. (\<forall>i. q \<noteq> wal_file_path p i) \<longrightarrow> fs2 q = fs1 q" by auto
    then show ?thesis using True w1(1) off by (simp add: update_offset_def work_def writer_ok_def log_frame_def)
  next
    case False
    then show ?thesis using w1(1) off by (simp add: update_offset_def work_def)
  qed
  then obtain fs2 where fs2: "update_offset p work fs1 = Inr fs2"
    "writer_ok p mode fs2 (offset_pos ?st) w1 (stream @ data)" "log_frame p fs1 fs2" by blast
  have nt: "update_notify work st2 w1 = Inr (st2\<lparr> write_pos := length (stream @ data), flush_pos := offset_pos ?st \<rparr>)"
    using st off pos1 by (auto simp: update_notify_def st2 work_def)
  have "update_log p mode fs l = Some (Inr (fs2, \<lparr> wl_status = st2\<lparr> write_pos := length (stream @ data),
      flush_pos := offset_pos ?st \<rparr>, wl_writer = w1, wl_durable = durable \<rparr>, stop_flag ?st))"
    using take wr sy fs2(1) nt by (simp add: update_log_def work_def)
  moreover have "log_frame p fs fs2" using w1(2) fs2(3) by (simp add: log_frame_def)
  ultimately show ?thesis using fs2(2) by (simp add: st2)
qed

lemma wal_store_ok:
  fixes batch :: "log_entry list"
  assumes idle: "log_idle p mode fs l start stream"
  defines "data \<equiv> concat (map encode_entry batch)"
  shows "\<exists>fs' l'. wal_store p mode fs l batch = Some (Inr (fs', l', of_nat (length (stream @ data)))) \<and>
     log_idle p mode fs' l' start (stream @ data) \<and> log_frame p fs fs'"
proof (cases "batch = []")
  case True
  then have enq: "store_enqueue (wl_status l) batch = (wl_status l, length stream)"
    using log_idleD(5) [OF idle] by (simp add: store_enqueue_def)
  then have "wal_store p mode fs l batch = Some (Inr (fs, l, of_nat (length stream)))"
    using log_idleD(4) [OF idle] unfolding wal_store_def enq by (subst wal_wait.simps) simp
  then show ?thesis using True idle by (auto simp: data_def)
next
  case False
  let ?st = "wl_status l"
  note idle' = log_idleD [OF idle]
  define st1 where "st1 = ?st\<lparr> queue := map encode_entry batch, queue_pos := length (stream @ data) \<rparr>"
  have enq: "store_enqueue ?st batch = (st1, length (stream @ data))"
    using idle' by (simp add: store_enqueue_eq st1_def data_def)
  have data: "data = concat (queue st1)" by (simp add: st1_def data_def)
  have ne: "data \<noteq> []"
  proof -
    obtain e es where "batch = e # es" using False by (cases batch) auto
    moreover have "encode_entry e \<noteq> []" by (cases e) simp_all
    ultimately show ?thesis by (simp add: data_def)
  qed
  have fields: "write_pos st1 = length stream" "flush_pos st1 = start" "offset_pos st1 = start"
    "sync_flag st1 = False" "stop_flag st1 = False" "queue_pos st1 = length stream + length (concat (queue st1))"
    "queue st1 \<noteq> []"
    using idle' False by (simp_all add: st1_def data_def)
  obtain fs' l' where up: "update_log p mode fs (l\<lparr> wl_status := st1 \<rparr>) = Some (Inr (fs', l', False))"
      "writer_ok p mode fs' start (wl_writer l') (stream @ data)" "log_frame p fs fs'"
      "wl_status l' = st1\<lparr> queue := [], sync_flag := False, write_pos := length (stream @ data), flush_pos := start,
         sync_pos := sync_pos st1 \<rparr>"
    using update_log_ok [of p mode fs start "l\<lparr> wl_status := st1 \<rparr>" stream] idle'(1,3) fields
    by (auto simp: data)
  have "wal_store p mode fs l batch = Some (Inr (fs', l', of_nat (length (stream @ data))))"
    unfolding wal_store_def enq using up(1,4) fields(1) ne
    by (simp, subst wal_wait.simps, simp, subst wal_wait.simps, simp)
  moreover have "log_idle p mode fs' l' start (stream @ data)"
    by (rule log_idleI) (use up(2,4) idle'(2) fields in \<open>simp_all add: st1_def\<close>)
  ultimately show ?thesis using up(3) by blast
qed

lemma wal_sync_ok:
  assumes idle: "log_idle p mode fs l start stream"
  shows "\<exists>fs' l'. wal_sync p mode fs l = Some (Inr (fs', l')) \<and> log_idle p mode fs' l' start stream \<and> log_frame p fs fs'"
proof -
  let ?st = "wl_status l"
  note idle' = log_idleD [OF idle]
  show ?thesis
  proof (cases "sync_pos ?st = length stream")
    case True
    then have "wal_sync p mode fs l = Some (Inr (fs, l))" using idle'(4) by (simp add: wal_sync_def sync_begin_def)
    then show ?thesis using idle by auto
  next
    case False
    define st1 where "st1 = ?st\<lparr> sync_flag := True \<rparr>"
    have sb: "sync_begin ?st = Inr (st1, Some (sync_pos ?st))" using False idle'(2,4) by (simp add: sync_begin_def st1_def)
    have fields: "write_pos st1 = length stream" "flush_pos st1 = start" "offset_pos st1 = start" "queue st1 = []"
      "queue_pos st1 = length stream" "sync_flag st1" "\<not> stop_flag st1" "sync_pos st1 = sync_pos ?st"
      using idle' by (simp_all add: st1_def)
    obtain fs' l' where up: "update_log p mode fs (l\<lparr> wl_status := st1 \<rparr>) = Some (Inr (fs', l', False))"
        "writer_ok p mode fs' start (wl_writer l') stream" "log_frame p fs fs'"
        "wl_status l' = st1\<lparr> queue := [], sync_flag := False, write_pos := length stream, flush_pos := start,
           sync_pos := length stream \<rparr>"
      using update_log_ok [of p mode fs start "l\<lparr> wl_status := st1 \<rparr>" stream] idle'(1-3) fields False by auto
    have "wal_sync p mode fs l = Some (Inr (fs', l'))"
      unfolding wal_sync_def sb using up(1,4) fields(8) False idle'(2)
      by (simp, subst wal_wait.simps, simp, subst wal_wait.simps, simp)
    moreover have "log_idle p mode fs' l' start stream"
      by (rule log_idleI) (use up(2,4) fields in \<open>simp_all add: st1_def\<close>)
    ultimately show ?thesis using up(3) by blast
  qed
qed

lemma wal_flush_ok:
  assumes idle: "log_idle p mode fs l start stream" and new: "start < unat new" "unat new \<le> length stream"
  shows "\<exists>fs' l'. wal_flush p mode fs l new = Some (Inr (fs', l')) \<and> log_idle p mode fs' l' (unat new) stream \<and>
     log_frame p fs fs'"
proof -
  let ?st = "wl_status l"
  note idle' = log_idleD [OF idle]
  define st1 where "st1 = ?st\<lparr> offset_pos := unat new \<rparr>"
  have fields: "write_pos st1 = length stream" "flush_pos st1 = start" "offset_pos st1 = unat new" "queue st1 = []"
    "queue_pos st1 = length stream" "\<not> sync_flag st1" "\<not> stop_flag st1" "sync_pos st1 = sync_pos ?st"
    using idle' by (simp_all add: st1_def)
  have ob: "offset_begin ?st (unat new) = Inr st1"
    using idle'(9) new(1) by (simp add: offset_begin_def st1_def)
  obtain fs' l' where up: "update_log p mode fs (l\<lparr> wl_status := st1 \<rparr>) = Some (Inr (fs', l', False))"
      "writer_ok p mode fs' (unat new) (wl_writer l') stream" "log_frame p fs fs'"
      "wl_status l' = st1\<lparr> queue := [], sync_flag := False, write_pos := length stream, flush_pos := unat new,
         sync_pos := sync_pos st1 \<rparr>"
    using update_log_ok [of p mode fs start "l\<lparr> wl_status := st1 \<rparr>" stream] idle'(1) new fields by auto
  have "wal_flush p mode fs l new = Some (Inr (fs', l'))"
    unfolding wal_flush_def ob Let_def using up(1,4) fields(2) new(1)
    by (simp add: ob, subst wal_wait.simps, simp, subst wal_wait.simps, simp)
  moreover have "log_idle p mode fs' l' (unat new) stream"
    by (rule log_idleI) (use up(2,4) idle'(2) fields in \<open>simp_all add: st1_def\<close>)
  ultimately show ?thesis using up(3) by blast
qed

lemma wal_stop_ok:
  assumes idle: "log_idle p mode fs l start stream"
  shows "\<exists>fs' l'. wal_stop p mode fs l = Some (Inr (fs', l')) \<and>
     writer_ok p mode fs' start (wl_writer l') stream \<and> log_frame p fs fs'"
proof -
  let ?st = "wl_status l"
  note idle' = log_idleD [OF idle]
  define st1 where "st1 = stop_begin ?st"
  have fields: "write_pos st1 = length stream" "flush_pos st1 = start" "offset_pos st1 = start" "queue st1 = []"
    "queue_pos st1 = length stream" "stop_flag st1"
    using idle' by (simp_all add: st1_def stop_begin_def)
  obtain fs' l' where up: "update_log p mode fs (l\<lparr> wl_status := st1 \<rparr>) = Some (Inr (fs', l', True))"
      "writer_ok p mode fs' start (wl_writer l') stream" "log_frame p fs fs'"
    using update_log_ok [of p mode fs start "l\<lparr> wl_status := st1 \<rparr>" stream] idle'(1,3) fields by auto
  then show ?thesis unfolding wal_stop_def st1_def by (subst wal_finish.simps) auto
qed

end
