(* ===== verification/Lsm_Level.thy ===== *)
theory Lsm_Level
  imports Lsm_TableIterator
begin

text \<open>
  A level of the tree (\<open>src/src/level.rs\<close>): its tables, the choice of tables to compact and the
  placeholders for tables that are being built.

  A table is shared between the level and the compaction that works on it. The model keeps it in the
  list of the level; a compaction refers to it by its position there or by its identifier.

  The lemmas show that a lookup in a level returns the entry of the newest table that has one,
  that a compaction of the first level takes every table that overlaps the chosen ones, and that the
  tables taken on the next level are exactly those that overlap the range of the compaction.
\<close>

section \<open>Levels\<close>

definition L0_COMPACTION_TRIGGER :: nat where
  "L0_COMPACTION_TRIGGER = 4"

definition INVALID_TABLE_ID :: u64 where
  "INVALID_TABLE_ID = 0"

record table_placeholder =
  ph_min :: key
  ph_max :: key
  ph_id :: u64

definition placeholder_overlaps :: "table_placeholder \<Rightarrow> key \<Rightarrow> key \<Rightarrow> bool" where
  "placeholder_overlaps ph mn mx \<longleftrightarrow> ph_max ph \<ge> mn \<and> ph_min ph \<le> mx"

record level =
  lv_index :: u32
  next_compaction_offset :: nat
  do_seek_based_compaction :: bool
  lv_seek_based_compaction :: u64
  lv_tables :: "sorted_table list"
  table_placeholders :: "table_placeholder list"

definition level_new :: "params \<Rightarrow> u32 \<Rightarrow> level" where
  "level_new p i =
     \<lparr> lv_index = i, next_compaction_offset = 0,
       do_seek_based_compaction = (seek_based_compaction p \<noteq> None),
       lv_seek_based_compaction = INVALID_TABLE_ID, lv_tables = [], table_placeholders = [] \<rparr>"

definition set_next_compaction_offset :: "level \<Rightarrow> nat \<Rightarrow> level" where
  "set_next_compaction_offset lv offset = lv\<lparr> next_compaction_offset := offset \<rparr>"

primrec remove_placeholder :: "table_placeholder list \<Rightarrow> u64 \<Rightarrow> table_placeholder list result" where
  "remove_placeholder [] i = Inl (Panic ''no such placeholder'')"
| "remove_placeholder (ph # phs) i =
     (if ph_id ph = i then Inr phs
      else bind_result (remove_placeholder phs i) (\<lambda>phs. Inr (ph # phs)))"

definition remove_table_placeholder :: "level \<Rightarrow> u64 \<Rightarrow> level result" where
  "remove_table_placeholder lv i =
     bind_result (remove_placeholder (table_placeholders lv) i) (\<lambda>phs. Inr (lv\<lparr> table_placeholders := phs \<rparr>))"

definition level_load_table :: "('c, 'bf) config \<Rightarrow> fs \<Rightarrow> level \<Rightarrow> u64 \<Rightarrow> level result" where
  "level_load_table cf fs lv i =
     bind_result (table_load cf fs i) (\<lambda>t. Inr (lv\<lparr> lv_tables := lv_tables lv @ [t] \<rparr>))"

definition level_build_table :: "('c, 'bf) config \<Rightarrow> level \<Rightarrow> u64 \<Rightarrow> key \<Rightarrow> key \<Rightarrow> 'bf table_builder" where
  "level_build_table cf lv i min_key max_key = table_builder_new cf i min_key max_key"

definition add_l0_table :: "level \<Rightarrow> sorted_table \<Rightarrow> level result" where
  "add_l0_table lv t =
     bind_result (assert_that (lv_index lv = 0) ''assertion failed: self.index == 0'') (\<lambda>_.
     Inr (lv\<lparr> lv_tables := lv_tables lv @ [t] \<rparr>))"

section \<open>Looking up a key\<close>

text \<open>The loop over the tables; the positions come from the back to the front.\<close>

primrec level_get_loop ::
    "('c, 'bf) config \<Rightarrow> key \<Rightarrow> 'c store \<Rightarrow> level \<Rightarrow> bool \<Rightarrow> nat list
     \<Rightarrow> ('c store \<times> level \<times> bool \<times> 'bf data_entry option) run" where
  "level_get_loop cf k s lv triggered [] = Some (Inr (s, lv, triggered, None))"
| "level_get_loop cf k s lv triggered (pos # rest) =
     bind_run (table_get cf s (lv_tables lv ! pos) k) (\<lambda>(s, t, result).
     let lv = lv\<lparr> lv_tables := (lv_tables lv)[pos := t] \<rparr>;
         (lv, triggered) =
           (if do_seek_based_compaction lv \<and> has_maximum_seeks t \<and> lv_seek_based_compaction lv = INVALID_TABLE_ID
            then (lv\<lparr> lv_seek_based_compaction := tbl_identifier t \<rparr>, True) else (lv, triggered)) in
     case result of
       Some entry \<Rightarrow> Some (Inr (s, lv, triggered, Some entry))
     | None \<Rightarrow> level_get_loop cf k s lv triggered rest)"

definition level_get ::
    "('c, 'bf) config \<Rightarrow> 'c store \<Rightarrow> level \<Rightarrow> key \<Rightarrow> ('c store \<times> level \<times> bool \<times> 'bf data_entry option) run" where
  "level_get cf s lv k = level_get_loop cf k s lv False (rev [0 ..< length (lv_tables lv)])"

section \<open>Choosing tables to compact\<close>

definition usize_mul :: "nat \<Rightarrow> nat \<Rightarrow> nat result" where
  "usize_mul a b = (if a * b < 2 ^ 64 then Inr (a * b) else Inl (Panic ''attempt to multiply with overflow''))"

fun max_size_loop :: "nat \<Rightarrow> nat \<Rightarrow> nat result" where
  "max_size_loop sz lvl =
     (if 1 < lvl then bind_result (usize_mul sz 10) (\<lambda>sz. max_size_loop sz (lvl - 1)) else Inr sz)"

declare max_size_loop.simps [simp del]

definition level_max_size :: "level \<Rightarrow> nat result" where
  "level_max_size lv = max_size_loop 1048576 (unat (lv_index lv))"

definition size_based_compaction :: "level \<Rightarrow> bool result" where
  "size_based_compaction lv =
     (if lv_index lv = 0 then Inr (length (lv_tables lv) > L0_COMPACTION_TRIGGER)
      else bind_result (fold_result (\<lambda>total t. bind_result (table_get_size t) (\<lambda>sz. Inr (total + sz))) 0 (lv_tables lv))
             (\<lambda>total_size. bind_result (level_max_size lv) (\<lambda>mx. Inr (total_size > mx))))"

definition find_table :: "sorted_table list \<Rightarrow> u64 \<Rightarrow> nat option" where
  "find_table ts i = find (\<lambda>pos. tbl_identifier (ts ! pos) = i) [0 ..< length ts]"

text \<open>The block \<open>'choice\<close>: the position of the first table, if the level is to be compacted.\<close>

definition choose_table :: "level \<Rightarrow> (level \<times> nat option) result" where
  "choose_table lv =
     bind_result (size_based_compaction lv) (\<lambda>size_based.
     if size_based then
       if lv_tables lv = [] then Inl (Panic ''Cannot start compaction; level is empty'')
       else let offset = (if next_compaction_offset lv \<ge> length (lv_tables lv) then 0 else next_compaction_offset lv)
            in Inr (lv\<lparr> next_compaction_offset := offset + 1 \<rparr>, Some offset)
     else if lv_seek_based_compaction lv \<noteq> INVALID_TABLE_ID then
       (case find_table (lv_tables lv) (lv_seek_based_compaction lv) of
          Some pos \<Rightarrow> Inr (lv\<lparr> lv_seek_based_compaction := INVALID_TABLE_ID \<rparr>, Some pos)
        | None \<Rightarrow> Inr (lv, None))
     else Inr (lv, None))"

definition start_at :: "sorted_table list \<Rightarrow> nat \<Rightarrow> sorted_table list \<times> bool" where
  "start_at ts pos = (let (t, ok) = table_maybe_start_compaction (ts ! pos) in (ts[pos := t], ok))"

definition abort_at :: "sorted_table list \<Rightarrow> nat \<Rightarrow> sorted_table list result" where
  "abort_at ts pos = bind_result (abort_compaction (ts ! pos)) (\<lambda>t. Inr (ts[pos := t]))"

text \<open>The inner \<open>for\<close> loop: the first table outside of \<open>offsets\<close> that overlaps the range.\<close>

primrec find_overlap :: "sorted_table list \<Rightarrow> nat list \<Rightarrow> key \<Rightarrow> key \<Rightarrow> nat list \<Rightarrow> nat option result" where
  "find_overlap ts offsets mn mx [] = Inr None"
| "find_overlap ts offsets mn mx (pos # rest) =
     (if pos \<in> set offsets then find_overlap ts offsets mn mx rest
      else bind_result (table_overlaps (ts ! pos) mn mx) (\<lambda>b.
           if b then Inr (Some pos) else find_overlap ts offsets mn mx rest))"

lemma find_overlap_Some:
  "find_overlap ts offsets mn mx ps = Inr (Some pos) \<Longrightarrow> pos \<in> set ps \<and> pos \<notin> set offsets"
  by (induction ps) (auto simp: result_simps split: if_splits)

text \<open>
  The loop \<open>while change\<close> of the first level: it adds overlapping tables until there are none left;
  \<open>Inl\<close> reports that another compaction holds one of them.
\<close>

function grow_overlaps ::
    "sorted_table list \<Rightarrow> nat list \<Rightarrow> key \<Rightarrow> key \<Rightarrow> (sorted_table list \<times> (unit + nat list)) result" where
  "grow_overlaps ts offsets mn mx =
     bind_result (find_overlap ts offsets mn mx [0 ..< length ts]) (\<lambda>found.
     case found of
       None \<Rightarrow> Inr (ts, Inr offsets)
     | Some pos \<Rightarrow>
         (case start_at ts pos of
            (ts', True) \<Rightarrow>
              bind_result (table_get_min (ts ! pos)) (\<lambda>tmin.
              bind_result (table_get_max (ts ! pos)) (\<lambda>tmax.
              grow_overlaps ts' (offsets @ [pos]) (min mn tmin) (max mx tmax)))
          | (ts', False) \<Rightarrow> bind_result (fold_result abort_at ts offsets) (\<lambda>ts. Inr (ts, Inl ()))))"
  by pat_completeness auto
termination
proof (relation "measure (\<lambda>(ts, offsets, mn, mx). card ({..< length ts} - set offsets))", goal_cases)
  case (2 ts offsets mn mx found pos ts' ok tmin tmax)
  have pos: "pos < length ts" "pos \<notin> set offsets" using find_overlap_Some 2 by fastforce+
  have len: "length ts' = length ts" using 2 by (auto simp: start_at_def split: prod.splits)
  have "{..< length ts'} - set (offsets @ [pos]) \<subset> {..< length ts} - set offsets" using pos len by auto
  then show ?case by (simp add: psubset_card_mono)
qed simp

declare grow_overlaps.simps [simp del]

text \<open>
  \<open>maybe_start_compaction\<close> returns the tables to compact, or \<open>Inl\<close> when one of them is locked.
\<close>

definition level_maybe_start_compaction ::
    "level \<Rightarrow> (level \<times> (unit + sorted_table list option)) result" where
  "level_maybe_start_compaction lv =
     bind_result (choose_table lv) (\<lambda>(lv, choice).
     case choice of
       None \<Rightarrow> Inr (lv, Inr None)
     | Some offset \<Rightarrow>
         (case start_at (lv_tables lv) offset of
            (ts, False) \<Rightarrow> Inr (lv, Inl ())
          | (ts, True) \<Rightarrow>
              if lv_index lv = 0 then
                bind_result (table_get_min (ts ! offset)) (\<lambda>mn.
                bind_result (table_get_max (ts ! offset)) (\<lambda>mx.
                bind_result (grow_overlaps ts [offset] mn mx) (\<lambda>(ts, r).
                Inr (lv\<lparr> lv_tables := ts \<rparr>,
                     case r of Inl u \<Rightarrow> Inl u | Inr offsets \<Rightarrow> Inr (Some (map (nth ts) offsets))))))
              else Inr (lv\<lparr> lv_tables := ts \<rparr>, Inr (Some [ts ! offset]))))"

text \<open>The loop of \<open>get_overlaps\<close> over the tables: \<open>None\<close> when one of them is locked.\<close>

primrec overlaps_loop ::
    "sorted_table list \<Rightarrow> nat list \<Rightarrow> key \<Rightarrow> key \<Rightarrow> nat list
     \<Rightarrow> (sorted_table list \<times> (nat list \<times> key \<times> key) option) result" where
  "overlaps_loop ts picked mn mx [] = Inr (ts, Some (picked, mn, mx))"
| "overlaps_loop ts picked mn mx (pos # rest) =
     bind_result (table_overlaps (ts ! pos) mn mx) (\<lambda>b.
     if b then
       (case start_at ts pos of
          (_, False) \<Rightarrow> bind_result (fold_result abort_at ts picked) (\<lambda>ts. Inr (ts, None))
        | (ts', True) \<Rightarrow>
            bind_result (table_get_min (ts ! pos)) (\<lambda>tmin.
            bind_result (table_get_max (ts ! pos)) (\<lambda>tmax.
            overlaps_loop ts' (picked @ [pos]) (min tmin mn) (max tmax mx) rest)))
     else overlaps_loop ts picked mn mx rest)"

definition get_overlaps ::
    "params \<Rightarrow> fs \<Rightarrow> level \<Rightarrow> key \<Rightarrow> key \<Rightarrow> u64 option \<Rightarrow> (fs \<times> level \<times> (u64 \<times> sorted_table list) option) result" where
  "get_overlaps p fs lv mn mx fast_path =
     bind_result (overlaps_loop (lv_tables lv) [] mn mx [0 ..< length (lv_tables lv)]) (\<lambda>(ts, r).
     let lv = lv\<lparr> lv_tables := ts \<rparr> in
     case r of
       None \<Rightarrow> Inr (fs, lv, None)
     | Some (picked, mn, mx) \<Rightarrow>
         if \<exists>ph \<in> set (table_placeholders lv). placeholder_overlaps ph mn mx
         then bind_result (fold_result abort_at ts picked) (\<lambda>ts. Inr (fs, lv\<lparr> lv_tables := ts \<rparr>, None))
         else
           bind_result
             (case fast_path of
                Some i \<Rightarrow> if picked = [] then Inr (fs, i) else generate_next_table_id False p fs
              | None \<Rightarrow> generate_next_table_id False p fs) (\<lambda>(fs, table_id).
           Inr (fs, lv\<lparr> table_placeholders := table_placeholders lv @ [\<lparr> ph_min = mn, ph_max = mx, ph_id = table_id \<rparr>] \<rparr>,
                Some (table_id, map (nth ts) picked))))"

section \<open>Runs of entries\<close>

text \<open>
  The contents of a table or memtable is a \<open>run\<close>: a list of entries, strictly sorted by key. A list of
  runs answers a lookup with the entry of the first run that has one.
\<close>

type_synonym run_entries = "(key \<times> memtable_entry) list"

primrec lookup_runs :: "run_entries list \<Rightarrow> key \<Rightarrow> memtable_entry option" where
  "lookup_runs [] k = None"
| "lookup_runs (r # rs) k = (case map_of r k of Some e \<Rightarrow> Some e | None \<Rightarrow> lookup_runs rs k)"

definition runs_apart :: "run_entries \<Rightarrow> run_entries \<Rightarrow> bool" where
  "runs_apart a b \<longleftrightarrow> fst (last a) < fst (hd b) \<or> fst (last b) < fst (hd a)"

definition run_outside :: "key \<Rightarrow> key \<Rightarrow> run_entries \<Rightarrow> bool" where
  "run_outside mn mx r \<longleftrightarrow> fst (last r) < mn \<or> mx < fst (hd r)"

definition hull_min :: "key \<Rightarrow> run_entries list \<Rightarrow> key" where
  "hull_min mn rs = fold (\<lambda>r m. min (fst (hd r)) m) rs mn"

definition hull_max :: "key \<Rightarrow> run_entries list \<Rightarrow> key" where
  "hull_max mx rs = fold (\<lambda>r m. max (fst (last r)) m) rs mx"

lemma hull_simps [simp]:
  "hull_min mn [] = mn" "hull_min mn (rs @ [r]) = min (fst (hd r)) (hull_min mn rs)"
  "hull_max mx [] = mx" "hull_max mx (rs @ [r]) = max (fst (last r)) (hull_max mx rs)"
  by (simp_all add: hull_min_def hull_max_def)

lemma hull_bounds:
  "hull_min mn rs \<le> mn" "r \<in> set rs \<Longrightarrow> hull_min mn rs \<le> fst (hd r)"
  "mx \<le> hull_max mx rs" "r \<in> set rs \<Longrightarrow> fst (last r) \<le> hull_max mx rs"
  by (induction rs rule: rev_induct) (auto simp: min_le_iff_disj le_max_iff_disj)

lemma hull_attained:
  "hull_min mn rs = mn \<or> (\<exists>r \<in> set rs. hull_min mn rs = fst (hd r))"
  "hull_max mx rs = mx \<or> (\<exists>r \<in> set rs. hull_max mx rs = fst (last r))"
  by (induction rs rule: rev_induct) (auto simp: min_def max_def)

lemma lookup_runs_append:
  "lookup_runs (xs @ ys) k = (case lookup_runs xs k of Some e \<Rightarrow> Some e | None \<Rightarrow> lookup_runs ys k)"
  by (induction xs) (auto split: option.splits)

lemma run_key_bounds:
  assumes "sorted_strict (map fst r)" and "map_of r k = Some e"
  shows "fst (hd r) \<le> k" "k \<le> fst (last r)"
proof -
  have k: "k \<in> set (map fst r)" using assms(2) by (metis domI dom_map_of_conv_image_fst list.set_map)
  show "fst (hd r) \<le> k" using k assms(1) by (cases r) auto
  show "k \<le> fst (last r)" using k assms(1) by (induction r rule: rev_induct) (auto simp: sorted_wrt_append)
qed

lemma runs_apart_sym: "runs_apart a b \<longleftrightarrow> runs_apart b a"
  by (auto simp: runs_apart_def)

lemma runs_apart_map_of:
  assumes "runs_apart a b" "sorted_strict (map fst a)" "sorted_strict (map fst b)" "map_of a k = Some e"
  shows "map_of b k = None"
proof (rule ccontr)
  assume "map_of b k \<noteq> None"
  then obtain e' where "map_of b k = Some e'" by auto
  then show False
    using assms(1) run_key_bounds [OF assms(2,4)] run_key_bounds [OF assms(3)] unfolding runs_apart_def
    by (meson leD le_less_trans less_le_trans)
qed

text \<open>A table that misses a range and a table that meets it misses the hull of the two.\<close>

lemma run_outside_hull:
  assumes out: "run_outside mn mx r" and apart: "runs_apart r t" and ov: "mn \<le> fst (last t)" "fst (hd t) \<le> mx"
    and le: "mn \<le> mx" "fst (hd t) \<le> fst (last t)" "fst (hd r) \<le> fst (last r)"
  shows "run_outside (min (fst (hd t)) mn) (max (fst (last t)) mx) r"
  using assms unfolding run_outside_def runs_apart_def by (auto simp: min_def max_def)

section \<open>What a level holds\<close>

definition lv_holds :: "('c, 'bf) config \<Rightarrow> fs \<Rightarrow> level \<Rightarrow> run_entries list \<Rightarrow> bool" where
  "lv_holds cf fs lv rs \<longleftrightarrow> list_all2 (table_holds cf fs) (lv_tables lv) rs"

lemma lv_holdsD:
  assumes "list_all2 (table_holds cf fs) ts rs"
  shows "length ts = length rs" "\<And>i. i < length rs \<Longrightarrow> table_holds cf fs (ts ! i) (rs ! i)"
    "\<And>i. i < length rs \<Longrightarrow> rs ! i \<noteq> []" "\<And>i. i < length rs \<Longrightarrow> sorted_strict (map fst (rs ! i))"
    "\<And>i. i < length rs \<Longrightarrow> fst (hd (rs ! i)) \<le> fst (last (rs ! i))"
proof -
  show len: "length ts = length rs" using assms by (rule list_all2_lengthD)
  show h: "table_holds cf fs (ts ! i) (rs ! i)" if "i < length rs" for i
    using assms that len by (simp add: list_all2_conv_all_nth)
  show "rs ! i \<noteq> []" "sorted_strict (map fst (rs ! i))" if "i < length rs" for i
    using table_holdsD(1,2) [OF h [OF that]] by simp_all
  show "fst (hd (rs ! i)) \<le> fst (last (rs ! i))" if "i < length rs" for i
    using chunk_hd_le [OF table_holdsD(2) [OF h [OF that]], of "last (rs ! i)"] table_holdsD(1) [OF h [OF that]]
    by simp
qed

text \<open>Tables that differ only in the number of seeks they allow.\<close>

definition same_tables :: "sorted_table list \<Rightarrow> sorted_table list \<Rightarrow> bool" where
  "same_tables = list_all2 (\<lambda>t t'. tbl_identifier t' = tbl_identifier t \<and> tbl_index t' = tbl_index t \<and>
     compaction_flag t' = compaction_flag t)"

lemma same_tables_refl [simp]: "same_tables ts ts"
  by (simp add: same_tables_def list_all2_same)

lemma same_tables_trans: "same_tables a b \<Longrightarrow> same_tables b c \<Longrightarrow> same_tables a c"
  by (simp add: same_tables_def list_all2_conv_all_nth)

lemma same_tables_holds:
  assumes "same_tables ts ts'"
  shows "list_all2 (table_holds cf fs) ts' rs \<longleftrightarrow> list_all2 (table_holds cf fs) ts rs"
proof -
  have idx: "tbl_index (ts' ! i) = tbl_index (ts ! i)" if "i < length ts" for i
    using assms that by (simp add: same_tables_def list_all2_conv_all_nth)
  have "length ts' = length ts" using assms by (simp add: same_tables_def list_all2_lengthD)
  then show ?thesis using table_holds_index [OF idx, of _ cf fs] by (auto simp: list_all2_conv_all_nth)
qed

definition same_level :: "level \<Rightarrow> level \<Rightarrow> bool" where
  "same_level lv lv' \<longleftrightarrow>
     same_tables (lv_tables lv) (lv_tables lv') \<and>
     lv' = lv\<lparr> lv_tables := lv_tables lv', lv_seek_based_compaction := lv_seek_based_compaction lv' \<rparr>"

lemma same_level_trans: "same_level a b \<Longrightarrow> same_level b c \<Longrightarrow> same_level a c"
  unfolding same_level_def using same_tables_trans
  by (metis level.surjective level.update_convs(4,5))

lemma level_get_loop_ok:
  assumes "coherent cf s" and laws: "lru_laws (cf_lru cf)" and "lv_holds cf (st_fs s) lv rs"
    and "\<forall>i \<in> set ps. i < length rs"
  shows "\<exists>s' lv' b r. level_get_loop cf k s lv triggered ps = Some (Inr (s', lv', b, r)) \<and> st_fs s' = st_fs s \<and>
     coherent cf s' \<and> same_level lv lv' \<and> rel_option entry_denotes r (lookup_runs (map (nth rs) ps) k)"
  using assms(1,3,4)
proof (induction ps arbitrary: s lv triggered)
  case Nil
  then show ?case by (simp add: same_level_def)
next
  case (Cons i ps)
  let ?t = "lv_tables lv ! i"
  have i: "i < length rs" "i < length (lv_tables lv)"
    using Cons.prems(3) lv_holdsD(1) [OF Cons.prems(2) [unfolded lv_holds_def]] by auto
  have "table_holds cf (st_fs s) ?t (rs ! i)"
    by (rule lv_holdsD(2) [OF Cons.prems(2) [unfolded lv_holds_def] i(1)])
  from table_get_ok [OF Cons.prems(1) laws this] obtain s1 r where
    get: "table_get cf s ?t k = Some (Inr (s1, ?t\<lparr> allowed_seeks := allowed_seeks ?t - 1 \<rparr>, r))"
    and s1: "st_fs s1 = st_fs s" "coherent cf s1" and r: "rel_option entry_denotes r (map_of (rs ! i) k)" by blast
  define t1 where "t1 = ?t\<lparr> allowed_seeks := allowed_seeks ?t - 1 \<rparr>"
  define cond where "cond \<longleftrightarrow> do_seek_based_compaction lv \<and> has_maximum_seeks t1 \<and>
    lv_seek_based_compaction lv = INVALID_TABLE_ID"
  define lv1 where "lv1 = (lv\<lparr> lv_tables := (lv_tables lv)[i := t1],
    lv_seek_based_compaction := (if cond then tbl_identifier t1 else lv_seek_based_compaction lv) \<rparr>)"
  have loop: "level_get_loop cf k s lv triggered (i # ps) =
      (case r of Some e \<Rightarrow> Some (Inr (s1, lv1, cond \<or> triggered, Some e))
       | None \<Rightarrow> level_get_loop cf k s1 lv1 (cond \<or> triggered) ps)"
    using get by (auto simp: lv1_def cond_def t1_def Let_def split: option.splits)
  have same: "same_tables (lv_tables lv) (lv_tables lv1)"
    using i(2) unfolding lv1_def same_tables_def t1_def list_all2_conv_all_nth by (auto simp: nth_list_update)
  then have lvl: "same_level lv lv1" by (simp add: same_level_def lv1_def)
  show ?case
  proof (cases r)
    case (Some e)
    then have "rel_option entry_denotes r (lookup_runs (map (nth rs) (i # ps)) k)"
      using r by (cases "map_of (rs ! i) k") auto
    then show ?thesis using loop Some s1 lvl by auto
  next
    case None
    have "lv_holds cf (st_fs s1) lv1 rs"
      using same_tables_holds [OF same, of cf "st_fs s" rs] Cons.prems(2) s1(1) by (simp add: lv_holds_def)
    with Cons.IH [OF s1(2) this] Cons.prems(3) obtain s' lv' b r' where
      "level_get_loop cf k s1 lv1 (cond \<or> triggered) ps = Some (Inr (s', lv', b, r'))" "st_fs s' = st_fs s1"
      "coherent cf s'" "same_level lv1 lv'" "rel_option entry_denotes r' (lookup_runs (map (nth rs) ps) k)"
      by fastforce
    moreover have "map_of (rs ! i) k = None" using r None by (cases "map_of (rs ! i) k") auto
    ultimately show ?thesis using loop None s1(1) same_level_trans [OF lvl] by auto
  qed
qed

lemma rev_map_nth: "map (nth rs) (rev [0 ..< length rs]) = rev rs"
  by (simp add: map_nth flip: rev_map)

lemma level_get_ok:
  assumes "coherent cf s" and "lru_laws (cf_lru cf)" and "lv_holds cf (st_fs s) lv rs"
  shows "\<exists>s' lv' b r. level_get cf s lv k = Some (Inr (s', lv', b, r)) \<and> st_fs s' = st_fs s \<and>
     coherent cf s' \<and> same_level lv lv' \<and> rel_option entry_denotes r (lookup_runs (rev rs) k)"
proof -
  have len: "length (lv_tables lv) = length rs" by (rule lv_holdsD(1) [OF assms(3) [unfolded lv_holds_def]])
  show ?thesis
    using level_get_loop_ok [OF assms, of "rev [0 ..< length rs]" k False] rev_map_nth [of rs]
    unfolding level_get_def len by simp
qed

section \<open>The tables a compaction takes\<close>

text \<open>The tables at the given positions, locked for compaction.\<close>

definition mark_tables :: "nat list \<Rightarrow> sorted_table list \<Rightarrow> sorted_table list" where
  "mark_tables ps ts = map (\<lambda>i. if i \<in> set ps then (ts ! i)\<lparr> compaction_flag := True \<rparr> else ts ! i) [0 ..< length ts]"

lemma mark_tables_simps [simp]:
  "length (mark_tables ps ts) = length ts" "mark_tables [] ts = ts"
  "i < length ts \<Longrightarrow> mark_tables ps ts ! i = (if i \<in> set ps then (ts ! i)\<lparr> compaction_flag := True \<rparr> else ts ! i)"
  by (simp_all add: mark_tables_def map_nth)

lemma mark_tables_index [simp]: "i < length ts \<Longrightarrow> tbl_index (mark_tables ps ts ! i) = tbl_index (ts ! i)"
  by simp

lemma start_at_mark:
  assumes "pos < length ts" and "pos \<notin> set ps" and "\<not> compaction_flag (ts ! pos)"
  shows "start_at (mark_tables ps ts) pos = (mark_tables (ps @ [pos]) ts, True)"
proof -
  have "(mark_tables ps ts)[pos := (ts ! pos)\<lparr> compaction_flag := True \<rparr>] = mark_tables (ps @ [pos]) ts"
    using assms by (intro nth_equalityI) (auto simp: nth_list_update)
  then show ?thesis using assms by (simp add: start_at_def table_maybe_start_compaction_def)
qed

lemma mark_overlaps:
  assumes "list_all2 (table_holds cf fs) ts rs" and "i < length rs"
  shows "table_overlaps (mark_tables ps ts ! i) mn mx = Inr (mn \<le> fst (last (rs ! i)) \<and> fst (hd (rs ! i)) \<le> mx)"
    "table_get_min (mark_tables ps ts ! i) = Inr (fst (hd (rs ! i)))"
    "table_get_max (mark_tables ps ts ! i) = Inr (fst (last (rs ! i)))"
proof -
  have "i < length ts" using lv_holdsD(1) [OF assms(1)] assms(2) by simp
  then have h: "table_holds cf fs (mark_tables ps ts ! i) (rs ! i)"
    using table_holds_index [of "mark_tables ps ts ! i" "ts ! i" cf fs] lv_holdsD(2) [OF assms] by simp
  show "table_overlaps (mark_tables ps ts ! i) mn mx = Inr (mn \<le> fst (last (rs ! i)) \<and> fst (hd (rs ! i)) \<le> mx)"
    "table_get_min (mark_tables ps ts ! i) = Inr (fst (hd (rs ! i)))"
    "table_get_max (mark_tables ps ts ! i) = Inr (fst (last (rs ! i)))"
    using table_overlaps_ok [OF h] table_holdsD(3,4) [OF h] by simp_all
qed

lemma find_overlap_ok:
  assumes "list_all2 (table_holds cf fs) ts rs" and "\<forall>i \<in> set ps. i < length rs"
  shows "\<exists>r. find_overlap (mark_tables picked ts) offsets mn mx ps = Inr r \<and>
    (case r of
       None \<Rightarrow> \<forall>i \<in> set ps. i \<notin> set offsets \<longrightarrow> run_outside mn mx (rs ! i)
     | Some pos \<Rightarrow> pos \<in> set ps \<and> pos \<notin> set offsets)"
  using assms(2)
proof (induction ps)
  case (Cons i ps)
  then have i: "i < length rs" by simp
  show ?case using Cons mark_overlaps(1) [OF assms(1) i, of picked mn mx]
    by (auto simp: run_outside_def not_le split: option.splits)
qed simp

lemma grow_overlaps_ok:
  assumes tables: "list_all2 (table_holds cf fs) ts rs" and free: "\<forall>t \<in> set ts. \<not> compaction_flag t"
    and "distinct offsets" "set offsets \<subseteq> {..< length rs}"
    and "\<forall>i \<in> set offsets. mn \<le> fst (hd (rs ! i)) \<and> fst (last (rs ! i)) \<le> mx"
  shows "\<exists>more. grow_overlaps (mark_tables offsets ts) offsets mn mx =
        Inr (mark_tables (offsets @ more) ts, Inr (offsets @ more)) \<and>
      distinct (offsets @ more) \<and> set more \<subseteq> {..< length rs} \<and>
      (\<forall>i \<in> set (offsets @ more). \<forall>j < length rs. j \<notin> set (offsets @ more) \<longrightarrow> runs_apart (rs ! i) (rs ! j))"
  using assms(3-5)
proof (induction "card ({..< length rs} - set offsets)" arbitrary: offsets mn mx rule: less_induct)
  case less
  note len = lv_holdsD(1) [OF tables]
  obtain r where find: "find_overlap (mark_tables offsets ts) offsets mn mx [0 ..< length rs] = Inr r"
    and r: "case r of None \<Rightarrow> \<forall>i \<in> set [0 ..< length rs]. i \<notin> set offsets \<longrightarrow> run_outside mn mx (rs ! i)
            | Some pos \<Rightarrow> pos \<in> set [0 ..< length rs] \<and> pos \<notin> set offsets"
    using find_overlap_ok [OF tables, of "[0 ..< length rs]" offsets offsets mn mx] by auto
  show ?case
  proof (cases r)
    case None
    have "runs_apart (rs ! i) (rs ! j)" if "i \<in> set offsets" "j < length rs" "j \<notin> set offsets" for i j
    proof -
      have "run_outside mn mx (rs ! j)" using r None that by simp
      then show ?thesis using less.prems(3) that(1) by (fastforce simp: run_outside_def runs_apart_def)
    qed
    then show ?thesis using find None less.prems len
      by (subst grow_overlaps.simps) (auto intro!: exI [of _ "[]"])
  next
    case (Some pos)
    then have pos: "pos < length rs" "pos \<notin> set offsets" using r by auto
    let ?mn = "min mn (fst (hd (rs ! pos)))" and ?mx = "max mx (fst (last (rs ! pos)))"
    have "\<not> compaction_flag (ts ! pos)" using free pos len by simp
    then have start: "start_at (mark_tables offsets ts) pos = (mark_tables (offsets @ [pos]) ts, True)"
      using start_at_mark pos len by simp
    have step: "grow_overlaps (mark_tables offsets ts) offsets mn mx =
        grow_overlaps (mark_tables (offsets @ [pos]) ts) (offsets @ [pos]) ?mn ?mx"
      using find Some start mark_overlaps(2,3) [OF tables pos(1)] len by (subst grow_overlaps.simps) simp
    have "card ({..< length rs} - set (offsets @ [pos])) < card ({..< length rs} - set offsets)"
      using pos by (intro psubset_card_mono) auto
    from less.hyps [OF this, of ?mn ?mx] less.prems pos obtain more where
      "grow_overlaps (mark_tables (offsets @ [pos]) ts) (offsets @ [pos]) ?mn ?mx =
         Inr (mark_tables ((offsets @ [pos]) @ more) ts, Inr ((offsets @ [pos]) @ more))"
      "distinct ((offsets @ [pos]) @ more)" "set more \<subseteq> {..< length rs}"
      "\<forall>i \<in> set ((offsets @ [pos]) @ more). \<forall>j < length rs. j \<notin> set ((offsets @ [pos]) @ more) \<longrightarrow> runs_apart (rs ! i) (rs ! j)"
      by (auto simp: min_le_iff_disj le_max_iff_disj)
    then show ?thesis using step pos(1) by (intro exI [of _ "pos # more"]) simp
  qed
qed

lemma overlaps_loop_ok:
  assumes tables: "list_all2 (table_holds cf fs) ts rs" and free: "\<forall>t \<in> set ts. \<not> compaction_flag t"
    and apart: "\<forall>i < length rs. \<forall>j < length rs. i \<noteq> j \<longrightarrow> runs_apart (rs ! i) (rs ! j)" and le: "mn0 \<le> mx0"
    and n: "n \<le> length rs" "set picked \<subseteq> {..< n}" "distinct picked"
    and mn: "mn = hull_min mn0 (map (nth rs) picked)" and mx: "mx = hull_max mx0 (map (nth rs) picked)"
    and out: "\<forall>j < n. j \<notin> set picked \<longrightarrow> run_outside mn mx (rs ! j)"
  shows "\<exists>ps. overlaps_loop (mark_tables picked ts) picked mn mx [n ..< length rs] =
      Inr (mark_tables ps ts, Some (ps, hull_min mn0 (map (nth rs) ps), hull_max mx0 (map (nth rs) ps))) \<and>
      distinct ps \<and> set ps \<subseteq> {..< length rs} \<and>
      (\<forall>j < length rs. j \<notin> set ps \<longrightarrow>
         run_outside (hull_min mn0 (map (nth rs) ps)) (hull_max mx0 (map (nth rs) ps)) (rs ! j))"
  using n mn mx out
proof (induction "length rs - n" arbitrary: n picked mn mx)
  case 0
  then show ?case by auto
next
  case (Suc d)
  note len = lv_holdsD(1) [OF tables]
  have nlt: "n < length rs" using Suc.hyps(2) by simp
  have upt: "[n ..< length rs] = n # [Suc n ..< length rs]" using nlt by (rule upt_conv_Cons)
  have d: "d = length rs - Suc n" using Suc.hyps(2) by simp
  have new: "n \<notin> set picked" using Suc.prems(2) by auto
  note ov = mark_overlaps [OF tables nlt]
  show ?case
  proof (cases "mn \<le> fst (last (rs ! n)) \<and> fst (hd (rs ! n)) \<le> mx")
    case True
    let ?mn = "min (fst (hd (rs ! n))) mn" and ?mx = "max (fst (last (rs ! n))) mx"
    have "\<not> compaction_flag (ts ! n)" using free nlt len by simp
    then have start: "start_at (mark_tables picked ts) n = (mark_tables (picked @ [n]) ts, True)"
      using start_at_mark new nlt len by simp
    have step: "overlaps_loop (mark_tables picked ts) picked mn mx [n ..< length rs] =
        overlaps_loop (mark_tables (picked @ [n]) ts) (picked @ [n]) ?mn ?mx [Suc n ..< length rs]"
      unfolding upt using True start ov by simp
    have hull: "?mn = hull_min mn0 (map (nth rs) (picked @ [n]))" "?mx = hull_max mx0 (map (nth rs) (picked @ [n]))"
      using Suc.prems(4,5) by simp_all
    have "run_outside ?mn ?mx (rs ! j)" if "j < Suc n" "j \<notin> set (picked @ [n])" for j
    proof (rule run_outside_hull)
      show "run_outside mn mx (rs ! j)" using Suc.prems(6) that by (auto simp: less_Suc_eq)
      show "runs_apart (rs ! j) (rs ! n)" using apart nlt that by auto
      show "mn \<le> mx" using le hull_bounds(1) [of mn0] hull_bounds(3) [of mx0] Suc.prems(4,5) by (meson order_trans)
    qed (use True that nlt lv_holdsD(5) [OF tables] in auto)
    then have out': "\<forall>j < Suc n. j \<notin> set (picked @ [n]) \<longrightarrow> run_outside ?mn ?mx (rs ! j)" by blast
    have "Suc n \<le> length rs" "set (picked @ [n]) \<subseteq> {..< Suc n}" "distinct (picked @ [n])"
      using nlt new Suc.prems(2,3) by auto
    from Suc.hyps(1) [OF d this hull out'] show ?thesis unfolding step .
  next
    case False
    have step: "overlaps_loop (mark_tables picked ts) picked mn mx [n ..< length rs] =
        overlaps_loop (mark_tables picked ts) picked mn mx [Suc n ..< length rs]"
      unfolding upt using False ov by auto
    have out': "\<forall>j < Suc n. j \<notin> set picked \<longrightarrow> run_outside mn mx (rs ! j)"
      using Suc.prems(6) False by (auto simp: less_Suc_eq run_outside_def not_le)
    have "Suc n \<le> length rs" "set picked \<subseteq> {..< Suc n}" using nlt Suc.prems(2) by auto
    from Suc.hyps(1) [OF d this Suc.prems(3-5) out'] show ?thesis unfolding step .
  qed
qed

text \<open>The size bound of a level; the multiplication overflows from level 15 on.\<close>

lemma max_size_loop_ok:
  "0 < sz \<Longrightarrow> max_size_loop sz n =
     (if sz * 10 ^ (n - 1) < 2 ^ 64 then Inr (sz * 10 ^ (n - 1)) else Inl (Panic ''attempt to multiply with overflow'')) \<or>
   sz \<ge> 2 ^ 64"
proof (induction n arbitrary: sz)
  case 0
  then show ?case by (subst max_size_loop.simps) simp
next
  case (Suc n)
  show ?case
  proof (cases "0 < n")
    case True
    then obtain m where n: "n = Suc m" by (cases n) auto
    have mono: "sz * 10 \<le> sz * 10 ^ n" unfolding n by (intro mult_le_mono2) simp
    show ?thesis
    proof (cases "sz * 10 < 2 ^ 64")
      case small: True
      have "max_size_loop sz (Suc n) = max_size_loop (sz * 10) n"
        using True small by (subst max_size_loop.simps) (simp add: usize_mul_def)
      then show ?thesis using Suc.IH [of "sz * 10"] Suc.prems small n by (auto simp: algebra_simps)
    next
      case False
      then have "max_size_loop sz (Suc n) = Inl (Panic ''attempt to multiply with overflow'')"
        using True by (subst max_size_loop.simps) (simp add: usize_mul_def)
      moreover have "\<not> sz * 10 ^ (Suc n - 1) < 2 ^ 64"
        unfolding diff_Suc_1 using False le_less_trans [OF mono] by blast
      ultimately show ?thesis by (metis (full_types))
    qed
  next
    case False
    then show ?thesis by (subst max_size_loop.simps) auto
  qed
qed

lemma level_max_size_eq:
  "level_max_size lv =
     (if unat (lv_index lv) \<le> 14 then Inr (1048576 * 10 ^ (unat (lv_index lv) - 1))
      else Inl (Panic ''attempt to multiply with overflow''))"
proof -
  let ?n = "unat (lv_index lv)"
  have "(1048576::nat) * 10 ^ (?n - 1) < 2 ^ 64 \<longleftrightarrow> ?n \<le> 14"
  proof
    assume "?n \<le> 14"
    then have "?n - 1 \<le> 13" by simp
    then have "(10::nat) ^ (?n - 1) \<le> 10 ^ 13" by (intro power_increasing) simp_all
    then show "(1048576::nat) * 10 ^ (?n - 1) < 2 ^ 64" by simp
  next
    assume lt: "(1048576::nat) * 10 ^ (?n - 1) < 2 ^ 64"
    show "?n \<le> 14"
    proof (rule ccontr)
      assume "\<not> ?n \<le> 14"
      then have "14 \<le> ?n - 1" by simp
      then have "(10::nat) ^ 14 \<le> 10 ^ (?n - 1)" by (intro power_increasing) simp_all
      then show False using lt by simp
    qed
  qed
  then show ?thesis using max_size_loop_ok [of 1048576 ?n] by (simp add: level_max_size_def)
qed

lemma table_get_size_ok:
  assumes "table_holds cf fs t es"
  shows "\<exists>n. table_get_size t = Inr n"
proof -
  obtain idx chunks where "table_layout cf fs t idx chunks" using assms by (auto simp: table_holds_def)
  then obtain sz mn mx where "index_holds (tbl_index t) idx sz mn mx" by (auto simp: table_layout_def)
  from index_fields_ok(2) [OF this] show ?thesis by (simp add: table_get_size_def)
qed

lemma size_based_compaction_ok:
  assumes tables: "list_all2 (table_holds cf fs) (lv_tables lv) rs" and idx: "unat (lv_index lv) \<le> 14"
  shows "\<exists>b. size_based_compaction lv = Inr b \<and> (b \<longrightarrow> lv_tables lv \<noteq> [])"
proof -
  have sum: "\<exists>n. fold_result (\<lambda>total t. bind_result (table_get_size t) (\<lambda>sz. Inr (total + sz))) m ts = Inr n \<and>
      (ts = [] \<longrightarrow> n = m)" if "list_all2 (table_holds cf fs) ts qs" for ts qs m
    using that
  proof (induction ts arbitrary: qs m)
    case (Cons t ts)
    then obtain q qs' where q: "table_holds cf fs t q" "list_all2 (table_holds cf fs) ts qs'"
      by (auto simp: list_all2_Cons1)
    obtain n where "table_get_size t = Inr n" using table_get_size_ok [OF q(1)] by blast
    then show ?case using Cons.IH [OF q(2), of "m + n"] by auto
  qed simp
  show ?thesis using sum [OF tables, of 0] idx level_max_size_eq [of lv]
    by (auto simp: size_based_compaction_def L0_COMPACTION_TRIGGER_def)
qed

definition level_frame :: "level \<Rightarrow> level \<Rightarrow> bool" where
  "level_frame lv lv' \<longleftrightarrow> lv_index lv' = lv_index lv \<and>
     do_seek_based_compaction lv' = do_seek_based_compaction lv \<and> table_placeholders lv' = table_placeholders lv"

lemma find_table_Some: "find_table ts i = Some pos \<Longrightarrow> pos < length ts \<and> tbl_identifier (ts ! pos) = i"
  by (auto simp: find_table_def find_Some_iff)

lemma find_table_None: "find_table ts i = None \<longleftrightarrow> (\<forall>t \<in> set ts. tbl_identifier t \<noteq> i)"
  by (simp add: find_table_def find_None_iff all_set_conv_all_nth)

lemma choose_table_ok:
  assumes tables: "list_all2 (table_holds cf fs) (lv_tables lv) rs" and idx: "unat (lv_index lv) \<le> 14"
  shows "\<exists>lv' c. choose_table lv = Inr (lv', c) \<and> lv_tables lv' = lv_tables lv \<and> level_frame lv lv' \<and>
     (\<forall>pos. c = Some pos \<longrightarrow> pos < length rs)"
proof -
  obtain b where b: "size_based_compaction lv = Inr b" "b \<longrightarrow> lv_tables lv \<noteq> []"
    using size_based_compaction_ok [OF assms] by blast
  show ?thesis using b lv_holdsD(1) [OF tables] find_table_Some [of "lv_tables lv"]
    by (auto simp: choose_table_def level_frame_def Let_def split: option.splits)
qed

text \<open>On a level with no compaction in progress a compaction starts without contention.\<close>

lemma level_maybe_start_compaction_ok:
  assumes tables: "list_all2 (table_holds cf fs) (lv_tables lv) rs"
    and free: "\<forall>t \<in> set (lv_tables lv). \<not> compaction_flag t" and idx: "unat (lv_index lv) \<le> 14"
  shows "\<exists>lv' r. level_maybe_start_compaction lv = Inr (lv', Inr r) \<and> level_frame lv lv' \<and>
    (case r of
       None \<Rightarrow> lv_tables lv' = lv_tables lv
     | Some ts \<Rightarrow> \<exists>ps. ps \<noteq> [] \<and> distinct ps \<and> set ps \<subseteq> {..< length rs} \<and>
         lv_tables lv' = mark_tables ps (lv_tables lv) \<and> ts = map (nth (lv_tables lv')) ps \<and>
         (if lv_index lv = 0
          then \<forall>i \<in> set ps. \<forall>j < length rs. j \<notin> set ps \<longrightarrow> runs_apart (rs ! i) (rs ! j)
          else length ps = 1))"
proof -
  note len = lv_holdsD(1) [OF tables]
  obtain lv1 c where c: "choose_table lv = Inr (lv1, c)" "lv_tables lv1 = lv_tables lv" "level_frame lv lv1"
      "\<And>pos. c = Some pos \<Longrightarrow> pos < length rs" using choose_table_ok [OF tables idx] by blast
  show ?thesis
  proof (cases c)
    case None
    then show ?thesis using c by (auto simp: level_maybe_start_compaction_def)
  next
    case (Some pos)
    then have pos: "pos < length rs" using c(4) by blast
    let ?ts = "mark_tables [pos] (lv_tables lv)"
    have start: "start_at (lv_tables lv1) pos = (?ts, True)"
      using start_at_mark [of pos "lv_tables lv" "[]"] free pos len c(2) by simp
    have i: "lv_index lv1 = lv_index lv" using c(3) by (simp add: level_frame_def)
    show ?thesis
    proof (cases "lv_index lv = 0")
      case False
      then have "level_maybe_start_compaction lv = Inr (lv1\<lparr> lv_tables := ?ts \<rparr>, Inr (Some [?ts ! pos]))"
        using c Some start i by (simp add: level_maybe_start_compaction_def)
      then show ?thesis using False pos c(3)
        by (intro exI [of _ "lv1\<lparr> lv_tables := ?ts \<rparr>"] exI [of _ "Some [?ts ! pos]"])
          (auto simp: level_frame_def intro!: exI [of _ "[pos]"])
    next
      case True
      note ov = mark_overlaps(2,3) [OF tables pos, of "[pos]"]
      obtain more where more: "grow_overlaps ?ts [pos] (fst (hd (rs ! pos))) (fst (last (rs ! pos))) =
          Inr (mark_tables (pos # more) (lv_tables lv), Inr (pos # more))" "distinct (pos # more)"
          "set more \<subseteq> {..< length rs}"
          "\<forall>i \<in> set (pos # more). \<forall>j < length rs. j \<notin> set (pos # more) \<longrightarrow> runs_apart (rs ! i) (rs ! j)"
        using grow_overlaps_ok [OF tables free, of "[pos]" "fst (hd (rs ! pos))" "fst (last (rs ! pos))"] pos by auto
      let ?ts' = "mark_tables (pos # more) (lv_tables lv)"
      have "level_maybe_start_compaction lv =
          Inr (lv1\<lparr> lv_tables := ?ts' \<rparr>, Inr (Some (map (nth ?ts') (pos # more))))"
        using True c Some start i ov more(1) by (simp add: level_maybe_start_compaction_def)
      then show ?thesis using True pos c(3) more(2-4)
        by (intro exI [of _ "lv1\<lparr> lv_tables := ?ts' \<rparr>"] exI [of _ "Some (map (nth ?ts') (pos # more))"])
          (auto simp: level_frame_def intro!: exI [of _ "pos # more"])
    qed
  qed
qed

text \<open>The tables of the next level that a compaction takes, and the placeholder it leaves there.\<close>

lemma get_overlaps_ok:
  assumes tables: "list_all2 (table_holds cf fs) (lv_tables lv) rs"
    and free: "\<forall>t \<in> set (lv_tables lv). \<not> compaction_flag t" "table_placeholders lv = []"
    and apart: "\<forall>i < length rs. \<forall>j < length rs. i \<noteq> j \<longrightarrow> runs_apart (rs ! i) (rs ! j)" and le: "mn \<le> mx"
    and man: "manifest_ok False p fs m T" "unat (next_table_id m) < 2 ^ 64 - 1"
  shows "\<exists>ps fs' m' i lv'. get_overlaps p fs lv mn mx fast_path = Inr (fs', lv', Some (i, map (nth (lv_tables lv')) ps)) \<and>
     lv' = lv\<lparr> lv_tables := mark_tables ps (lv_tables lv), table_placeholders := table_placeholders lv' \<rparr> \<and>
     map ph_id (table_placeholders lv') = [i] \<and> distinct ps \<and> set ps \<subseteq> {..< length rs} \<and>
     (\<forall>j < length rs. j \<notin> set ps \<longrightarrow>
        run_outside (hull_min mn (map (nth rs) ps)) (hull_max mx (map (nth rs) ps)) (rs ! j)) \<and>
     (if fast_path \<noteq> None \<and> ps = [] then i = the fast_path \<and> fs' = fs \<and> m' = m
      else i = next_table_id m \<and> m' = m\<lparr> next_table_id := next_table_id m + 1 \<rparr> \<and> fs' = store_meta p fs m') \<and>
     manifest_ok False p fs' m' T"
proof -
  note len = lv_holdsD(1) [OF tables]
  obtain ps where ps: "overlaps_loop (lv_tables lv) [] mn mx [0 ..< length rs] =
      Inr (mark_tables ps (lv_tables lv), Some (ps, hull_min mn (map (nth rs) ps), hull_max mx (map (nth rs) ps)))"
      "distinct ps" "set ps \<subseteq> {..< length rs}"
      "\<forall>j < length rs. j \<notin> set ps \<longrightarrow>
         run_outside (hull_min mn (map (nth rs) ps)) (hull_max mx (map (nth rs) ps)) (rs ! j)"
    using overlaps_loop_ok [OF tables free(1) apart le, of 0 "[]" mn mx] by auto
  define m1 where "m1 = m\<lparr> next_table_id := next_table_id m + 1 \<rparr>"
  note gen = generate_next_table_id_ok [OF man, folded m1_def]
  let ?ts = "mark_tables ps (lv_tables lv)"
  let ?ph = "\<lambda>i. \<lparr> ph_min = hull_min mn (map (nth rs) ps), ph_max = hull_max mx (map (nth rs) ps), ph_id = i \<rparr>"
  let ?lv = "\<lambda>i. lv\<lparr> lv_tables := ?ts, table_placeholders := [?ph i] \<rparr>"
  show ?thesis
  proof (cases "fast_path \<noteq> None \<and> ps = []")
    case True
    then have "get_overlaps p fs lv mn mx fast_path =
        Inr (fs, ?lv (the fast_path), Some (the fast_path, map (nth ?ts) ps))"
      using ps(1) len free(2) by (auto simp: get_overlaps_def Let_def)
    then show ?thesis using ps(2-4) True man(1)
      by (intro exI [of _ ps] exI [of _ fs] exI [of _ m] exI [of _ "the fast_path"] exI [of _ "?lv (the fast_path)"]) auto
  next
    case False
    have "get_overlaps p fs lv mn mx fast_path =
        Inr (store_meta p fs m1, ?lv (next_table_id m), Some (next_table_id m, map (nth ?ts) ps))"
      using False ps(1) len free(2) gen(1) by (auto simp: get_overlaps_def Let_def split: option.splits)
    then show ?thesis using ps(2-4) False gen(2) m1_def
      by (intro exI [of _ ps] exI [of _ "store_meta p fs m1"] exI [of _ m1] exI [of _ "next_table_id m"]
          exI [of _ "?lv (next_table_id m)"]) auto
  qed
qed

end
