(* ===== verification/Lsm_Merge.thy ===== *)
theory Lsm_Merge
  imports Lsm_Level
begin

text \<open>
  The loop of \<open>DbLogic::compact_level\<close> (\<open>src/src/logic.rs\<close>) that merges sorted tables into a new one.

  \<open>merge_runs\<close> is the reference: the sorted list of all keys of the runs, each with its newest entry.
  The lemmas show that the loop, which works on iterators and writes blocks as it goes, ends and builds
  exactly the table of the reference.
\<close>

section \<open>The loop\<close>

text \<open>Advance every iterator behind the last key and find the least key.\<close>

definition min_key_of :: "key option \<Rightarrow> key \<Rightarrow> key option" where
  "min_key_of min_key k = (case min_key of Some key \<Rightarrow> if k < key then Some k else min_key | None \<Rightarrow> Some k)"

primrec advance_iters ::
    "('c, 'bf) config \<Rightarrow> fs \<Rightarrow> key option \<Rightarrow> 'bf table_iterator list \<Rightarrow> key option
     \<Rightarrow> ('bf table_iterator list \<times> key option) run" where
  "advance_iters cf fs last_key [] min_key = Some (Inr ([], min_key))"
| "advance_iters cf fs last_key (it # its) min_key =
     bind_run
       (case last_key of
          Some key \<Rightarrow> skip_loop table_iter_at_end (table_iter_step cf fs) table_iter_get_key (\<lambda>k. k \<le> key) it
        | None \<Rightarrow> Some (Inr it)) (\<lambda>it.
     bind_run (Some (table_iter_at_end it)) (\<lambda>done.
     bind_run
       (if done then Some (Inr min_key)
        else bind_run (Some (table_iter_get_key it)) (\<lambda>k. Some (Inr (min_key_of min_key k)))) (\<lambda>min_key.
     bind_run (advance_iters cf fs last_key its min_key) (\<lambda>(its, min_key). Some (Inr (it # its, min_key))))))"

text \<open>The iterator with the newest entry for the key.\<close>

primrec pick_newest :: "key \<Rightarrow> 'bf table_iterator list \<Rightarrow> 'bf table_iterator option \<Rightarrow> 'bf table_iterator option result" where
  "pick_newest min_key [] min_iter = Inr min_iter"
| "pick_newest min_key (it # its) min_iter =
     bind_result (table_iter_at_end it) (\<lambda>done.
     if done then pick_newest min_key its min_iter
     else bind_result (table_iter_get_key it) (\<lambda>k.
          if k \<noteq> min_key then pick_newest min_key its min_iter
          else case min_iter of
                 Some other \<Rightarrow>
                   bind_result (table_iter_get_seq_number it) (\<lambda>seq.
                   bind_result (table_iter_get_seq_number other) (\<lambda>other_seq.
                   pick_newest min_key its (if seq > other_seq then Some it else min_iter)))
               | None \<Rightarrow> pick_newest min_key its (Some it)))"

definition add_current ::
    "('c, 'bf) config \<Rightarrow> 'c store \<times> 'bf table_builder \<Rightarrow> key \<Rightarrow> 'bf table_iterator \<Rightarrow> ('c store \<times> 'bf table_builder) result" where
  "add_current cf stb min_key it =
     bind_result (table_iter_get_entry_type it) (\<lambda>ty.
     bind_result (table_iter_get_seq_number it) (\<lambda>seq.
     case ty of
       PutEntry \<Rightarrow>
         bind_result (table_iter_get_entry it) (\<lambda>e.
         bind_result (expect e ''called `Option::unwrap()` on a `None` value'') (\<lambda>entry.
         bind_result (get_value entry) (\<lambda>v.
         bind_result (expect v ''called `Option::unwrap()` on a `None` value'') (\<lambda>value.
         table_add_value cf stb min_key seq value))))
     | DeleteEntry \<Rightarrow> table_add_deletion cf stb min_key seq))"

partial_function (option) merge_loop ::
    "('c, 'bf) config \<Rightarrow> 'c store \<Rightarrow> 'bf table_builder \<Rightarrow> 'bf table_iterator list \<Rightarrow> key option
     \<Rightarrow> ('c store \<times> 'bf table_builder) run" where
  "merge_loop cf s tb its last_key =
     bind_run (advance_iters cf (st_fs s) last_key its None) (\<lambda>(its, min_key).
     case min_key of
       None \<Rightarrow> Some (Inr (s, tb))
     | Some min_key \<Rightarrow>
         bind_run (Some (pick_newest min_key its None)) (\<lambda>min_iter.
         bind_run (Some (expect min_iter ''called `Option::unwrap()` on a `None` value'')) (\<lambda>it.
         bind_run (Some (add_current cf (s, tb) min_key it)) (\<lambda>(s, tb).
         merge_loop cf s tb its (Some min_key)))))"

section \<open>The reference\<close>

primrec least_key :: "run_entries list \<Rightarrow> key option \<Rightarrow> key option" where
  "least_key [] mk = mk"
| "least_key (r # rs) mk = least_key rs (if r = [] then mk else min_key_of mk (fst (hd r)))"

definition newer :: "memtable_entry option \<Rightarrow> memtable_entry \<Rightarrow> memtable_entry option" where
  "newer b e = (case b of Some e' \<Rightarrow> if entry_seq_number e > entry_seq_number e' then Some e else b | None \<Rightarrow> Some e)"

primrec newest_entry :: "run_entries list \<Rightarrow> key \<Rightarrow> memtable_entry option \<Rightarrow> memtable_entry option" where
  "newest_entry [] k b = b"
| "newest_entry (r # rs) k b =
     newest_entry rs k (if r \<noteq> [] \<and> fst (hd r) = k then newer b (snd (hd r)) else b)"

definition runs_after :: "key \<Rightarrow> run_entries list \<Rightarrow> run_entries list" where
  "runs_after key rs = map (dropWhile (\<lambda>x. fst x \<le> key)) rs"

lemma least_key_None: "least_key rs mk = None \<longleftrightarrow> mk = None \<and> (\<forall>r \<in> set rs. r = [])"
  by (induction rs arbitrary: mk) (auto simp: min_key_of_def split: option.splits if_splits)

lemma least_key_Some:
  assumes "least_key rs mk = Some k"
  shows "(mk = Some k \<or> (\<exists>r \<in> set rs. r \<noteq> [] \<and> fst (hd r) = k)) \<and> (\<forall>k'. mk = Some k' \<longrightarrow> k \<le> k') \<and>
    (\<forall>r \<in> set rs. r \<noteq> [] \<longrightarrow> k \<le> fst (hd r))"
  using assms
proof (induction rs arbitrary: mk)
  case (Cons r rs)
  let ?mk = "if r = [] then mk else min_key_of mk (fst (hd r))"
  have IH: "(?mk = Some k \<or> (\<exists>r \<in> set rs. r \<noteq> [] \<and> fst (hd r) = k)) \<and> (\<forall>k'. ?mk = Some k' \<longrightarrow> k \<le> k') \<and>
    (\<forall>r \<in> set rs. r \<noteq> [] \<longrightarrow> k \<le> fst (hd r))" by (rule Cons.IH) (use Cons.prems in simp)
  show ?case
  proof (cases "r = []")
    case True
    then show ?thesis using IH by auto
  next
    case False
    then show ?thesis using IH
      by (cases mk) (auto simp: min_key_of_def not_less split: if_splits dest: less_imp_le intro: order_trans)
  qed
qed auto

lemma newest_entry_Some:
  "(\<exists>e. newest_entry rs k (Some b) = Some e \<and> entry_seq_number b \<le> entry_seq_number e \<and>
     (e = b \<or> (\<exists>r \<in> set rs. r \<noteq> [] \<and> hd r = (k, e))) \<and>
     (\<forall>r \<in> set rs. r \<noteq> [] \<and> fst (hd r) = k \<longrightarrow> entry_seq_number (snd (hd r)) \<le> entry_seq_number e))"
proof (induction rs arbitrary: b)
  case (Cons r rs)
  let ?e = "snd (hd r)"
  show ?case
  proof (cases "r \<noteq> [] \<and> fst (hd r) = k")
    case True
    then have hd: "hd r = (k, ?e)" by (simp add: prod_eq_iff)
    define c where "c = (if entry_seq_number ?e > entry_seq_number b then ?e else b)"
    have nw: "newer (Some b) ?e = Some c" by (simp add: newer_def c_def)
    obtain e where "newest_entry rs k (Some c) = Some e" "entry_seq_number c \<le> entry_seq_number e"
        "e = c \<or> (\<exists>r \<in> set rs. r \<noteq> [] \<and> hd r = (k, e))"
        "\<forall>r \<in> set rs. r \<noteq> [] \<and> fst (hd r) = k \<longrightarrow> entry_seq_number (snd (hd r)) \<le> entry_seq_number e"
      using Cons.IH [of c] by blast
    moreover have "entry_seq_number b \<le> entry_seq_number c" "entry_seq_number ?e \<le> entry_seq_number c" "c = b \<or> c = ?e"
      by (auto simp: c_def not_less)
    ultimately show ?thesis using True nw hd by (auto intro: order_trans)
  next
    case False
    then show ?thesis using Cons.IH [of b] by auto
  qed
qed simp

lemma newest_entry_ok:
  assumes "\<exists>r \<in> set rs. r \<noteq> [] \<and> fst (hd r) = k"
  shows "\<exists>e. newest_entry rs k None = Some e \<and> (\<exists>r \<in> set rs. r \<noteq> [] \<and> hd r = (k, e)) \<and>
     (\<forall>r \<in> set rs. r \<noteq> [] \<and> fst (hd r) = k \<longrightarrow> entry_seq_number (snd (hd r)) \<le> entry_seq_number e)"
  using assms
proof (induction rs)
  case (Cons r rs)
  show ?case
  proof (cases "r \<noteq> [] \<and> fst (hd r) = k")
    case True
    then have "hd r = (k, snd (hd r))" by (simp add: prod_eq_iff)
    then show ?thesis using True newest_entry_Some [of rs k "snd (hd r)"] by (auto simp: newer_def)
  next
    case False
    then show ?thesis using Cons by auto
  qed
qed simp

definition total_length :: "run_entries list \<Rightarrow> nat" where
  "total_length rs = sum_list (map length rs)"

lemma total_length_after:
  assumes "r \<in> set rs" and "r \<noteq> []" and "fst (hd r) \<le> k"
  shows "total_length (runs_after k rs) < total_length rs"
proof -
  have le: "length (dropWhile P xs) \<le> length xs" for P and xs :: run_entries by (rule length_dropWhile_le)
  have all: "total_length (runs_after k qs) \<le> total_length qs" for qs
    by (induction qs) (auto simp: total_length_def runs_after_def intro: add_mono le)
  obtain xs ys where rs: "rs = xs @ r # ys" using assms(1) by (meson split_list)
  have "length (dropWhile (\<lambda>x. fst x \<le> k) r) < length r"
    using assms(2,3) by (cases r) (auto simp: less_Suc_eq_le le)
  then show ?thesis using all [of xs] all [of ys] unfolding rs by (simp add: total_length_def runs_after_def)
qed

function merge_runs :: "run_entries list \<Rightarrow> run_entries" where
  "merge_runs rs =
     (case least_key rs None of
        None \<Rightarrow> []
      | Some k \<Rightarrow> (k, the (newest_entry rs k None)) # merge_runs (runs_after k rs))"
  by pat_completeness auto
termination
proof (relation "measure total_length")
  fix rs k
  assume "least_key rs None = Some k"
  from least_key_Some [OF this] obtain r where r: "r \<in> set rs" "r \<noteq> []" "fst (hd r) \<le> k" by auto
  show "(runs_after k rs, rs) \<in> measure total_length" using total_length_after [OF r] by simp
qed simp

declare merge_runs.simps [simp del]

subsection \<open>What the reference contains\<close>

lemma merge_runs_step:
  assumes "least_key rs None = Some k"
  obtains e where "merge_runs rs = (k, e) # merge_runs (runs_after k rs)" "\<exists>r \<in> set rs. r \<noteq> [] \<and> hd r = (k, e)"
    "\<And>r. r \<in> set rs \<Longrightarrow> r \<noteq> [] \<Longrightarrow> fst (hd r) = k \<Longrightarrow> entry_seq_number (snd (hd r)) \<le> entry_seq_number e"
    "\<And>r. r \<in> set rs \<Longrightarrow> r \<noteq> [] \<Longrightarrow> k \<le> fst (hd r)"
proof -
  note least = least_key_Some [OF assms]
  then have "\<exists>r \<in> set rs. r \<noteq> [] \<and> fst (hd r) = k" by auto
  from newest_entry_ok [OF this] obtain e where e: "newest_entry rs k None = Some e"
      "\<exists>r \<in> set rs. r \<noteq> [] \<and> hd r = (k, e)"
      "\<forall>r \<in> set rs. r \<noteq> [] \<and> fst (hd r) = k \<longrightarrow> entry_seq_number (snd (hd r)) \<le> entry_seq_number e" by blast
  have "merge_runs rs = (k, e) # merge_runs (runs_after k rs)"
    using assms e(1) by (subst merge_runs.simps) simp
  then show ?thesis using that e(2,3) least by blast
qed

lemma set_dropWhile_sorted:
  assumes "sorted_strict (map fst (r :: run_entries))"
  shows "set (dropWhile (\<lambda>x. fst x \<le> k) r) = {x \<in> set r. k < fst x}"
  using assms by (induction r) (auto simp: not_le intro: less_trans)

lemma sorted_dropWhile: "sorted_strict (map fst r) \<Longrightarrow> sorted_strict (map fst (dropWhile P r))"
  by (induction r) auto

lemma runs_after_sorted: "\<forall>r \<in> set rs. sorted_strict (map fst r) \<Longrightarrow> \<forall>r \<in> set (runs_after k rs). sorted_strict (map fst r)"
  by (auto simp: runs_after_def sorted_dropWhile)

lemma runs_after_set:
  assumes "\<forall>r \<in> set rs. sorted_strict (map fst r)"
  shows "\<Union> (set ` set (runs_after k rs)) = {x \<in> \<Union> (set ` set rs). k < fst x}"
  using assms by (auto simp: runs_after_def set_dropWhile_sorted)

text \<open>The merged list is sorted, has entries of the runs only, and for each of them one as new.\<close>

lemma merge_runs_correct:
  assumes "\<forall>r \<in> set rs. sorted_strict (map fst r)"
  shows "sorted_strict (map fst (merge_runs rs)) \<and> set (merge_runs rs) \<subseteq> \<Union> (set ` set rs) \<and>
     (\<forall>(k, e) \<in> \<Union> (set ` set rs). \<exists>e'. (k, e') \<in> set (merge_runs rs) \<and> entry_seq_number e \<le> entry_seq_number e')"
  using assms
proof (induction rs rule: merge_runs.induct)
  case (1 rs)
  show ?case
  proof (cases "least_key rs None")
    case None
    then have "\<forall>r \<in> set rs. r = []" by (simp add: least_key_None)
    moreover have "merge_runs rs = []" using None by (subst merge_runs.simps) simp
    ultimately show ?thesis by auto
  next
    case (Some k)
    let ?rs = "runs_after k rs"
    from merge_runs_step [OF Some] obtain e where step: "merge_runs rs = (k, e) # merge_runs ?rs"
      and hd: "\<exists>r \<in> set rs. r \<noteq> [] \<and> hd r = (k, e)"
      and newest: "\<And>r. r \<in> set rs \<Longrightarrow> r \<noteq> [] \<Longrightarrow> fst (hd r) = k \<Longrightarrow> entry_seq_number (snd (hd r)) \<le> entry_seq_number e"
      and least: "\<And>r. r \<in> set rs \<Longrightarrow> r \<noteq> [] \<Longrightarrow> k \<le> fst (hd r)" by blast
    note set_after = runs_after_set [OF 1(2), of k]
    have IH: "sorted_strict (map fst (merge_runs ?rs))" "set (merge_runs ?rs) \<subseteq> \<Union> (set ` set ?rs)"
        "\<forall>(k, e) \<in> \<Union> (set ` set ?rs). \<exists>e'. (k, e') \<in> set (merge_runs ?rs) \<and> entry_seq_number e \<le> entry_seq_number e'"
      using 1(1) [OF Some runs_after_sorted [OF 1(2)]] by simp_all
    have "k < fst x" if "x \<in> set (merge_runs ?rs)" for x using IH(2) that unfolding set_after by auto
    then have sorted: "sorted_strict (map fst (merge_runs rs))" using IH(1) by (simp add: step)
    have "(k, e) \<in> \<Union> (set ` set rs)" using hd hd_in_set by (metis UN_I)
    then have sub: "set (merge_runs rs) \<subseteq> \<Union> (set ` set rs)" using IH(2) unfolding set_after by (auto simp: step)
    have "\<exists>b'. (a, b') \<in> set (merge_runs rs) \<and> entry_seq_number b \<le> entry_seq_number b'"
      if r: "r \<in> set rs" "(a, b) \<in> set r" for a b r
    proof (cases "k < a")
      case True
      then have "(a, b) \<in> \<Union> (set ` set ?rs)" unfolding set_after using r by auto
      then obtain b' where "(a, b') \<in> set (merge_runs ?rs)" "entry_seq_number b \<le> entry_seq_number b'"
        using IH(3) by blast
      then show ?thesis by (auto simp: step)
    next
      case False
      have ne: "r \<noteq> []" using r(2) by auto
      have "fst (hd r) \<le> a" using chunk_hd_le [of r "(a, b)"] 1(2) r by simp
      then have a: "a = k" "fst (hd r) = k" using least [OF r(1) ne] False by auto
      have "hd r = (a, b)"
      proof -
        have "distinct (map fst r)" using 1(2) r(1) sorted_strict_distinct by blast
        then show ?thesis using r(2) ne a by (cases r) (auto simp: prod_eq_iff image_iff)
      qed
      then show ?thesis using newest [OF r(1) ne] a by (auto simp: step)
    qed
    then show ?thesis using sorted sub by blast
  qed
qed

lemma merge_runs_keys:
  assumes "\<forall>r \<in> set rs. sorted_strict (map fst r)"
  shows "fst ` set (merge_runs rs) = fst ` \<Union> (set ` set rs)"
proof
  note c = merge_runs_correct [OF assms]
  show "fst ` set (merge_runs rs) \<subseteq> fst ` \<Union> (set ` set rs)" using c by (intro image_mono) blast
  show "fst ` \<Union> (set ` set rs) \<subseteq> fst ` set (merge_runs rs)"
  proof
    fix k
    assume "k \<in> fst ` \<Union> (set ` set rs)"
    then obtain e where "(k, e) \<in> \<Union> (set ` set rs)" by force
    then obtain e' where "(k, e') \<in> set (merge_runs rs)" using c by blast
    then show "k \<in> fst ` set (merge_runs rs)" by force
  qed
qed

text \<open>The entries of the result come from different places of the runs.\<close>

lemma merge_runs_sum:
  "sum_list (map f (merge_runs rs)) \<le> sum_list (map (\<lambda>r. sum_list (map f r)) rs)" for f :: "key \<times> memtable_entry \<Rightarrow> nat"
proof (induction rs rule: merge_runs.induct)
  case (1 rs)
  show ?case
  proof (cases "least_key rs None")
    case None
    then show ?thesis by (subst merge_runs.simps) simp
  next
    case (Some k)
    let ?g = "\<lambda>r. sum_list (map f r)" and ?d = "dropWhile (\<lambda>x. fst x \<le> k)"
    obtain e where step: "merge_runs rs = (k, e) # merge_runs (runs_after k rs)"
      and hd: "\<exists>r \<in> set rs. r \<noteq> [] \<and> hd r = (k, e)" by (rule merge_runs_step [OF Some])
    from hd obtain r where r: "r \<in> set rs" "r \<noteq> []" "hd r = (k, e)" by blast
    have le: "?g (?d xs) \<le> ?g xs" for xs by (induction xs) auto
    have all: "sum_list (map ?g (runs_after k qs)) \<le> sum_list (map ?g qs)" for qs
      by (induction qs) (auto simp: runs_after_def intro: add_mono le)
    obtain xs ys where rs: "rs = xs @ r # ys" using r(1) by (meson split_list)
    have "f (k, e) + ?g (?d r) \<le> ?g r" using r(2,3) le by (cases r) auto
    then have "f (k, e) + sum_list (map ?g (runs_after k rs)) \<le> sum_list (map ?g rs)"
      using all [of xs] all [of ys] unfolding rs by (simp add: runs_after_def)
    then show ?thesis using 1(1) [OF Some] by (simp add: step)
  qed
qed

section \<open>The loop builds the reference\<close>

lemma ti_delivers_kept:
  assumes "blocks_kept (cf_params cf) fs fs'" and "ti_delivers cf fs it xs"
  shows "ti_delivers cf fs' it xs"
proof -
  obtain idx chunks where lay: "table_layout cf fs (ti_table it) idx chunks" and
    at: "if ti_reverse it
        then (ti_block_pos it = - 2 \<and> xs = []) \<or>
             (\<exists>j i b ps. ti_at cf fs it idx chunks j i b ps \<and>
                xs = rev (concat (take j chunks) @ take (Suc i) (chunks ! j)) \<and>
                (if 0 < i then ti_block_pos it = int j \<and> ti_block_offset it = i - 1
                 else ti_block_pos it = int j - 1 \<and>
                      ti_block_offset it = (if 0 < j then length (chunks ! (j - 1)) - 1 else 0)))
        else (ti_block_pos it = int (length idx) + 1 \<and> xs = []) \<or>
             (\<exists>j i b ps. ti_at cf fs it idx chunks j i b ps \<and>
                xs = drop i (chunks ! j) @ concat (drop (Suc j) chunks) \<and>
                (if Suc i < length (chunks ! j)
                 then ti_block_pos it = int j \<and> ti_block_offset it = entry_off ps (chunks ! j) (Suc i)
                 else ti_block_pos it = int (Suc j) \<and> ti_block_offset it = 0))"
    using assms(2) unfolding ti_delivers_def by blast
  have mono: "ti_at cf fs it idx chunks j i b ps \<Longrightarrow> ti_at cf fs' it idx chunks j i b ps" for j i b ps
    using load_block_kept [OF assms(1)] by (auto simp: ti_at_def)
  have lay': "table_layout cf fs' (ti_table it) idx chunks" by (rule table_layout_kept [OF assms(1) lay])
  show ?thesis
  proof (cases "ti_reverse it")
    case True
    show ?thesis unfolding ti_delivers_def if_P [OF True] using lay' at [unfolded if_P [OF True]] mono by blast
  next
    case False
    show ?thesis unfolding ti_delivers_def if_not_P [OF False] using lay' at [unfolded if_not_P [OF False]] mono by blast
  qed
qed

definition runs_from :: "key option \<Rightarrow> run_entries list \<Rightarrow> run_entries list" where
  "runs_from last_key rs = (case last_key of Some k \<Rightarrow> runs_after k rs | None \<Rightarrow> rs)"

lemma advance_iters_ok:
  assumes "list_all2 (ti_delivers cf fs) its rs"
  shows "\<exists>its'. advance_iters cf fs last_key its mk = Some (Inr (its', least_key (runs_from last_key rs) mk)) \<and>
     list_all2 (ti_delivers cf fs) its' (runs_from last_key rs)"
  using assms
proof (induction its arbitrary: rs mk)
  case Nil
  then show ?case by (cases last_key) (simp_all add: runs_from_def runs_after_def)
next
  case (Cons it its)
  then obtain r rs' where rs: "rs = r # rs'" "ti_delivers cf fs it r" "list_all2 (ti_delivers cf fs) its rs'"
    by (auto simp: list_all2_Cons1)
  define q where "q = (case last_key of Some k \<Rightarrow> dropWhile (\<lambda>x. fst x \<le> k) r | None \<Rightarrow> r)"
  have q: "runs_from last_key rs = q # runs_from last_key rs'"
    by (cases last_key) (simp_all add: runs_from_def runs_after_def q_def rs(1))
  obtain it1 where it1: "(case last_key of
          Some key \<Rightarrow> skip_loop table_iter_at_end (table_iter_step cf fs) table_iter_get_key (\<lambda>k. k \<le> key) it
        | None \<Rightarrow> Some (Inr it)) = Some (Inr it1)" "ti_delivers cf fs it1 q"
    using ti.skip_loop_ok [OF rs(2)] rs(2) by (cases last_key) (fastforce simp: q_def comp_def)+
  have "table_iter_at_end it1 = Inr (q = [])" by (rule ti.at_end_ok [OF it1(2)])
  moreover have "table_iter_get_key it1 = Inr (fst (hd q))" if "q \<noteq> []"
    using ti.key_ok [of cf fs it1 "fst (hd q)" "snd (hd q)" "tl q"] it1(2) that by simp
  moreover obtain its' where "advance_iters cf fs last_key its (if q = [] then mk else min_key_of mk (fst (hd q))) =
        Some (Inr (its', least_key (runs_from last_key rs') (if q = [] then mk else min_key_of mk (fst (hd q)))))"
      "list_all2 (ti_delivers cf fs) its' (runs_from last_key rs')"
    using Cons.IH [OF rs(3)] by blast
  ultimately show ?case using it1 q by (cases "q = []") auto
qed

definition holds_newest :: "('c, 'bf) config \<Rightarrow> fs \<Rightarrow> key \<Rightarrow> 'bf table_iterator option \<Rightarrow> memtable_entry option \<Rightarrow> bool" where
  "holds_newest cf fs k b e \<longleftrightarrow> rel_option (\<lambda>it e. \<exists>xs. ti_delivers cf fs it ((k, e) # xs)) b e"

lemma pick_newest_ok:
  assumes "list_all2 (ti_delivers cf fs) its rs" and "holds_newest cf fs k b e"
  shows "\<exists>b'. pick_newest k its b = Inr b' \<and> holds_newest cf fs k b' (newest_entry rs k e)"
  using assms
proof (induction its arbitrary: rs b e)
  case (Cons it its)
  then obtain r rs' where rs: "rs = r # rs'" "ti_delivers cf fs it r" "list_all2 (ti_delivers cf fs) its rs'"
    by (auto simp: list_all2_Cons1)
  have ae: "table_iter_at_end it = Inr (r = [])" by (rule ti.at_end_ok [OF rs(2)])
  show ?case
  proof (cases "r \<noteq> [] \<and> fst (hd r) = k")
    case True
    then have d: "ti_delivers cf fs it ((k, snd (hd r)) # tl r)" using rs(2) by (cases r) auto
    note acc = ti.key_ok [OF d] ti.seq_ok [OF d]
    show ?thesis
    proof (cases b)
      case None
      then have e: "e = None" using Cons.prems(2) by (simp add: holds_newest_def)
      have "holds_newest cf fs k (Some it) (Some (snd (hd r)))" using d by (auto simp: holds_newest_def)
      from Cons.IH [OF rs(3) this] show ?thesis using True ae acc None e rs(1) by (auto simp: newer_def)
    next
      case (Some other)
      then obtain e' xs where e: "e = Some e'" "ti_delivers cf fs other ((k, e') # xs)"
        using Cons.prems(2) by (auto simp: holds_newest_def option_rel_Some1)
      have "holds_newest cf fs k (if entry_seq_number (snd (hd r)) > entry_seq_number e' then Some it else b)
          (newer e (snd (hd r)))"
        using d Cons.prems(2) e(1) by (auto simp: holds_newest_def newer_def)
      from Cons.IH [OF rs(3) this] show ?thesis
        using True ae acc Some e(1) ti.seq_ok [OF e(2)] rs(1) by auto
    qed
  next
    case False
    have "table_iter_get_key it = Inr (fst (hd r))" if "r \<noteq> []"
      using ti.key_ok [of cf fs it "fst (hd r)" "snd (hd r)" "tl r"] rs(2) that by simp
    then show ?thesis using False ae Cons.IH [OF rs(3) Cons.prems(2)] rs(1) by (cases "r = []") auto
  qed
qed (auto simp: holds_newest_def)

lemma add_current_ok:
  assumes "ti_delivers cf fs it ((k, e) # xs)"
  shows "add_current cf stb k it = table_add cf stb (k, e)"
proof -
  note acc = ti.type_ok [OF assms] ti.seq_ok [OF assms] ti.value_ok [OF assms]
  show ?thesis
  proof (cases e)
    case (Value seq v)
    have "table_iter_get_entry it = Inr (Some (ti_entry it))"
      using acc(1) Value by (simp add: table_iter_get_entry_def table_iter_get_entry_type_def)
    then show ?thesis using acc Value by (simp add: add_current_def table_add_def table_iter_get_value_def)
  next
    case (Deletion seq)
    then show ?thesis using acc by (simp add: add_current_def table_add_def)
  qed
qed

lemma merge_loop_ok:
  assumes "list_all2 (ti_delivers cf (st_fs s)) its rs" and "store_ok cf s m T"
    and "table_building cf (st_fs s) tb chunks cur"
    and "table_fits (concat chunks @ cur @ merge_runs (runs_from last_key rs))"
    and "unat (next_data_block_id m) + length (merge_runs (runs_from last_key rs)) < 2 ^ 64"
  shows "merge_loop cf s tb its last_key =
     Some (fold_result (table_add cf) (s, tb) (merge_runs (runs_from last_key rs)))"
  using assms
proof (induction "merge_runs (runs_from last_key rs)" arbitrary: s tb its rs last_key m chunks cur)
  case Nil
  let ?qs = "runs_from last_key rs"
  obtain its' where adv: "advance_iters cf (st_fs s) last_key its None = Some (Inr (its', least_key ?qs None))"
    using advance_iters_ok [OF Nil.prems(1)] by blast
  have "least_key ?qs None = None" using Nil.hyps by (subst (asm) merge_runs.simps) (auto split: option.splits)
  then show ?case using adv Nil.hyps [symmetric] by (subst merge_loop.simps) simp
next
  case (Cons x xs)
  let ?qs = "runs_from last_key rs"
  obtain its' where adv: "advance_iters cf (st_fs s) last_key its None = Some (Inr (its', least_key ?qs None))"
    and its': "list_all2 (ti_delivers cf (st_fs s)) its' ?qs"
    using advance_iters_ok [OF Cons.prems(1)] by blast
  obtain k where k: "least_key ?qs None = Some k" using Cons.hyps(2) by (subst (asm) merge_runs.simps) (auto split: option.splits)
  obtain b where b: "pick_newest k its' None = Inr b" "holds_newest cf (st_fs s) k b (newest_entry ?qs k None)"
    using pick_newest_ok [OF its', of k None None] by (auto simp: holds_newest_def)
  have "\<exists>r \<in> set ?qs. r \<noteq> [] \<and> fst (hd r) = k" using least_key_Some [OF k] by auto
  from newest_entry_ok [OF this] obtain e where e: "newest_entry ?qs k None = Some e" by blast
  obtain it ys where it: "b = Some it" "ti_delivers cf (st_fs s) it ((k, e) # ys)"
    using b(2) e by (auto simp: holds_newest_def option_rel_Some2)
  have x: "x = (k, e)" and xs: "xs = merge_runs (runs_after k ?qs)"
    using Cons.hyps(2) k e by (subst (asm) merge_runs.simps, simp)+
  have add: "add_current cf (s, tb) k it = table_add cf (s, tb) x" using add_current_ok [OF it(2)] x by simp
  have fits: "table_fits (concat chunks @ cur @ [x])" "unat (next_data_block_id m) < 2 ^ 64 - 1"
    using Cons.prems(4,5) unfolding Cons.hyps(2) [symmetric] by (simp_all add: table_fits_def)
  from table_add_ok [OF Cons.prems(2,3) fits] obtain s1 tb1 chunks1 cur1 m1 where
    1: "table_add cf (s, tb) x = Inr (s1, tb1)" "store_ok cf s1 m1 T" "blocks_drawn m 1 m1"
      "only_blocks (cf_params cf) (st_fs s) (st_fs s1)" "table_building cf (st_fs s1) tb1 chunks1 cur1"
      "concat chunks1 @ cur1 = concat chunks @ cur @ [x]" by blast
  have kept: "blocks_kept (cf_params cf) (st_fs s) (st_fs s1)" using 1(4) unfolding only_blocks_def by blast
  have "list_all2 (ti_delivers cf (st_fs s1)) its' ?qs"
    by (rule list_all2_mono [OF its']) (rule ti_delivers_kept [OF kept])
  moreover have from_k: "runs_from (Some k) ?qs = runs_after k ?qs" by (simp add: runs_from_def)
  moreover have "table_fits (concat chunks1 @ cur1 @ xs)"
    using Cons.prems(4) 1(6) unfolding Cons.hyps(2) [symmetric] by (metis append.assoc append_Cons append_Nil)
  moreover have "unat (next_data_block_id m1) + length xs < 2 ^ 64"
    using Cons.prems(5) 1(3) unfolding Cons.hyps(2) [symmetric] by (simp add: blocks_drawn_def)
  ultimately have "merge_loop cf s1 tb1 its' (Some k) = Some (fold_result (table_add cf) (s1, tb1) xs)"
    using Cons.hyps(1) [of "Some k" ?qs] 1(2,5) xs by simp
  then show ?case unfolding Cons.hyps(2) [symmetric]
    using adv k b(1) it(1) add 1(1) by (subst merge_loop.simps) simp
qed

end
