(* ===== verification/Lsm_Logic.thy ===== *)
theory Lsm_Logic
  imports Lsm_WalClient Lsm_Merge
begin

text \<open>
  The database logic (\<open>DbLogic\<close> of \<open>src/src/logic.rs\<close>) without the \<open>wisckey\<close> feature: lookups,
  writes, the compaction of memtables and of levels, and the statistics logger
  (\<open>src/src/level_logger.rs\<close>).

  An operation of the model is the whole operation of the source, run while no other one does; where
  the source waits for a background task, the task runs.
\<close>

section \<open>The statistics logger\<close>

text \<open>\<open>ll_elapsed n\<close> is what the clock shows when record \<open>n\<close> of the file is written.\<close>

record level_logger =
  ll_elapsed :: "nat \<Rightarrow> nat"
  ll_outfile :: "string list list"
  ll_num_tables :: "nat list"

definition level_logger_new :: "(nat \<Rightarrow> nat) \<Rightarrow> nat \<Rightarrow> level_logger" where
  "level_logger_new elapsed n =
     \<lparr> ll_elapsed = elapsed, ll_outfile = [''time'' # map (\<lambda>idx. ''level'' @ dec idx) [0 ..< n]],
       ll_num_tables = replicate n 0 \<rparr>"

definition logger_write :: "level_logger \<Rightarrow> level_logger" where
  "logger_write lg =
     lg\<lparr> ll_outfile := ll_outfile lg @
           [dec (ll_elapsed lg (length (ll_outfile lg))) # map dec (ll_num_tables lg)] \<rparr>"

definition l0_table_added :: "level_logger \<Rightarrow> level_logger result" where
  "l0_table_added lg =
     bind_result (index (ll_num_tables lg) 0) (\<lambda>n.
     Inr (logger_write (lg\<lparr> ll_num_tables := (ll_num_tables lg)[0 := n + 1] \<rparr>)))"

definition logger_compaction :: "level_logger \<Rightarrow> nat \<Rightarrow> nat \<Rightarrow> nat \<Rightarrow> level_logger result" where
  "logger_compaction lg lvl added removed =
     bind_result (index (ll_num_tables lg) lvl) (\<lambda>n.
     bind_result (checked_sub n removed) (\<lambda>n'.
     let nums = (ll_num_tables lg)[lvl := n'] in
     bind_result (index nums (lvl + 1)) (\<lambda>n.
     Inr (logger_write (lg\<lparr> ll_num_tables := nums[lvl + 1 := n + added] \<rparr>)))))"

definition with_logger :: "(level_logger \<Rightarrow> level_logger result) \<Rightarrow> level_logger option \<Rightarrow> level_logger option result" where
  "with_logger f lg =
     (case lg of Some lg \<Rightarrow> bind_result (f lg) (\<lambda>lg. Inr (Some lg)) | None \<Rightarrow> Inr None)"

section \<open>The database\<close>

datatype compact_result = NothingToDo | DidWork | Locked

datatype 'bf entry_ref = SortedTableEntry "'bf data_entry" | MemtableEntry memtable_entry

primrec entry_ref_get_value :: "'bf entry_ref \<Rightarrow> val result" where
  "entry_ref_get_value (SortedTableEntry entry) =
     bind_result (get_value entry) (\<lambda>v. expect v ''called `Option::unwrap()` on a `None` value'')"
| "entry_ref_get_value (MemtableEntry entry) =
     expect (entry_value entry) ''called `Option::unwrap()` on a `None` value''"

text \<open>The manifest is part of the store: it consists of the mapped files.\<close>

record 'c db =
  db_store :: "'c store"
  db_memtable :: memtable
  imm_memtables :: "(u64 \<times> memtable) list"
  db_levels :: "level list"
  db_wal :: wal_log
  db_logger :: "level_logger option"

abbreviation db_fs :: "'c db \<Rightarrow> fs" where
  "db_fs db \<equiv> st_fs (db_store db)"

abbreviation with_fs :: "'c db \<Rightarrow> fs \<Rightarrow> 'c db" where
  "with_fs db fs \<equiv> db\<lparr> db_store := (db_store db)\<lparr> st_fs := fs \<rparr> \<rparr>"

abbreviation set_level :: "'c db \<Rightarrow> nat \<Rightarrow> level \<Rightarrow> 'c db" where
  "set_level db i lv \<equiv> db\<lparr> db_levels := (db_levels db)[i := lv] \<rparr>"

subsection \<open>Lookups\<close>

primrec imm_get :: "(u64 \<times> memtable) list \<Rightarrow> key \<Rightarrow> memtable_entry option" where
  "imm_get [] k = None"
| "imm_get (x # xs) k = (case memtable_get (snd x) k of Some e \<Rightarrow> Some e | None \<Rightarrow> imm_get xs k)"

primrec levels_get ::
    "('c, 'bf) config \<Rightarrow> key \<Rightarrow> 'c store \<Rightarrow> level list \<Rightarrow> bool
     \<Rightarrow> ('c store \<times> level list \<times> bool \<times> 'bf data_entry option) run" where
  "levels_get cf k s [] triggered = Some (Inr (s, [], triggered, None))"
| "levels_get cf k s (lv # lvs) triggered =
     bind_run (level_get cf s lv k) (\<lambda>(s, lv, level_triggered, result).
     let triggered = level_triggered \<or> triggered in
     case result of
       Some entry \<Rightarrow> Some (Inr (s, lv # lvs, triggered, Some entry))
     | None \<Rightarrow>
         bind_run (levels_get cf k s lvs triggered) (\<lambda>(s, lvs, triggered, result).
         Some (Inr (s, lv # lvs, triggered, result))))"

definition memtable_ref :: "memtable_entry \<Rightarrow> 'bf entry_ref option" where
  "memtable_ref e = (case entry_type_of e of PutEntry \<Rightarrow> Some (MemtableEntry e) | DeleteEntry \<Rightarrow> None)"

definition db_get :: "('c, 'bf) config \<Rightarrow> 'c db \<Rightarrow> key \<Rightarrow> ('c db \<times> bool \<times> 'bf entry_ref option) run" where
  "db_get cf db k =
     (case memtable_get (db_memtable db) k of
        Some e \<Rightarrow> Some (Inr (db, False, memtable_ref e))
      | None \<Rightarrow>
          (case imm_get (rev (imm_memtables db)) k of
             Some e \<Rightarrow> Some (Inr (db, False, memtable_ref e))
           | None \<Rightarrow>
               bind_run (levels_get cf k (db_store db) (db_levels db) False) (\<lambda>(s, lvs, triggered, result).
               let db = db\<lparr> db_store := s, db_levels := lvs \<rparr> in
               case result of
                 None \<Rightarrow> Some (Inr (db, triggered, None))
               | Some entry \<Rightarrow>
                   bind_run (Some (get_type entry)) (\<lambda>ty.
                   Some (Inr (db, triggered,
                     case ty of PutEntry \<Rightarrow> Some (SortedTableEntry entry) | DeleteEntry \<Rightarrow> None))))))"

subsection \<open>Compaction of a memtable\<close>

definition do_memtable_compaction :: "('c, 'bf) config \<Rightarrow> io_mode \<Rightarrow> 'c db \<Rightarrow> ('c db \<times> bool) run" where
  "do_memtable_compaction cf mode db =
     (let p = cf_params cf in
      case imm_memtables db of
        [] \<Rightarrow> Some (Inr (db, False))
      | (offset, mem) # _ \<Rightarrow>
          bind_run (Some (get_min_max_key mem)) (\<lambda>(min_key, max_key).
          bind_run (Some (index (db_levels db) 0)) (\<lambda>l0.
          bind_run (Some (generate_next_table_id False p (db_fs db))) (\<lambda>(fs, table_id).
          let db = with_fs db fs in
          bind_run (Some (fold_result (table_add cf) (db_store db, level_build_table cf l0 table_id min_key max_key)
                           (entries mem))) (\<lambda>stb.
          bind_run (Some (table_finish cf stb)) (\<lambda>(s, table).
          let db = db\<lparr> db_store := s \<rparr> in
          bind_run (Some (add_l0_table l0 table)) (\<lambda>l0.
          let db = set_level db 0 l0 in
          bind_run (Some (with_logger l0_table_added (db_logger db))) (\<lambda>lg.
          let db = db\<lparr> db_logger := lg \<rparr> in
          bind_run (Some (set_seq_number_offset False p (db_fs db) (next_seq_number mem))) (\<lambda>fs.
          bind_run (Some (update_table_set p fs [(0, tbl_identifier table)] [])) (\<lambda>fs.
          bind_run (wal_flush p mode fs (db_wal db) offset) (\<lambda>(fs, wal).
          bind_run (Some (set_log_offset False p fs offset)) (\<lambda>fs.
          Some (Inr (with_fs (db\<lparr> db_wal := wal, imm_memtables := tl (imm_memtables db) \<rparr>) fs, True))))))))))))))"

subsection \<open>Writes\<close>

text \<open>
  A writer that has filled the memtable waits, while it holds the lock of the memtable, until no immutable
  memtable is left.
\<close>

partial_function (option) wait_imm :: "('c, 'bf) config \<Rightarrow> io_mode \<Rightarrow> 'c db \<Rightarrow> 'c db run" where
  "wait_imm cf mode db =
     (if imm_memtables db = [] then Some (Inr db)
      else bind_run (do_memtable_compaction cf mode db) (\<lambda>(db, _). wait_imm cf mode db))"

definition write_opts ::
    "('c, 'bf) config \<Rightarrow> io_mode \<Rightarrow> 'c db \<Rightarrow> write_batch \<Rightarrow> write_options \<Rightarrow> ('c db \<times> bool) run" where
  "write_opts cf mode db batch opt =
     (let p = cf_params cf in
      bind_run (wal_store p mode (db_fs db) (db_wal db) (map Write (writes batch))) (\<lambda>(fs, wal, log_pos).
      bind_run (if sync_opt opt then wal_sync p mode fs wal else Some (Inr (fs, wal))) (\<lambda>(fs, wal).
      let db = with_fs (db\<lparr> db_wal := wal \<rparr>) fs in
      bind_run (Some (fold_result memtable_apply (db_memtable db) (writes batch))) (\<lambda>mem.
      if is_full mem p
      then
        let (imm, mem) = memtable_take mem (next_seq_number mem) in
        bind_run (wait_imm cf mode (db\<lparr> db_memtable := mem \<rparr>)) (\<lambda>db.
        Some (Inr (db\<lparr> imm_memtables := imm_memtables db @ [(log_pos, imm)] \<rparr>, True)))
      else Some (Inr (db\<lparr> db_memtable := mem \<rparr>, False))))))"

definition db_synchronize :: "('c, 'bf) config \<Rightarrow> io_mode \<Rightarrow> 'c db \<Rightarrow> 'c db run" where
  "db_synchronize cf mode db =
     bind_run (wal_sync (cf_params cf) mode (db_fs db) (db_wal db)) (\<lambda>(fs, wal).
     Some (Inr (with_fs (db\<lparr> db_wal := wal \<rparr>) fs)))"

definition db_stop :: "('c, 'bf) config \<Rightarrow> io_mode \<Rightarrow> 'c db \<Rightarrow> 'c db run" where
  "db_stop cf mode db =
     bind_run (wal_stop (cf_params cf) mode (db_fs db) (db_wal db)) (\<lambda>(fs, wal).
     Some (Inr (with_fs (db\<lparr> db_wal := wal \<rparr>) fs)))"

subsection \<open>Compaction of a level\<close>

definition table_range :: "key \<times> key \<Rightarrow> sorted_table list \<Rightarrow> (key \<times> key) result" where
  "table_range =
     fold_result (\<lambda>(min_key, max_key) t.
       bind_result (table_get_min t) (\<lambda>t_min.
       bind_result (table_get_max t) (\<lambda>t_max. Inr (min min_key t_min, max max_key t_max))))"

text \<open>Release the tables of a level that a compaction has taken.\<close>

definition abort_tables :: "level \<Rightarrow> sorted_table list \<Rightarrow> level result" where
  "abort_tables lv tables =
     bind_result
       (fold_result (\<lambda>ts t. case find_table ts (tbl_identifier t) of
                              Some pos \<Rightarrow> abort_at ts pos
                            | None \<Rightarrow> bind_result (abort_compaction t) (\<lambda>_. Inr ts)) (lv_tables lv) tables)
       (\<lambda>ts. Inr (lv\<lparr> lv_tables := ts \<rparr>))"

definition remove_by_id :: "sorted_table list \<Rightarrow> sorted_table \<Rightarrow> sorted_table list result" where
  "remove_by_id ts t =
     (case find_table ts (tbl_identifier t) of
        Some pos \<Rightarrow> bind_result (vec_remove ts pos) (\<lambda>(_, ts). Inr ts)
      | None \<Rightarrow> Inl (Panic ''assertion failed: found''))"

text \<open>The position of the first table with a greater minimum, or \<open>dflt\<close>.\<close>

primrec insert_pos :: "sorted_table list \<Rightarrow> key \<Rightarrow> nat \<Rightarrow> nat \<Rightarrow> nat result" where
  "insert_pos [] min_key pos dflt = Inr dflt"
| "insert_pos (t # ts) min_key pos dflt =
     bind_result (table_get_min t) (\<lambda>t_min.
     if t_min > min_key then Inr pos else insert_pos ts min_key (pos + 1) dflt)"

definition fast_compaction :: "('c, 'bf) config \<Rightarrow> 'c db \<Rightarrow> nat \<Rightarrow> u64 \<Rightarrow> 'c db result" where
  "fast_compaction cf db i table_id =
     (let parent = db_levels db ! i; child = db_levels db ! (i + 1) in
      bind_result (expect (find_table (lv_tables parent) table_id) ''Entry for parent table not found'') (\<lambda>pos.
      bind_result (vec_remove (lv_tables parent) pos) (\<lambda>(table, parent_tables).
      bind_result (table_get_min table) (\<lambda>t_min.
      bind_result (insert_pos (lv_tables child) t_min 0 0) (\<lambda>new_pos.
      bind_result (vec_insert (lv_tables child) new_pos table) (\<lambda>child_tables.
      bind_result (remove_table_placeholder (child\<lparr> lv_tables := child_tables \<rparr>) table_id) (\<lambda>child.
      let parent_tables = (case find_table parent_tables (tbl_identifier table) of
                             Some pos \<Rightarrow> take pos parent_tables @ drop (Suc pos) parent_tables
                           | None \<Rightarrow> parent_tables);
          parent = parent\<lparr> lv_tables := parent_tables \<rparr> in
      bind_result (update_table_set (cf_params cf) (db_fs db) [(lv_index child, tbl_identifier table)]
                     [(lv_index parent, tbl_identifier table)]) (\<lambda>fs.
      bind_result (with_logger (\<lambda>lg. logger_compaction lg (unat (lv_index parent)) 1 1) (db_logger db)) (\<lambda>lg.
      bind_result (finish_fast_compaction (lv_tables child ! new_pos)) (\<lambda>t.
      let child = child\<lparr> lv_tables := (lv_tables child)[new_pos := t] \<rparr> in
      Inr (set_level (set_level (with_fs (db\<lparr> db_logger := lg \<rparr>) fs) i parent) (i + 1) child)))))))))))"

text \<open>The part of \<open>compact_level\<close> that merges the tables.\<close>

definition merge_tables ::
    "('c, 'bf) config \<Rightarrow> 'c db \<Rightarrow> nat \<Rightarrow> u64 \<Rightarrow> sorted_table list \<Rightarrow> sorted_table list \<Rightarrow> key \<times> key \<Rightarrow> 'c db run" where
  "merge_tables cf db i table_id parents children rng =
     (let parent = db_levels db ! i; child = db_levels db ! (i + 1) in
      bind_run (Some (table_range rng children)) (\<lambda>(min_key, max_key).
      bind_run (Some (assert_that (min_key \<le> max_key) ''assertion failed: min_key <= max_key'')) (\<lambda>_.
      bind_run (Some (map_result (\<lambda>t. table_iterator_new cf (db_fs db) t False) (parents @ children))) (\<lambda>table_iters.
      bind_run (merge_loop cf (db_store db) (level_build_table cf child table_id min_key max_key) table_iters None) (\<lambda>stb.
      bind_run (Some (table_finish cf stb)) (\<lambda>(s, new_table).
      let db = db\<lparr> db_store := s \<rparr> in
      bind_run (Some (fold_result remove_by_id (lv_tables child) children)) (\<lambda>child_tables.
      bind_run (Some (table_get_min new_table)) (\<lambda>new_min.
      bind_run (Some (insert_pos child_tables new_min 0 (length child_tables))) (\<lambda>new_pos.
      bind_run (Some (vec_insert child_tables new_pos new_table)) (\<lambda>child_tables.
      bind_run (Some (remove_table_placeholder (child\<lparr> lv_tables := child_tables \<rparr>) table_id)) (\<lambda>child.
      bind_run (Some (fold_result remove_by_id (lv_tables parent) parents)) (\<lambda>parent_tables.
      let parent = parent\<lparr> lv_tables := parent_tables \<rparr>;
          add_set = [(lv_index child, tbl_identifier new_table)];
          remove_set = map (\<lambda>t. (lv_index child, tbl_identifier t)) children @
                       map (\<lambda>t. (lv_index parent, tbl_identifier t)) parents in
      bind_run (Some (with_logger (\<lambda>lg. logger_compaction lg (unat (lv_index parent)) (length add_set) (length remove_set))
                        (db_logger db))) (\<lambda>lg.
      bind_run (Some (update_table_set (cf_params cf) (db_fs db) add_set remove_set)) (\<lambda>fs.
      Some (Inr (set_level (set_level (with_fs (db\<lparr> db_logger := lg \<rparr>) fs) i parent) (i + 1) child))))))))))))))))"

definition compact_level :: "('c, 'bf) config \<Rightarrow> 'c db \<Rightarrow> nat \<Rightarrow> ('c db \<times> compact_result) run" where
  "compact_level cf db i =
     (let parent = db_levels db ! i; child = db_levels db ! (i + 1) in
      bind_run (Some (assert_that (lv_index parent + 1 = lv_index child)
                        ''assertion failed: parent_level.get_index() + 1 == child_level.get_index()'')) (\<lambda>_.
      bind_run (Some (level_maybe_start_compaction parent)) (\<lambda>(parent, started).
      let db = set_level db i parent in
      case started of
        Inl _ \<Rightarrow> Some (Inr (db, Locked))
      | Inr None \<Rightarrow> Some (Inr (db, NothingToDo))
      | Inr (Some parents) \<Rightarrow>
          bind_run (Some (assert_that (parents \<noteq> []) ''assertion failed: !parent_tbls_to_compact.is_empty()'')) (\<lambda>_.
          bind_run (Some (table_get_min (hd parents))) (\<lambda>min_key.
          bind_run (Some (table_get_max (hd parents))) (\<lambda>max_key.
          bind_run (Some (table_range (min_key, max_key) (tl parents))) (\<lambda>(min_key, max_key).
          bind_run (Some (get_overlaps (cf_params cf) (db_fs db) child min_key max_key
                            (if length parents = 1 then Some (tbl_identifier (hd parents)) else None))) (\<lambda>(fs, child, overlaps).
          let db = set_level (with_fs db fs) (i + 1) child in
          case overlaps of
            None \<Rightarrow>
              bind_run (Some (abort_tables parent parents)) (\<lambda>parent. Some (Inr (set_level db i parent, NothingToDo)))
          | Some (table_id, children) \<Rightarrow>
              if length parents = 1 \<and> children = []
              then
                bind_run (Some (assert_that (tbl_identifier (hd parents) = table_id)
                                  ''assertion failed: parent_tbls_to_compact[0].get_id() == table_id'')) (\<lambda>_.
                bind_run (Some (fast_compaction cf db i table_id)) (\<lambda>db. Some (Inr (db, DidWork))))
              else
                bind_run (merge_tables cf db i table_id parents children (min_key, max_key)) (\<lambda>db.
                Some (Inr (db, DidWork)))))))))))"

primrec level_compaction_loop ::
    "('c, 'bf) config \<Rightarrow> nat list \<Rightarrow> 'c db \<Rightarrow> bool \<Rightarrow> ('c db \<times> bool) run" where
  "level_compaction_loop cf [] db was_locked = Some (Inr (db, was_locked))"
| "level_compaction_loop cf (level_pos # rest) db was_locked =
     (if level_pos < num_levels (cf_params cf) - 1
      then
        bind_run (compact_level cf db level_pos) (\<lambda>(db, r).
        case r of
          DidWork \<Rightarrow> Some (Inr (db, True))
        | Locked \<Rightarrow> level_compaction_loop cf rest db True
        | NothingToDo \<Rightarrow> level_compaction_loop cf rest db was_locked)
      else level_compaction_loop cf rest db was_locked)"

definition do_level_compaction :: "('c, 'bf) config \<Rightarrow> 'c db \<Rightarrow> ('c db \<times> bool) run" where
  "do_level_compaction cf db = level_compaction_loop cf [0 ..< length (db_levels db)] db False"

end
