(* ===== verification/Lsm_Runs.thy ===== *)
theory Lsm_Runs
  imports Lsm_Merge
begin

text \<open>
  The order of the runs of a database, from the memtable to the last level: of two entries for a key the
  one in the earlier run is the newer one. Under this invariant the first entry found is the newest, and
  replacing adjacent runs by their merge changes no lookup.
\<close>

section \<open>Newest entries first\<close>

definition newer_run :: "run_entries \<Rightarrow> run_entries \<Rightarrow> bool" where
  "newer_run a b \<longleftrightarrow>
     (\<forall>k x y. map_of a k = Some x \<longrightarrow> map_of b k = Some y \<longrightarrow> entry_seq_number y < entry_seq_number x)"

abbreviation newest_first :: "run_entries list \<Rightarrow> bool" where
  "newest_first \<equiv> sorted_wrt newer_run"

lemma newer_runD:
  "newer_run a b \<Longrightarrow> map_of a k = Some x \<Longrightarrow> map_of b k = Some y \<Longrightarrow> entry_seq_number y < entry_seq_number x"
  by (simp add: newer_run_def)

lemma newer_run_empty [simp]: "newer_run [] b" "newer_run a []"
  by (simp_all add: newer_run_def)

lemma newer_run_apart:
  assumes "runs_apart a b" "sorted_strict (map fst a)" "sorted_strict (map fst b)"
  shows "newer_run a b"
  using runs_apart_map_of [OF assms] by (auto simp: newer_run_def)

lemma lookup_runs_in:
  "lookup_runs rs k = Some e \<Longrightarrow> \<exists>r \<in> set rs. map_of r k = Some e"
  by (induction rs) (auto split: option.splits)

lemma lookup_runs_None: "lookup_runs rs k = None \<longleftrightarrow> (\<forall>r \<in> set rs. map_of r k = None)"
  by (induction rs) (auto split: option.splits)

lemma lookup_runs_newest:
  assumes "newest_first rs" and "lookup_runs rs k = Some e" and "r \<in> set rs" and "map_of r k = Some e'"
  shows "e' = e \<or> entry_seq_number e' < entry_seq_number e"
  using assms
proof (induction rs)
  case (Cons a rs)
  show ?case
  proof (cases "map_of a k")
    case None
    then show ?thesis using Cons by (cases "r = a") auto
  next
    case (Some x)
    then have e: "x = e" using Cons.prems(2) by simp
    show ?thesis
    proof (cases "r = a")
      case True
      then show ?thesis using Some e Cons.prems(4) by simp
    next
      case False
      then have "newer_run a r" using Cons.prems(1,3) by simp
      then show ?thesis using newer_runD Some e Cons.prems(4) by blast
    qed
  qed
qed simp

text \<open>Lookups in two lists of runs agree when the entries are the same up to superseded ones.\<close>

lemma lookup_runs_eqI:
  assumes "newest_first rs" and "newest_first rs'"
    and sub: "\<And>r' e. r' \<in> set rs' \<Longrightarrow> map_of r' k = Some e \<Longrightarrow> \<exists>r \<in> set rs. map_of r k = Some e"
    and dom: "\<And>r e. r \<in> set rs \<Longrightarrow> map_of r k = Some e \<Longrightarrow>
       \<exists>r' \<in> set rs'. \<exists>e'. map_of r' k = Some e' \<and> entry_seq_number e \<le> entry_seq_number e'"
  shows "lookup_runs rs' k = lookup_runs rs k"
proof (cases "lookup_runs rs k")
  case None
  then have "lookup_runs rs' k = None" using sub unfolding lookup_runs_None by fastforce
  then show ?thesis using None by simp
next
  case (Some e)
  then obtain r where r: "r \<in> set rs" "map_of r k = Some e" using lookup_runs_in by blast
  then obtain r' e' where r': "r' \<in> set rs'" "map_of r' k = Some e'" "entry_seq_number e \<le> entry_seq_number e'"
    using dom by blast
  have e': "e' = e" using sub [OF r'(1,2)] lookup_runs_newest [OF assms(1) Some] r'(3) by fastforce
  obtain f where f: "lookup_runs rs' k = Some f" using r' lookup_runs_None [of rs' k] by fastforce
  have "e = f \<or> entry_seq_number e < entry_seq_number f"
    using lookup_runs_newest [OF assms(2) f r'(1)] r'(2) e' by simp
  moreover obtain s where "s \<in> set rs" "map_of s k = Some f" using lookup_runs_in [OF f] sub by blast
  then have "f = e \<or> entry_seq_number f < entry_seq_number e" using lookup_runs_newest [OF assms(1) Some] by blast
  ultimately show ?thesis using f Some by auto
qed

definition derived_from :: "run_entries \<Rightarrow> run_entries list \<Rightarrow> bool" where
  "derived_from z rs \<longleftrightarrow> (\<forall>k e. map_of z k = Some e \<longrightarrow> (\<exists>r \<in> set rs. map_of r k = Some e))"

lemma derived_from_self: "r \<in> set rs \<Longrightarrow> derived_from r rs"
  by (auto simp: derived_from_def)

lemma newest_first_replace:
  assumes old: "newest_first (X @ R @ Y)" and new: "newest_first R'"
    and derived: "\<And>z. z \<in> set R' \<Longrightarrow> derived_from z R"
  shows "newest_first (X @ R' @ Y)"
proof -
  have 1: "newest_first X" "newest_first Y" "\<And>x y. x \<in> set X \<Longrightarrow> y \<in> set Y \<Longrightarrow> newer_run x y"
    "\<And>x r. x \<in> set X \<Longrightarrow> r \<in> set R \<Longrightarrow> newer_run x r" "\<And>r y. r \<in> set R \<Longrightarrow> y \<in> set Y \<Longrightarrow> newer_run r y"
    using old by (auto simp: sorted_wrt_append)
  have "newer_run x z" if "x \<in> set X" "z \<in> set R'" for x z
    using derived [OF that(2)] 1(4) [OF that(1)] unfolding derived_from_def newer_run_def by blast
  moreover have "newer_run z y" if "y \<in> set Y" "z \<in> set R'" for y z
    using derived [OF that(2)] 1(5) [OF _ that(1)] unfolding derived_from_def newer_run_def by blast
  ultimately show ?thesis using 1(1-3) new by (auto simp: sorted_wrt_append)
qed

section \<open>Removing positions\<close>

abbreviation without :: "nat list \<Rightarrow> 'a list \<Rightarrow> 'a list" where
  "without ps xs \<equiv> nths xs (- set ps)"

lemma list_all2_nths: "list_all2 P xs ys \<Longrightarrow> list_all2 P (nths xs A) (nths ys A)"
  by (induction xs ys arbitrary: A rule: list_all2_induct) (auto simp: nths_Cons)

lemma sorted_wrt_nths: "sorted_wrt P xs \<Longrightarrow> sorted_wrt P (nths xs A)"
  by (induction xs arbitrary: A) (auto simp: nths_Cons dest: in_set_nthsD)

lemma set_without: "set (without ps xs) = {xs ! i | i. i < length xs \<and> i \<notin> set ps}"
  by (auto simp: set_nths)

lemma map_nths: "map f (nths xs A) = nths (map f xs) A"
  by (induction xs arbitrary: A) (auto simp: nths_Cons)

lemma nths_cong:
  assumes "length xs = length ys" and "\<And>i. i < length xs \<Longrightarrow> i \<in> A \<longleftrightarrow> i \<in> B"
    and "\<And>i. i < length xs \<Longrightarrow> i \<in> A \<Longrightarrow> xs ! i = ys ! i"
  shows "nths xs A = nths ys B"
  using assms
proof (induction xs arbitrary: ys A B)
  case (Cons x xs)
  obtain y ys' where ys: "ys = y # ys'" using Cons.prems(1) by (cases ys) auto
  have "nths xs {j. Suc j \<in> A} = nths ys' {j. Suc j \<in> B}"
  proof (rule Cons.IH)
    show "length xs = length ys'" using Cons.prems(1) ys by simp
    show "i \<in> {j. Suc j \<in> A} \<longleftrightarrow> i \<in> {j. Suc j \<in> B}" if "i < length xs" for i
      using Cons.prems(2) [of "Suc i"] that by simp
    show "xs ! i = ys' ! i" if "i < length xs" "i \<in> {j. Suc j \<in> A}" for i
      using Cons.prems(3) [of "Suc i"] that ys by simp
  qed
  then show ?case using Cons.prems(2) [of 0] Cons.prems(3) [of 0] ys by (simp add: nths_Cons)
qed simp

lemma nths_filter: "nths xs {i. i < length xs \<and> Q (xs ! i)} = filter Q xs"
proof (induction xs)
  case (Cons x xs)
  then show ?case by (simp add: nths_Cons)
qed simp

lemma mark_tables_without [simp]: "without ps (mark_tables ps ts) = without ps ts"
  by (rule nths_cong) simp_all

section \<open>Replacing runs by their merge\<close>

abbreviation sorted_runs :: "run_entries list \<Rightarrow> bool" where
  "sorted_runs rs \<equiv> \<forall>r \<in> set rs. sorted_strict (map fst r)"

lemma merge_map_of:
  assumes "sorted_runs rs" and "map_of (merge_runs rs) k = Some e"
  shows "\<exists>r \<in> set rs. map_of r k = Some e"
proof -
  have "(k, e) \<in> \<Union> (set ` set rs)"
    using merge_runs_correct [OF assms(1)] map_of_SomeD [OF assms(2)] by blast
  then obtain r where r: "r \<in> set rs" "(k, e) \<in> set r" by blast
  then show ?thesis using assms(1) sorted_strict_distinct map_of_is_SomeI by metis
qed

lemma merge_dominates:
  assumes "sorted_runs rs" and "r \<in> set rs" and "map_of r k = Some e"
  shows "\<exists>e'. map_of (merge_runs rs) k = Some e' \<and> entry_seq_number e \<le> entry_seq_number e'"
proof -
  note c = merge_runs_correct [OF assms(1)]
  have "(k, e) \<in> \<Union> (set ` set rs)" using assms(2) map_of_SomeD [OF assms(3)] by blast
  then obtain e' where "(k, e') \<in> set (merge_runs rs)" "entry_seq_number e \<le> entry_seq_number e'" using c by blast
  then show ?thesis using c sorted_strict_distinct map_of_is_SomeI by metis
qed

lemma merge_range:
  assumes sorted: "sorted_runs (r # rs)" and ne: "\<forall>q \<in> set (r # rs). q \<noteq> []"
  shows "merge_runs (r # rs) \<noteq> []" "fst (hd (merge_runs (r # rs))) = hull_min (fst (hd r)) rs"
    "fst (last (merge_runs (r # rs))) = hull_max (fst (last r)) rs"
proof -
  let ?M = "merge_runs (r # rs)"
  have keys: "fst ` set ?M = fst ` \<Union> (set ` set (r # rs))" by (rule merge_runs_keys [OF sorted])
  have sM: "sorted_strict (map fst ?M)" using merge_runs_correct [OF sorted] by blast
  have in_M: "fst x \<in> fst ` set ?M" if "q \<in> set (r # rs)" "x \<in> set q" for q x
    unfolding keys using that by blast
  have "hd r \<in> set r" using ne by simp
  then show neM: "?M \<noteq> []" using in_M [of r "hd r"] by auto
  have lo: "fst (hd ?M) \<le> k" and hi: "k \<le> fst (last ?M)" if "k \<in> fst ` set ?M" for k
  proof -
    obtain e where "(k, e) \<in> set ?M" using \<open>k \<in> fst ` set ?M\<close> by (metis imageE prod.collapse)
    then have "map_of ?M k = Some e" using sM sorted_strict_distinct map_of_is_SomeI by metis
    then show "fst (hd ?M) \<le> k" "k \<le> fst (last ?M)" using run_key_bounds [OF sM] by blast+
  qed
  have bounds: "hull_min (fst (hd r)) rs \<le> k \<and> k \<le> hull_max (fst (last r)) rs" if k: "k \<in> fst ` set ?M" for k
  proof -
    from k obtain x where x: "k = fst x" "x \<in> \<Union> (set ` set (r # rs))" unfolding keys by blast
    then obtain q where "q \<in> set (r # rs)" "x \<in> set q" by blast
    then obtain e where q: "q \<in> set (r # rs)" "(k, e) \<in> set q" using x(1) by (metis prod.collapse)
    have sq: "sorted_strict (map fst q)" using sorted q(1) by blast
    then have mq: "map_of q k = Some e" using q(2) sorted_strict_distinct map_of_is_SomeI by metis
    have "hull_min (fst (hd r)) rs \<le> fst (hd q)" "fst (last q) \<le> hull_max (fst (last r)) rs"
      using q(1) hull_bounds(1) [of "fst (hd r)" rs] hull_bounds(3) [of "fst (last r)" rs]
        hull_bounds(2) [of q rs "fst (hd r)"] hull_bounds(4) [of q rs "fst (last r)"] by auto
    then show ?thesis using run_key_bounds [OF sq mq] by (meson order_trans)
  qed
  have ends: "fst (hd q) \<in> fst ` set ?M" "fst (last q) \<in> fst ` set ?M" if "q \<in> set (r # rs)" for q
    using in_M [OF that] ne that hd_in_set last_in_set by blast+
  have "hull_min (fst (hd r)) rs \<in> fst ` set ?M"
    using hull_attained(1) [of "fst (hd r)" rs] ends(1) [of r] ends(1) by force
  moreover have "hull_max (fst (last r)) rs \<in> fst ` set ?M"
    using hull_attained(2) [of "fst (last r)" rs] ends(2) [of r] ends(2) by force
  moreover have "fst (hd ?M) \<in> fst ` set ?M" "fst (last ?M) \<in> fst ` set ?M" using neM by simp_all
  ultimately show "fst (hd ?M) = hull_min (fst (hd r)) rs" "fst (last ?M) = hull_max (fst (last r)) rs"
    using lo hi bounds by (meson order_antisym)+
qed

abbreviation pairwise_apart :: "run_entries list \<Rightarrow> bool" where
  "pairwise_apart \<equiv> sorted_wrt runs_apart"

lemma pairwise_apart_nth:
  "pairwise_apart rs \<longleftrightarrow> (\<forall>i < length rs. \<forall>j < length rs. i \<noteq> j \<longrightarrow> runs_apart (rs ! i) (rs ! j))"
proof
  assume s: "pairwise_apart rs"
  show "\<forall>i < length rs. \<forall>j < length rs. i \<noteq> j \<longrightarrow> runs_apart (rs ! i) (rs ! j)"
  proof (intro allI impI)
    fix i j
    assume "i < length rs" "j < length rs" "i \<noteq> j"
    then show "runs_apart (rs ! i) (rs ! j)"
      using s runs_apart_sym [of "rs ! i"] unfolding sorted_wrt_iff_nth_less by (cases "i < j") auto
  qed
qed (simp add: sorted_wrt_iff_nth_less)

lemma insert_run_set: "set (take n xs @ x # drop n xs) = insert x (set xs)"
  by (metis Un_insert_right append_take_drop_id list.simps(15) set_append)

lemma pairwise_apart_insert:
  assumes "pairwise_apart rs" and "\<And>r. r \<in> set rs \<Longrightarrow> runs_apart m r"
  shows "pairwise_apart (take n rs @ m # drop n rs)"
proof -
  have "pairwise_apart (take n rs @ drop n rs)" using assms(1) by simp
  then have "pairwise_apart (take n rs)" "pairwise_apart (drop n rs)"
    "\<forall>x \<in> set (take n rs). \<forall>y \<in> set (drop n rs). runs_apart x y" unfolding sorted_wrt_append by blast+
  moreover have "runs_apart x m" if "x \<in> set (take n rs)" for x
    using assms(2) [OF in_set_takeD [OF that]] runs_apart_sym by blast
  moreover have "runs_apart m y" if "y \<in> set (drop n rs)" for y
    by (rule assms(2) [OF in_set_dropD [OF that]])
  ultimately show ?thesis by (simp add: sorted_wrt_append)
qed

lemma pairwise_apart_newest:
  assumes "pairwise_apart rs" and "sorted_runs rs"
  shows "newest_first (rev rs)"
  unfolding sorted_wrt_rev using assms
  by (induction rs) (auto intro: newer_run_apart simp: runs_apart_sym)

text \<open>
  A compaction takes the runs at \<open>ps\<close> from a level and those at \<open>qs\<close> from the next one, and puts their
  merge into the next level.
\<close>

lemma compaction_runs:
  fixes n :: nat
  assumes old: "newest_first (X @ rev as @ rev bs @ Y)" and sorted: "sorted_runs as" "sorted_runs bs"
    and ne: "\<forall>r \<in> set (as @ bs). r \<noteq> []"
    and ps: "ps \<noteq> []" "set ps \<subseteq> {..< length as}" and qs: "set qs \<subseteq> {..< length bs}"
    and closed: "\<And>i j. i \<in> set ps \<Longrightarrow> j < length as \<Longrightarrow> j \<notin> set ps \<Longrightarrow> runs_apart (as ! i) (as ! j)"
    and apart: "pairwise_apart bs"
  defines "M \<equiv> merge_runs (map (nth as) ps @ map (nth bs) qs)"
  assumes outside: "\<And>j. j < length bs \<Longrightarrow> j \<notin> set qs \<Longrightarrow> run_outside (fst (hd M)) (fst (last M)) (bs ! j)"
  defines "as' \<equiv> without ps as" and "bs' \<equiv> take n (without qs bs) @ M # drop n (without qs bs)"
  shows "newest_first (X @ rev as' @ rev bs' @ Y)"
    and "lookup_runs (X @ rev as' @ rev bs' @ Y) k = lookup_runs (X @ rev as @ rev bs @ Y) k"
    and "pairwise_apart bs'" and "sorted_runs (as' @ bs')" and "\<forall>r \<in> set (as' @ bs'). r \<noteq> []"
proof -
  let ?R = "map (nth as) ps @ map (nth bs) qs"
  have picked: "\<And>i. i \<in> set ps \<Longrightarrow> as ! i \<in> set as" "\<And>j. j \<in> set qs \<Longrightarrow> bs ! j \<in> set bs"
    using ps(2) qs by auto
  have sR: "sorted_runs ?R" using sorted picked by auto
  have neR: "\<forall>r \<in> set ?R. r \<noteq> []" using ne picked by (metis (no_types, opaque_lifting) Un_iff imageE set_append set_map)
  have sM: "sorted_strict (map fst M)" unfolding M_def using merge_runs_correct [OF sR] by blast
  have neM: "M \<noteq> []"
  proof -
    obtain i js where "ps = i # js" using ps(1) by (cases ps) auto
    then show ?thesis unfolding M_def using merge_range(1) [of "as ! i" "map (nth as) js @ map (nth bs) qs"] sR neR by simp
  qed
  have as': "\<And>r. r \<in> set as' \<Longrightarrow> r \<in> set as" and bs'': "\<And>r. r \<in> set (without qs bs) \<Longrightarrow> r \<in> set bs"
    by (auto simp: as'_def dest: in_set_nthsD)
  have bs': "set bs' = insert M (set (without qs bs))" unfolding bs'_def by (rule insert_run_set)
  have apM: "runs_apart M r" if "r \<in> set (without qs bs)" for r
    using outside that by (auto simp: set_without run_outside_def runs_apart_def)
  show ap': "pairwise_apart bs'"
    unfolding bs'_def by (rule pairwise_apart_insert [OF sorted_wrt_nths [OF apart]]) (rule apM)
  show s': "sorted_runs (as' @ bs')" using sorted sM as' bs'' bs' by auto
  show "\<forall>r \<in> set (as' @ bs'). r \<noteq> []" using ne neM as' bs'' bs' by auto
  have dM: "derived_from M (rev as @ rev bs)"
    using merge_map_of [OF sR, folded M_def] picked by (fastforce simp: derived_from_def)
  have derived: "derived_from z (rev as @ rev bs)" if "z \<in> set (rev as' @ rev bs')" for z
    using that as' bs'' bs' dM derived_from_self [of z "rev as @ rev bs"] by auto
  have mid: "newest_first (rev as @ rev bs)" using old by (simp add: sorted_wrt_append)
  have "newest_first (rev as')"
  proof -
    have "sorted_wrt (\<lambda>x y. newer_run y x) as" using mid by (simp add: sorted_wrt_append sorted_wrt_rev)
    then show ?thesis unfolding as'_def sorted_wrt_rev by (rule sorted_wrt_nths)
  qed
  moreover have "newest_first (rev bs')" using ap' s' by (intro pairwise_apart_newest) auto
  moreover have "newer_run a b" if ab: "a \<in> set as'" "b \<in> set bs'" for a b
  proof (cases "b \<in> set bs")
    case True
    then show ?thesis using mid as' that(1) by (auto simp: sorted_wrt_append)
  next
    case False
    then have b: "b = M" using that(2) bs' bs'' by auto
    show ?thesis unfolding newer_run_def b
    proof (intro allI impI)
      fix k x y
      assume x: "map_of a k = Some x" and y: "map_of M k = Some y"
      obtain r where r: "r \<in> set ?R" "map_of r k = Some y" using merge_map_of [OF sR] y unfolding M_def by blast
      then consider i where "i \<in> set ps" "r = as ! i" | j where "j \<in> set qs" "r = bs ! j" by auto
      then show "entry_seq_number y < entry_seq_number x"
      proof cases
        case 1
        obtain j where j: "j < length as" "j \<notin> set ps" "a = as ! j" using ab(1) by (auto simp: as'_def set_without)
        have "runs_apart r a" using closed [OF 1(1) j(1,2)] 1(2) j(3) by simp
        then have "map_of a k = None"
          using runs_apart_map_of [of r a k y] r(2) sorted(1) picked(1) [OF 1(1)] 1(2) as' [OF that(1)] by blast
        then show ?thesis using x by simp
      next
        case 2
        then have "newer_run a r" using mid as' [OF that(1)] picked(2) by (auto simp: sorted_wrt_append)
        then show ?thesis using newer_runD x r(2) by blast
      qed
    qed
  qed
  ultimately have new: "newest_first (rev as' @ rev bs')" by (auto simp: sorted_wrt_append)
  show first: "newest_first (X @ rev as' @ rev bs' @ Y)"
    using newest_first_replace [of X "rev as @ rev bs" Y "rev as' @ rev bs'"] old new derived by simp
  show "lookup_runs (X @ rev as' @ rev bs' @ Y) k = lookup_runs (X @ rev as @ rev bs @ Y) k"
  proof (rule lookup_runs_eqI [OF old first])
    show "\<exists>r \<in> set (X @ rev as @ rev bs @ Y). map_of r k = Some e"
      if z: "z \<in> set (X @ rev as' @ rev bs' @ Y)" "map_of z k = Some e" for z e
    proof (cases "z \<in> set (rev as' @ rev bs')")
      case True
      then show ?thesis using derived [OF True] z(2) unfolding derived_from_def by fastforce
    next
      case False
      then show ?thesis using z by auto
    qed
    show "\<exists>r' \<in> set (X @ rev as' @ rev bs' @ Y). \<exists>e'. map_of r' k = Some e' \<and> entry_seq_number e \<le> entry_seq_number e'"
      if z: "z \<in> set (X @ rev as @ rev bs @ Y)" "map_of z k = Some e" for z e
    proof -
      consider "z \<in> set X \<union> set Y" | "z \<in> set as'" | "z \<in> set (without qs bs)" | "z \<in> set ?R"
        using z(1) by (fastforce simp: as'_def set_without in_set_conv_nth)
      then show ?thesis
      proof cases
        case 4
        then obtain e' where "map_of M k = Some e'" "entry_seq_number e \<le> entry_seq_number e'"
          using merge_dominates [OF sR 4 z(2)] unfolding M_def by blast
        then show ?thesis using bs' by auto
      qed (use z(2) bs' in \<open>auto intro!: bexI [of _ z]\<close>)
    qed
  qed
qed

end
