(* ===== verification/Lsm_DbInvariant.thy ===== *)
theory Lsm_DbInvariant
  imports Lsm_Logic Lsm_Runs Lsm_WalReader
begin

text \<open>
  The invariant of the database: every level holds sorted runs that the manifest lists, the runs are
  ordered from the newest to the oldest, and the log is idle. The lemmas show that every operation of
  \<open>Lsm_Logic\<close> returns, keeps the invariant and does to the contents what it should.

  Identifiers, sequence numbers and positions in the log are bounded numbers, and the files of a table
  have to stay below four gigabytes; the invariant counts for how many more operations and for writes of
  which weight they suffice.
\<close>

section \<open>Replaying writes\<close>

text \<open>
  The memtables of the database are what the log replays: the immutable one holds the writes up to its
  position in the log, the current one the writes after it.
\<close>

definition replay :: "u64 \<Rightarrow> write_op list \<Rightarrow> memtable result" where
  "replay seq ops = fold_result memtable_apply (memtable_new seq) ops"

definition op_weight :: "write_op \<Rightarrow> nat" where
  "op_weight op = entry_weight (write_op_key op, op_entry 0 op)"

definition ops_weight :: "write_op list \<Rightarrow> nat" where
  "ops_weight ops = sum_list (map op_weight ops)"

lemma ops_weight_simps [simp]:
  "ops_weight [] = 0" "ops_weight (op # ops) = op_weight op + ops_weight ops"
  "ops_weight (ops @ ops') = ops_weight ops + ops_weight ops'"
  by (simp_all add: ops_weight_def)

lemma op_entry_weight: "entry_weight (write_op_key op, op_entry seq op) = op_weight op"
  by (cases op) (simp_all add: op_weight_def entry_weight_def)

lemma length_le_weight: "length ops \<le> ops_weight ops"
  by (induction ops) (simp_all add: op_weight_def entry_weight_def)

lemma log_bytes_weight: "length (log_bytes ops) \<le> ops_weight ops"
proof (induction ops)
  case (Cons op ops)
  have "length (encode_entry (Write op)) \<le> op_weight op"
    by (cases op) (simp_all add: encode_entry_length op_weight_def entry_weight_def write_op_key_length_def del: encode_entry.simps)
  then show ?case using Cons by (simp del: encode_entry.simps)
qed simp

lemma table_weight_set:
  assumes "sorted_strict (map fst es)"
  shows "table_weight es = (\<Sum>x \<in> set es. entry_weight x)"
  using sorted_strict_distinct [OF assms] by (simp add: table_weight_def distinct_map sum_list_distinct_conv_sum_set)

text \<open>A write adds one entry, and may replace one.\<close>

lemma memtable_apply_entries:
  assumes ok: "mt_ok m" and m': "memtable_apply m op = Inr m'"
  shows "mt_ok m'" "unat (next_seq_number m') = Suc (unat (next_seq_number m))"
    "set (entries m') \<subseteq> insert (write_op_key op, op_entry (next_seq_number m) op) (set (entries m))"
    "entries m' \<noteq> []" "memtable_get m' = (memtable_get m)(write_op_key op \<mapsto> op_entry (next_seq_number m) op)"
proof -
  have lt: "unat (next_seq_number m) < 2 ^ 64 - 1"
  proof (rule ccontr)
    assume "\<not> ?thesis"
    then have "u64_inc (next_seq_number m) = Inl (Panic ''attempt to add with overflow'')"
      using unat_max_word_iff [of "next_seq_number m"] unat_u64_less [of "next_seq_number m"] by (simp add: u64_inc_def)
    then show False
      using m' get_key_pos_ok [OF ok, of "write_op_key op"]
      by (cases op) (auto simp: memtable_apply_def memtable_put_def memtable_delete_def vec_insert_def key_split_def result_simps split: if_splits)
  qed
  have step: "mt_ok m'" "next_seq_number m' = next_seq_number m + 1"
      "memtable_get m' = (memtable_get m)(write_op_key op \<mapsto> op_entry (next_seq_number m) op)"
    using mt.apply_ok [OF ok lt, of op] m' by auto
  show "mt_ok m'" "memtable_get m' = (memtable_get m)(write_op_key op \<mapsto> op_entry (next_seq_number m) op)" by fact+
  show "unat (next_seq_number m') = Suc (unat (next_seq_number m))"
    using unat_succ_u64 [OF lt] step(2) by simp
  have map: "map_of (entries m') = (map_of (entries m))(write_op_key op \<mapsto> op_entry (next_seq_number m) op)"
    using step(3) memtable_get_eq [OF ok] memtable_get_eq [OF step(1)] by (simp add: mt_map_def fun_eq_iff)
  show "set (entries m') \<subseteq> insert (write_op_key op, op_entry (next_seq_number m) op) (set (entries m))"
  proof
    fix x assume "x \<in> set (entries m')"
    then have "map_of (entries m') (fst x) = Some (snd x)"
      using sorted_strict_distinct [OF mt_okD(1) [OF step(1)]] by simp
    then show "x \<in> insert (write_op_key op, op_entry (next_seq_number m) op) (set (entries m))"
      using map map_of_SomeD [of "entries m" "fst x" "snd x"] by (cases x) (auto split: if_splits)
  qed
  show "entries m' \<noteq> []" using fun_cong [OF map, of "write_op_key op"] by auto
qed

lemma memtable_fold_entries:
  assumes "mt_ok m" and "fold_result memtable_apply m ops = Inr m'"
  shows "mt_ok m' \<and> unat (next_seq_number m') = unat (next_seq_number m) + length ops \<and>
    (\<forall>x \<in> set (entries m'). x \<in> set (entries m) \<or> next_seq_number m \<le> entry_seq_number (snd x)) \<and>
    table_weight (entries m') \<le> table_weight (entries m) + ops_weight ops \<and>
    (entries m' = [] \<longrightarrow> ops = [] \<and> entries m = [])"
  using assms
proof (induction ops arbitrary: m)
  case (Cons op ops)
  then obtain m1 where m1: "memtable_apply m op = Inr m1" and m': "fold_result memtable_apply m1 ops = Inr m'"
    by (auto simp: result_simps split: sum.splits)
  note s = memtable_apply_entries [OF Cons.prems(1) m1]
  note IH = Cons.IH [OF s(1) m']
  let ?x = "(write_op_key op, op_entry (next_seq_number m) op)"
  have "table_weight (entries m1) \<le> (\<Sum>x \<in> insert ?x (set (entries m)). entry_weight x)"
    using s(3) by (simp add: table_weight_set [OF mt_okD(1) [OF s(1)]] sum_mono2)
  also have "\<dots> \<le> op_weight op + table_weight (entries m)"
    by (simp add: table_weight_set [OF mt_okD(1) [OF Cons.prems(1)]] sum.insert_if op_entry_weight)
  finally have w: "table_weight (entries m1) \<le> op_weight op + table_weight (entries m)" .
  have le: "next_seq_number m \<le> next_seq_number m1" using s(2) by (simp add: word_le_nat_alt)
  have old: "x \<in> set (entries m) \<or> next_seq_number m \<le> entry_seq_number (snd x)" if "x \<in> set (entries m1)" for x
    using that s(3) by (cases op) auto
  show ?case using IH w s(2,4) le old by (auto intro: order_trans)
qed simp

lemma replayD:
  assumes "replay seq ops = Inr m"
  shows "mt_ok m" "unat (next_seq_number m) = unat seq + length ops" "table_weight (entries m) \<le> ops_weight ops"
    "ops \<noteq> [] \<Longrightarrow> entries m \<noteq> []" "\<And>x. x \<in> set (entries m) \<Longrightarrow> seq \<le> entry_seq_number (snd x)"
  using memtable_fold_entries [OF mt_ok_new assms [unfolded replay_def]] by (auto simp: memtable_new_def)

lemma replay_append:
  "replay seq (ops @ ops') = bind_result (replay seq ops) (\<lambda>m. fold_result memtable_apply m ops')"
  by (simp add: replay_def fold_result_append)

section \<open>The invariant\<close>

text \<open>
  The runs of each level, the metadata of the manifest, its table sets, the log, and the writes it holds
  for the immutable and for the current memtable.
\<close>

record ghost =
  g_runs :: "run_entries list list"
  g_meta :: database_metadata
  g_ids :: "nat \<Rightarrow> u64 set"
  g_start :: nat
  g_stream :: bytes
  g_imm_ops :: "write_op list"
  g_mem_ops :: "write_op list"

text \<open>A table of a level can be loaded again from its file.\<close>

definition table_stored :: "('c, 'bf) config \<Rightarrow> fs \<Rightarrow> sorted_table \<Rightarrow> bool" where
  "table_stored cf fs t \<longleftrightarrow>
     (\<exists>n. table_load cf fs (tbl_identifier t) =
        Inr \<lparr> tbl_identifier = tbl_identifier t, tbl_index = tbl_index t, compaction_flag = False, allowed_seeks = n \<rparr>)"

definition level_ok :: "('c, 'bf) config \<Rightarrow> fs \<Rightarrow> nat \<Rightarrow> level \<Rightarrow> run_entries list \<Rightarrow> u64 set \<Rightarrow> bool" where
  "level_ok cf fs i lv rs S \<longleftrightarrow>
     lv_holds cf fs lv rs \<and> lv_index lv = of_nat i \<and> (\<forall>t \<in> set (lv_tables lv). \<not> compaction_flag t) \<and>
     table_placeholders lv = [] \<and> distinct (map tbl_identifier (lv_tables lv)) \<and>
     S = set (map tbl_identifier (lv_tables lv)) \<and> (\<forall>t \<in> set (lv_tables lv). table_stored cf fs t) \<and>
     (if i = 0 then sorted (map tbl_identifier (lv_tables lv)) else pairwise_apart rs)"

definition levels_ok :: "('c, 'bf) config \<Rightarrow> fs \<Rightarrow> level list \<Rightarrow> run_entries list list \<Rightarrow> (nat \<Rightarrow> u64 set) \<Rightarrow> bool" where
  "levels_ok cf fs lvs rss T \<longleftrightarrow>
     length lvs = num_levels (cf_params cf) \<and> length rss = length lvs \<and> lvs \<noteq> [] \<and> length lvs \<le> 15 \<and>
     (\<forall>i < length lvs. level_ok cf fs i (lvs ! i) (rss ! i) (T i))"

definition ids_ok :: "params \<Rightarrow> database_metadata \<Rightarrow> (nat \<Rightarrow> u64 set) \<Rightarrow> bool" where
  "ids_ok p m T \<longleftrightarrow>
     0 < next_table_id m \<and>
     (\<forall>i < num_levels p. \<forall>t \<in> T i. t \<noteq> 0 \<and> t < next_table_id m) \<and>
     (\<forall>i < num_levels p. \<forall>j < num_levels p. i \<noteq> j \<longrightarrow> T i \<inter> T j = {})"

definition db_runs :: "'c db \<Rightarrow> ghost \<Rightarrow> run_entries list" where
  "db_runs db g =
     entries (db_memtable db) # map (entries \<circ> snd) (rev (imm_memtables db)) @ concat (map rev (g_runs g))"

definition db_contents :: "'c db \<Rightarrow> ghost \<Rightarrow> key \<rightharpoonup> val" where
  "db_contents db g = visible (lookup_runs (db_runs db g))"

definition total_weight :: "run_entries list \<Rightarrow> nat" where
  "total_weight rs = sum_list (map table_weight rs)"

definition imm_ok :: "(u64 \<times> memtable) list \<Rightarrow> ghost \<Rightarrow> bool" where
  "imm_ok imms g \<longleftrightarrow>
     (if g_imm_ops g = [] then imms = []
      else \<exists>offset imm. imms = [(offset, imm)] \<and> replay (seq_number_offset (g_meta g)) (g_imm_ops g) = Inr imm \<and>
             unat offset = g_start g + length (log_bytes (g_imm_ops g)))"

definition mem_ok :: "memtable \<Rightarrow> ghost \<Rightarrow> bool" where
  "mem_ok mem g \<longleftrightarrow>
     replay (seq_number_offset (g_meta g) + of_nat (length (g_imm_ops g))) (g_mem_ops g) = Inr mem \<and>
     unat (seq_number_offset (g_meta g)) + length (g_imm_ops g) + length (g_mem_ops g) < 2 ^ 64 \<and>
     (\<forall>rs \<in> set (g_runs g). \<forall>r \<in> set rs. \<forall>x \<in> set r. entry_seq_number (snd x) < seq_number_offset (g_meta g))"

definition log_ok :: "params \<Rightarrow> io_mode \<Rightarrow> fs \<Rightarrow> wal_log \<Rightarrow> ghost \<Rightarrow> bool" where
  "log_ok p mode fs wal g \<longleftrightarrow>
     log_idle p mode fs wal (g_start g) (g_stream g) \<and>
     log_offset (g_meta g) = of_nat (g_start g) \<and>
     drop (g_start g) (g_stream g) = log_bytes (g_imm_ops g @ g_mem_ops g)"

text \<open>What \<open>n\<close> more operations, and writes of weight \<open>w\<close>, may use up.\<close>

definition budget :: "nat \<Rightarrow> nat \<Rightarrow> 'c db \<Rightarrow> ghost \<Rightarrow> bool" where
  "budget n w db g \<longleftrightarrow>
     unat (next_data_block_id (g_meta g)) + n * 2 ^ 33 < 2 ^ 64 - 1 \<and>
     unat (next_table_id (g_meta g)) + n < 2 ^ 64 - 1 \<and>
     unat (next_seq_number (db_memtable db)) + w < 2 ^ 64 \<and>
     length (g_stream g) + w < 2 ^ 64 \<and>
     total_weight (db_runs db g) + w + 100 < 2 ^ 32"

definition db_ok :: "('c, 'bf) config \<Rightarrow> io_mode \<Rightarrow> nat \<Rightarrow> nat \<Rightarrow> 'c db \<Rightarrow> ghost \<Rightarrow> bool" where
  "db_ok cf mode n w db g \<longleftrightarrow>
     seeks_fit (cf_params cf) \<and> 0 < max_memtable_size (cf_params cf) \<and> store_ok cf (db_store db) (g_meta g) (g_ids g) \<and>
     levels_ok cf (db_fs db) (db_levels db) (g_runs g) (g_ids g) \<and> ids_ok (cf_params cf) (g_meta g) (g_ids g) \<and>
     mem_ok (db_memtable db) g \<and> imm_ok (imm_memtables db) g \<and> newest_first (db_runs db g) \<and>
     log_ok (cf_params cf) mode (db_fs db) (db_wal db) g \<and> budget n w db g \<and> db_logger db = None"

lemma db_okD:
  assumes "db_ok cf mode n w db g"
  shows "seeks_fit (cf_params cf)" "store_ok cf (db_store db) (g_meta g) (g_ids g)"
    "levels_ok cf (db_fs db) (db_levels db) (g_runs g) (g_ids g)" "ids_ok (cf_params cf) (g_meta g) (g_ids g)"
    "mem_ok (db_memtable db) g" "imm_ok (imm_memtables db) g" "newest_first (db_runs db g)"
    "log_ok (cf_params cf) mode (db_fs db) (db_wal db) g" "budget n w db g" "db_logger db = None"
    "0 < max_memtable_size (cf_params cf)"
  using assms by (simp_all add: db_ok_def)

lemma levels_okD:
  assumes "levels_ok cf fs lvs rss T"
  shows "length lvs = num_levels (cf_params cf)" "length rss = length lvs" "lvs \<noteq> []" "length lvs \<le> 15"
    "\<And>i. i < length lvs \<Longrightarrow> level_ok cf fs i (lvs ! i) (rss ! i) (T i)"
  using assms by (auto simp: levels_ok_def)

lemma level_okD:
  assumes "level_ok cf fs i lv rs S"
  shows "list_all2 (table_holds cf fs) (lv_tables lv) rs" "lv_index lv = of_nat i"
    "\<forall>t \<in> set (lv_tables lv). \<not> compaction_flag t" "table_placeholders lv = []"
    "distinct (map tbl_identifier (lv_tables lv))" "S = set (map tbl_identifier (lv_tables lv))"
    "0 < i \<Longrightarrow> pairwise_apart rs" "i = 0 \<Longrightarrow> sorted (map tbl_identifier (lv_tables lv))"
    "\<forall>t \<in> set (lv_tables lv). table_stored cf fs t"
  using assms by (simp_all add: level_ok_def lv_holds_def)

section \<open>Lookups\<close>

lemma same_level_ok:
  assumes "same_level lv lv'" and "level_ok cf fs i lv rs S"
  shows "level_ok cf fs i lv' rs S"
proof -
  have st: "same_tables (lv_tables lv) (lv_tables lv')" and lv': "lv_index lv' = lv_index lv"
    "table_placeholders lv' = table_placeholders lv"
    using assms(1) unfolding same_level_def by (metis level.select_convs level.surjective level.update_convs(4,5))+
  have "map tbl_identifier (lv_tables lv') = map tbl_identifier (lv_tables lv)"
    using st by (auto simp: same_tables_def list_all2_conv_all_nth intro: nth_equalityI)
  moreover have "\<forall>t \<in> set (lv_tables lv'). \<not> compaction_flag t"
    using st level_okD(3) [OF assms(2)]
    by (auto simp: same_tables_def list_all2_conv_all_nth in_set_conv_nth all_set_conv_all_nth)
  moreover have "\<forall>t \<in> set (lv_tables lv'). table_stored cf fs t"
    using st level_okD(9) [OF assms(2)]
    by (auto simp: same_tables_def list_all2_conv_all_nth table_stored_def all_set_conv_all_nth)
  ultimately show ?thesis
    using assms(2) same_tables_holds [OF st, of cf fs rs] lv' by (simp add: level_ok_def lv_holds_def)
qed

lemma levels_get_ok:
  assumes "coherent cf s" and laws: "lru_laws (cf_lru cf)" and "list_all2 (lv_holds cf (st_fs s)) lvs rss"
  shows "\<exists>s' lvs' b r. levels_get cf k s lvs triggered = Some (Inr (s', lvs', b, r)) \<and> st_fs s' = st_fs s \<and>
     coherent cf s' \<and> list_all2 same_level lvs lvs' \<and>
     rel_option entry_denotes r (lookup_runs (concat (map rev rss)) k)"
  using assms(1,3)
proof (induction lvs arbitrary: s rss triggered)
  case (Cons lv lvs)
  then obtain rs rss' where rss: "rss = rs # rss'" "lv_holds cf (st_fs s) lv rs" "list_all2 (lv_holds cf (st_fs s)) lvs rss'"
    by (auto simp: list_all2_Cons1)
  obtain s1 lv1 b r where 1: "level_get cf s lv k = Some (Inr (s1, lv1, b, r))" "st_fs s1 = st_fs s" "coherent cf s1"
      "same_level lv lv1" "rel_option entry_denotes r (lookup_runs (rev rs) k)"
    using level_get_ok [OF Cons.prems(1) laws rss(2)] by blast
  have refl: "list_all2 same_level lvs lvs" by (simp add: list_all2_same same_level_def)
  show ?case
  proof (cases r)
    case (Some e)
    then have "rel_option entry_denotes r (lookup_runs (concat (map rev rss)) k)"
      using 1(5) rss(1) by (auto simp: lookup_runs_append option_rel_Some1)
    then show ?thesis using 1 Some refl by auto
  next
    case None
    then have "lookup_runs (rev rs) k = None" using 1(5) by simp
    moreover obtain s2 lvs2 b2 r2 where "levels_get cf k s1 lvs (b \<or> triggered) = Some (Inr (s2, lvs2, b2, r2))"
        "st_fs s2 = st_fs s1" "coherent cf s2" "list_all2 same_level lvs lvs2"
        "rel_option entry_denotes r2 (lookup_runs (concat (map rev rss')) k)"
      using Cons.IH [OF 1(3), of rss' "b \<or> triggered"] rss(3) 1(2) by auto
    ultimately show ?thesis using 1 None rss(1) by (auto simp: lookup_runs_append)
  qed
qed simp

lemma imm_get_lookup:
  assumes "\<forall>x \<in> set xs. mt_ok (snd x)"
  shows "imm_get xs k = lookup_runs (map (entries \<circ> snd) xs) k"
  using assms by (induction xs) (auto simp: memtable_get_eq mt_map_def split: option.splits)

lemma imm_okD: "imm_ok imms g \<Longrightarrow> \<forall>x \<in> set imms. mt_ok (snd x)"
  using replayD(1) by (auto simp: imm_ok_def split: if_splits)

lemma store_ok_coherent:
  assumes "store_ok cf s m T" and "coherent cf s'" and "st_fs s' = st_fs s"
  shows "store_ok cf s' m T"
  using assms by (simp add: store_ok_def)

text \<open>Changing the caches and the seek counters of the tables changes nothing else.\<close>

lemma db_ok_touch:
  assumes ok: "db_ok cf mode n w db g" and s: "coherent cf s'" "st_fs s' = db_fs db"
    and lvs: "list_all2 same_level (db_levels db) lvs'"
  defines "db' \<equiv> db\<lparr> db_store := s', db_levels := lvs' \<rparr>"
  shows "db_ok cf mode n w db' g" "db_runs db' g = db_runs db g"
proof -
  note D = db_okD [OF ok]
  show runs: "db_runs db' g = db_runs db g" by (simp add: db_runs_def db'_def)
  have len: "length lvs' = length (db_levels db)" using lvs by (simp add: list_all2_lengthD)
  have "level_ok cf (db_fs db) i (lvs' ! i) (g_runs g ! i) (g_ids g i)" if "i < length lvs'" for i
    using that len list_all2_nthD [OF lvs] by (auto intro: same_level_ok levels_okD(5) [OF D(3)])
  then have "levels_ok cf (db_fs db) lvs' (g_runs g) (g_ids g)"
    using D(3) len by (auto simp: levels_ok_def)
  then show "db_ok cf mode n w db' g"
    using D runs store_ok_coherent [OF D(2) s] s(2)
    by (simp add: db_ok_def budget_def db'_def)
qed

lemma levels_ok_holds:
  assumes "levels_ok cf fs lvs rss T"
  shows "list_all2 (lv_holds cf fs) lvs rss"
  using levels_okD(2,5) [OF assms] by (auto simp: list_all2_conv_all_nth level_ok_def)

text \<open>What a reference to an entry stands for.\<close>

definition ref_denotes :: "'bf entry_ref option \<Rightarrow> val option \<Rightarrow> bool" where
  "ref_denotes r v \<longleftrightarrow> rel_option (\<lambda>ref v. entry_ref_get_value ref = Inr v) r v"

lemma memtable_ref_denotes: "ref_denotes (memtable_ref e) (entry_value e)"
  by (cases e) (simp_all add: ref_denotes_def memtable_ref_def)

lemma db_get_ok:
  assumes ok: "db_ok cf mode n w db g"
  shows "\<exists>db' b r. db_get cf db k = Some (Inr (db', b, r)) \<and> db_ok cf mode n w db' g \<and>
     db_runs db' g = db_runs db g \<and> ref_denotes r (db_contents db g k)"
proof -
  note D = db_okD [OF ok]
  have mem: "memtable_get (db_memtable db) k = map_of (entries (db_memtable db)) k"
    using D(5) replayD(1) by (auto simp: mem_ok_def memtable_get_eq mt_map_def)
  have imm: "imm_get (rev (imm_memtables db)) k = lookup_runs (map (entries \<circ> snd) (rev (imm_memtables db))) k"
    using imm_okD [OF D(6)] by (intro imm_get_lookup) simp
  show ?thesis
  proof (cases "memtable_get (db_memtable db) k")
    case (Some e)
    then have "db_contents db g k = entry_value e"
      using mem by (simp add: db_contents_def visible_def db_runs_def)
    then show ?thesis using Some ok memtable_ref_denotes [of e] by (auto simp: db_get_def)
  next
    case None
    note memN = None
    show ?thesis
    proof (cases "imm_get (rev (imm_memtables db)) k")
      case (Some e)
      then have "db_contents db g k = entry_value e"
        using memN mem imm by (simp add: db_contents_def visible_def db_runs_def lookup_runs_append)
      then show ?thesis using memN Some ok memtable_ref_denotes [of e] by (auto simp: db_get_def)
    next
      case None
      obtain s' lvs' b r where get: "levels_get cf k (db_store db) (db_levels db) False = Some (Inr (s', lvs', b, r))"
          and s': "st_fs s' = db_fs db" "coherent cf s'" and lvs': "list_all2 same_level (db_levels db) lvs'"
          and r: "rel_option entry_denotes r (lookup_runs (concat (map rev (g_runs g))) k)"
        using levels_get_ok [OF store_okD(2,3) [OF D(2)] levels_ok_holds [OF D(3)]] by blast
      note touch = db_ok_touch [OF ok s'(2,1) lvs']
      have look: "db_contents db g k = Option.bind (lookup_runs (concat (map rev (g_runs g))) k) entry_value"
        using memN mem imm None by (simp add: db_contents_def visible_def db_runs_def lookup_runs_append)
      show ?thesis
      proof (cases r)
        case N: None
        then have "lookup_runs (concat (map rev (g_runs g))) k = None" using r by simp
        then have "ref_denotes None (db_contents db g k)" by (simp add: look ref_denotes_def)
        then show ?thesis using memN None get N touch by (auto simp: db_get_def)
      next
        case (Some entry)
        then obtain e where e: "lookup_runs (concat (map rev (g_runs g))) k = Some e" "entry_denotes entry e"
          using r by (auto simp: option_rel_Some1)
        let ?r = "case entry_type_of e of PutEntry \<Rightarrow> Some (SortedTableEntry entry) | DeleteEntry \<Rightarrow> None"
        have "ref_denotes ?r (db_contents db g k)"
          using e by (cases e) (simp_all add: look ref_denotes_def entry_denotes_def)
        moreover have "get_type entry = Inr (entry_type_of e)" using e(2) by (simp add: entry_denotes_def)
        ultimately show ?thesis using memN None get Some touch by (auto simp: db_get_def)
      qed
    qed
  qed
qed

end
