(* ===== verification/Lsm_DbWrite.thy ===== *)
theory Lsm_DbWrite
  imports Lsm_DbInvariant
begin

text \<open>
  Writes and the compaction of memtables keep the invariant: a memtable compaction moves a run from
  memory to the first level and changes no lookup, and a write adds its operations to the contents.
\<close>

section \<open>Frames\<close>

text \<open>An operation that builds the table \<open>tid\<close> leaves the blocks and all other index files alone.\<close>

definition tables_kept :: "params \<Rightarrow> u64 \<Rightarrow> fs \<Rightarrow> fs \<Rightarrow> bool" where
  "tables_kept p tid fs fs' \<longleftrightarrow>
     blocks_kept p fs fs' \<and> (\<forall>i. i \<noteq> tid \<longrightarrow> fs' (index_block_path p i) = fs (index_block_path p i))"

lemma tables_kept_trans: "tables_kept p tid fs fs1 \<Longrightarrow> tables_kept p tid fs1 fs2 \<Longrightarrow> tables_kept p tid fs fs2"
  using blocks_kept_trans by (simp add: tables_kept_def) blast

lemma tables_kept_frames:
  "only_table p tid fs fs' \<Longrightarrow> tables_kept p tid fs fs'"
  "tables_kept p tid fs (store_meta p fs m)"
  "(\<And>q. (\<forall>i. q \<noteq> level_path p i) \<Longrightarrow> fs' q = fs q) \<Longrightarrow> tables_kept p tid fs fs'"
  "log_frame p fs fs' \<Longrightarrow> tables_kept p tid fs fs'"
  by (auto simp: tables_kept_def only_table_def blocks_kept_def store_meta_def log_frame_def)

lemma table_stored_kept:
  assumes "tables_kept (cf_params cf) tid fs fs'" and "table_stored cf fs t" and "tbl_identifier t \<noteq> tid"
  shows "table_stored cf fs' t"
  using assms by (simp add: tables_kept_def table_stored_def table_load_def index_block_load_def disk_read_def read_uncompressed_def)

lemma level_ok_kept:
  assumes kept: "tables_kept (cf_params cf) tid fs fs'" and ok: "level_ok cf fs i lv rs S" and tid: "tid \<notin> S"
  shows "level_ok cf fs' i lv rs S"
proof -
  have "list_all2 (table_holds cf fs') (lv_tables lv) rs"
    using level_okD(1) [OF ok] by (rule list_all2_mono) (use kept in \<open>auto simp: tables_kept_def intro: table_holds_kept\<close>)
  moreover have "\<forall>t \<in> set (lv_tables lv). table_stored cf fs' t"
    using level_okD(6,9) [OF ok] tid table_stored_kept [OF kept] by auto
  ultimately show ?thesis using ok by (simp add: level_ok_def lv_holds_def)
qed

lemma levels_ok_kept:
  assumes "tables_kept (cf_params cf) tid fs fs'" and ok: "levels_ok cf fs lvs rss T" and tid: "\<forall>i < num_levels (cf_params cf). tid \<notin> T i"
  shows "levels_ok cf fs' lvs rss T"
proof -
  have "level_ok cf fs' i (lvs ! i) (rss ! i) (T i)" if "i < length lvs" for i
    using level_ok_kept [OF assms(1) levels_okD(5) [OF ok that]] tid that levels_okD(1) [OF ok] by simp
  then show ?thesis using ok by (simp add: levels_ok_def)
qed

lemma log_ok_length:
  assumes "log_ok p mode fs wal g"
  shows "length (g_stream g) = g_start g + length (log_bytes (g_imm_ops g @ g_mem_ops g))"
proof -
  have "length (drop (g_start g) (g_stream g)) = length (log_bytes (g_imm_ops g @ g_mem_ops g))"
    using assms by (simp add: log_ok_def)
  moreover have "g_start g \<le> length (g_stream g)" using assms log_idleD(3) unfolding log_ok_def by blast
  ultimately show ?thesis by simp
qed

lemma log_ok_frame:
  assumes "log_ok p mode fs wal g" and "\<And>i. fs' (wal_file_path p i) = fs (wal_file_path p i)"
  shows "log_ok p mode fs' wal g"
  using assms log_idle_frame by (auto simp: log_ok_def)

section \<open>Compaction of a memtable\<close>

text \<open>Adding a table to the first level.\<close>

lemma level_ok_add:
  assumes ok: "level_ok cf fs 0 lv rs S" and t: "table_holds cf fs t es" "table_stored cf fs t" "\<not> compaction_flag t"
    and new: "\<forall>i \<in> S. i < tbl_identifier t"
  shows "level_ok cf fs 0 (lv\<lparr> lv_tables := lv_tables lv @ [t] \<rparr>) (rs @ [es]) (insert (tbl_identifier t) S)"
proof -
  note D = level_okD [OF ok]
  have "sorted (map tbl_identifier (lv_tables lv @ [t]))" "distinct (map tbl_identifier (lv_tables lv @ [t]))"
    using D(5,6,8) new by (auto simp: sorted_append intro: less_imp_le)
  moreover have "list_all2 (table_holds cf fs) (lv_tables lv @ [t]) (rs @ [es])"
    using D(1) t(1) by (simp add: list_all2_appendI)
  ultimately show ?thesis using ok t new by (auto simp: level_ok_def lv_holds_def)
qed

lemma table_entries_le_weight: "length es \<le> table_weight es"
  by (induction es) (simp_all add: entry_weight_def)

lemma total_weight_member: "r \<in> set rs \<Longrightarrow> table_weight r \<le> total_weight rs"
  by (simp add: total_weight_def member_le_sum_list)

text \<open>
  The part of the compaction that changes the manifest and the log: the next sequence number, the table
  set, the log and its offset.
\<close>

lemma retire_ok:
  assumes ok: "store_ok cf s m T" and seq: "seq_number_offset m < seq"
    and tid: "\<forall>i < num_levels (cf_params cf). tid \<notin> T i" "tid \<noteq> 0" and lv: "0 < num_levels (cf_params cf)"
    and log: "log_idle (cf_params cf) mode (st_fs s) wal start stream" "log_offset m = of_nat start"
    and off: "start < unat offset" "unat offset \<le> length stream"
  defines "p \<equiv> cf_params cf" and "T' \<equiv> T(0 := insert tid (T 0))"
    and "m' \<equiv> m\<lparr> seq_number_offset := seq, log_offset := offset \<rparr>"
  shows "\<exists>fs1 fs2 fs3 wal' fs4. set_seq_number_offset False p (st_fs s) seq = Inr fs1 \<and>
     update_table_set p fs1 [(0, tid)] [] = Inr fs2 \<and> wal_flush p mode fs2 wal offset = Some (Inr (fs3, wal')) \<and>
     set_log_offset False p fs3 offset = Inr fs4 \<and> store_ok cf (s\<lparr> st_fs := fs4 \<rparr>) m' T' \<and>
     (\<forall>i. tables_kept p i (st_fs s) fs4) \<and> log_idle p mode fs4 wal' (unat offset) stream"
proof -
  define m1 where "m1 = m\<lparr> seq_number_offset := seq \<rparr>"
  define fs1 where "fs1 = store_meta p (st_fs s) m1"
  note man = store_okD(4) [OF ok, folded p_def]
  have 1: "set_seq_number_offset False p (st_fs s) seq = Inr fs1" "manifest_ok False p fs1 m1 T"
    using set_seq_number_offset_ok [OF man seq] by (simp_all add: fs1_def m1_def)
  obtain fs2 where 2: "update_table_set p fs1 [(0, tid)] [] = Inr fs2"
      "manifest_ok False p fs2 m1 (\<lambda>i. T i \<union> ids_on [(0, tid)] i - ids_on [] i)"
      "\<And>q. (\<forall>i. q \<noteq> level_path p i) \<Longrightarrow> fs2 q = fs1 q"
    using update_table_set_ok [OF 1(2), of "[(0, tid)]" "[]"] tid lv by (auto simp: p_def)
  have T': "(\<lambda>i. T i \<union> ids_on [(0, tid)] i - ids_on [] i) = T'" by (auto simp: T'_def fun_eq_iff)
  have "log_idle p mode fs2 wal start stream"
    using log(1) log_idle_frame 2(3) by (auto simp: fs1_def store_meta_def p_def)
  then obtain fs3 wal' where 3: "wal_flush p mode fs2 wal offset = Some (Inr (fs3, wal'))"
      "log_idle p mode fs3 wal' (unat offset) stream" "log_frame p fs2 fs3"
    using wal_flush_ok off by blast
  have man3: "manifest_ok False p fs3 m1 T'"
    using 2(2) 3(3) unfolding T' by (simp add: manifest_ok_def log_frame_def)
  have "log_offset m1 < offset"
    using log(2) off(1) unat_u64_less [of offset] by (simp add: m1_def word_less_nat_alt unat_of_nat)
  note 4 = set_log_offset_ok [OF man3 this]
  define fs4 where "fs4 = store_meta p fs3 (m1\<lparr> log_offset := offset \<rparr>)"
  have m': "m1\<lparr> log_offset := offset \<rparr> = m'" by (simp add: m1_def m'_def)
  have kept: "tables_kept p i (st_fs s) fs4" for i
    using tables_kept_frames(2) [of p i "st_fs s" m1, folded fs1_def] tables_kept_frames(3) [of p fs2 fs1, OF 2(3)]
      tables_kept_frames(4) [OF 3(3)] tables_kept_frames(2) [of p i fs3 "m1\<lparr> log_offset := offset \<rparr>", folded fs4_def]
    by (meson tables_kept_trans)
  have "fs4 (data_block_path p i) = st_fs s (data_block_path p i)" for i
    using 2(3) 3(3) by (simp add: fs4_def fs1_def store_meta_def log_frame_def)
  then have "store_ok cf (s\<lparr> st_fs := fs4 \<rparr>) m' T'"
    using store_ok_frame [OF ok 4(2) [unfolded m' p_def]] by (simp add: fs4_def m' m'_def p_def m1_def)
  moreover have "log_idle p mode fs4 wal' (unat offset) stream"
    using 3(2) log_idle_frame by (auto simp: fs4_def store_meta_def)
  ultimately show ?thesis using 1(1) 2(1) 3(1) 4(1) kept by (auto simp: fs4_def)
qed

text \<open>Building the table of a run, in the two steps of the source.\<close>

lemma build_parts_ok:
  assumes ok: "store_ok cf s m T" and es: "es \<noteq> []" "sorted_strict (map fst es)" and fits: "table_weight es + 100 < 2 ^ 32"
    and seeks: "seeks_fit (cf_params cf)" and ids: "unat (next_data_block_id m) + 2 ^ 33 < 2 ^ 64 - 1"
  defines "p \<equiv> cf_params cf"
  shows "\<exists>s' t m' stb. fold_result (table_add cf) (s, table_builder_new cf tid (fst (hd es)) (fst (last es))) es = Inr stb \<and>
     table_finish cf stb = Inr (s', t) \<and> store_ok cf s' m' T \<and> blocks_drawn m (2 ^ 33) m' \<and>
     tables_kept p tid (st_fs s) (st_fs s') \<and> table_stored cf (st_fs s') t \<and> table_holds cf (st_fs s') t es \<and>
     tbl_identifier t = tid \<and> \<not> compaction_flag t \<and> (\<forall>i. st_fs s' (wal_file_path p i) = st_fs s (wal_file_path p i))"
proof -
  have len: "length es < 2 ^ 32" using table_entries_le_weight [of es] fits by simp
  obtain s' t m' where b: "build_table cf s tid (fst (hd es)) (fst (last es)) es = Inr (s', t)"
      "store_ok cf s' m' T" "blocks_drawn m (Suc (length es)) m'" "only_table p tid (st_fs s) (st_fs s')"
      "table_load cf (st_fs s') tid = Inr t" "table_holds cf (st_fs s') t es" "tbl_identifier t = tid" "\<not> compaction_flag t"
    using build_table_ok [OF ok es, of tid] fits seeks ids len by (auto simp: table_fits_def p_def)
  then obtain stb where stb: "fold_result (table_add cf) (s, table_builder_new cf tid (fst (hd es)) (fst (last es))) es = Inr stb"
      "table_finish cf stb = Inr (s', t)"
    by (auto simp: build_table_def result_simps)
  have "blocks_drawn m (2 ^ 33) m'" using b(3) len unfolding blocks_drawn_def by simp
  moreover have "table_stored cf (st_fs s') t"
    unfolding table_stored_def using b(5,7,8) by (intro exI [of _ "allowed_seeks t"]) simp
  moreover have "\<forall>i. st_fs s' (wal_file_path p i) = st_fs s (wal_file_path p i)"
    using b(4) by (simp add: only_table_def)
  ultimately show ?thesis using stb b(2,6,7,8) tables_kept_frames(1) [OF b(4)] by blast
qed

text \<open>A new table identifier, and the store that has it.\<close>

lemma new_table_id_ok:
  assumes ok: "store_ok cf s m T" and ids: "unat (next_table_id m) < 2 ^ 64 - 1"
  defines "p \<equiv> cf_params cf" and "m1 \<equiv> m\<lparr> next_table_id := next_table_id m + 1 \<rparr>"
  shows "generate_next_table_id False p (st_fs s) = Inr (store_meta p (st_fs s) m1, next_table_id m)"
    "store_ok cf (s\<lparr> st_fs := store_meta p (st_fs s) m1 \<rparr>) m1 T"
    "store_meta p (st_fs s) m1 (wal_file_path p i) = st_fs s (wal_file_path p i)"
proof -
  note gen = generate_next_table_id_ok [OF store_okD(4) [OF ok] ids]
  show "generate_next_table_id False p (st_fs s) = Inr (store_meta p (st_fs s) m1, next_table_id m)"
    using gen(1) by (simp add: m1_def p_def)
  show "store_ok cf (s\<lparr> st_fs := store_meta p (st_fs s) m1 \<rparr>) m1 T"
    using store_ok_frame [OF ok gen(2)] by (simp add: m1_def p_def store_meta_def)
qed (simp add: store_meta_def)

text \<open>The state after the compaction, given what its steps have done.\<close>

lemma memtable_flushed:
  assumes ok: "db_ok cf mode (Suc n) w db g" and imm: "imm_memtables db = [(offset, mem)]"
  defines "p \<equiv> cf_params cf" and "tid \<equiv> next_table_id (g_meta g)" and "T' \<equiv> (g_ids g)(0 := insert (next_table_id (g_meta g)) (g_ids g 0))"
  assumes s: "store_ok cf s m' T'" and kept: "tables_kept p tid (db_fs db) (st_fs s)"
    and m': "seq_number_offset m' = next_seq_number mem" "log_offset m' = offset" "next_table_id m' = tid + 1"
      "unat (next_data_block_id m') \<le> unat (next_data_block_id (g_meta g)) + 2 ^ 33"
    and t: "table_stored cf (st_fs s) t" "table_holds cf (st_fs s) t (entries mem)" "tbl_identifier t = tid" "\<not> compaction_flag t"
    and log: "log_idle p mode (st_fs s) wal' (unat offset) (g_stream g)"
  defines "l0 \<equiv> (db_levels db ! 0)\<lparr> lv_tables := lv_tables (db_levels db ! 0) @ [t] \<rparr>"
    and "g' \<equiv> g\<lparr> g_runs := (g_runs g)[0 := g_runs g ! 0 @ [entries mem]], g_meta := m', g_ids := T',
               g_start := unat offset, g_imm_ops := [] \<rparr>"
  defines "db' \<equiv> db\<lparr> db_store := s, db_levels := (db_levels db)[0 := l0], db_wal := wal', imm_memtables := [] \<rparr>"
  shows "db_ok cf mode n w db' g'" "db_runs db' g' = db_runs db g"
proof -
  note D = db_okD [OF ok]
  note L = levels_okD [OF D(3)]
  have ops: "g_imm_ops g \<noteq> []" "replay (seq_number_offset (g_meta g)) (g_imm_ops g) = Inr mem"
      "unat offset = g_start g + length (log_bytes (g_imm_ops g))"
    using D(6) imm by (auto simp: imm_ok_def split: if_splits)
  note R = replayD [OF ops(2)]
  have lvs: "0 < length (db_levels db)" "0 < num_levels p" using L(3) L(1) [symmetric] by (simp_all add: p_def)
  obtain r0 rss where g0: "g_runs g = r0 # rss" using L(2,3) by (cases "g_runs g") auto
  show runs: "db_runs db' g' = db_runs db g" by (simp add: db_runs_def db'_def g'_def imm g0)
  have tid: "tid \<notin> g_ids g i" "\<forall>j \<in> g_ids g i. j < tid \<and> j \<noteq> 0" if "i < num_levels p" for i
    using D(4) that by (auto simp: ids_ok_def tid_def p_def)
  have nxt: "unat (tid + 1) = Suc (unat tid)" using unat_succ_u64 [of tid] D(9) by (simp add: budget_def tid_def)
  have "levels_ok cf (st_fs s) ((db_levels db)[0 := l0]) (g_runs g') T'"
    unfolding levels_ok_def
  proof (intro conjI allI impI)
    fix i assume i: "i < length ((db_levels db)[0 := l0])"
    then have i': "level_ok cf (st_fs s) i (db_levels db ! i) (g_runs g ! i) (g_ids g i)"
      using level_ok_kept [OF kept [unfolded p_def] L(5)] tid(1) [of i] L(1) by (simp add: p_def)
    show "level_ok cf (st_fs s) i ((db_levels db)[0 := l0] ! i) (g_runs g' ! i) (T' i)"
    proof (cases "i = 0")
      case True
      have "level_ok cf (st_fs s) 0 l0 (g_runs g ! 0 @ [entries mem]) (insert (tbl_identifier t) (g_ids g 0))"
        unfolding l0_def by (rule level_ok_add) (use i' True t tid(2) [OF lvs(2)] in auto)
      then show ?thesis using True lvs L(2) t(3) by (simp add: g'_def T'_def tid_def)
    next
      case False
      then show ?thesis using i' by (simp add: g'_def T'_def)
    qed
  qed (use L in \<open>simp_all add: g'_def\<close>)
  moreover have "ids_ok p m' T'"
    unfolding ids_ok_def
  proof (intro conjI allI impI ballI)
    fix i j assume "i < num_levels p" "j \<in> T' i"
    then show "j \<noteq> 0" "j < next_table_id m'"
      using tid(2) [of i] D(4) nxt by (auto simp: T'_def m'(3) ids_ok_def tid_def word_less_nat_alt unat_gt_0 split: if_splits)
  next
    fix i j assume "i < num_levels p" "j < num_levels p" "i \<noteq> j"
    then show "T' i \<inter> T' j = {}"
      using tid(1) D(4) by (auto simp: T'_def ids_ok_def p_def tid_def)
  qed (use nxt m'(3) in \<open>simp add: word_less_nat_alt\<close>)
  moreover have "mem_ok (db_memtable db) g'"
  proof -
    have n: "next_seq_number mem = seq_number_offset (g_meta g) + of_nat (length (g_imm_ops g))"
      using R(2) unat_u64_less [of "next_seq_number mem"] by (simp add: word_unat_eq_iff unat_word_ariths unat_of_nat)
    have "entry_seq_number (snd x) < next_seq_number mem" if "x \<in> set r" "r \<in> set rs" "rs \<in> set (g_runs g')" for x r rs
    proof -
      have "r = entries mem \<or> (\<exists>rs \<in> set (g_runs g). r \<in> set rs)" using that(2,3) by (auto simp: g'_def g0)
      moreover have "entry_seq_number (snd x) < next_seq_number mem" if "x \<in> set (entries mem)"
        using mt_okD(3) [OF R(1), of "fst x" "snd x"] that by simp
      moreover have "entry_seq_number (snd x) < next_seq_number mem"
        if "entry_seq_number (snd x) < seq_number_offset (g_meta g)"
        using that R(2) by (simp add: word_less_nat_alt)
      ultimately show ?thesis using that(1) D(5) unfolding mem_ok_def by blast
    qed
    then show ?thesis using D(5) R(2) n by (simp add: mem_ok_def g'_def m'(1))
  qed
  moreover have "log_ok p mode (st_fs s) wal' g'"
  proof -
    have "drop (length (log_bytes (g_imm_ops g))) (drop (g_start g) (g_stream g)) = log_bytes (g_mem_ops g)"
      using D(8) by (simp add: log_ok_def)
    then have "drop (unat offset) (g_stream g) = log_bytes (g_mem_ops g)" by (simp add: ops(3) add.commute)
    then show ?thesis using log m'(2) by (simp add: log_ok_def g'_def)
  qed
  moreover have "budget n w db' g'"
    using D(9) runs m'(3,4) nxt by (simp add: budget_def db'_def g'_def tid_def)
  ultimately show "db_ok cf mode n w db' g'"
    using D s runs by (simp add: db_ok_def db'_def g'_def imm_ok_def p_def)
qed

lemma get_min_max_key_ok:
  "entries mem \<noteq> [] \<Longrightarrow> get_min_max_key mem = Inr (fst (hd (entries mem)), fst (last (entries mem)))"
  by (simp add: get_min_max_key_def hd_conv_nth last_conv_nth)

text \<open>An operation that changes nothing a client can see, and no part of the log.\<close>

definition same_db :: "'c db \<Rightarrow> ghost \<Rightarrow> 'c db \<Rightarrow> ghost \<Rightarrow> bool" where
  "same_db db' g' db g \<longleftrightarrow>
     db_contents db' g' = db_contents db g \<and> g_stream g' = g_stream g \<and> g_imm_ops g' @ g_mem_ops g' = g_imm_ops g @ g_mem_ops g"

lemma same_db_refl: "same_db db g db g"
  by (simp add: same_db_def)

lemma same_db_trans: "same_db db2 g2 db1 g1 \<Longrightarrow> same_db db1 g1 db g \<Longrightarrow> same_db db2 g2 db g"
  by (simp add: same_db_def)

lemma do_memtable_compaction_idle:
  "imm_memtables db = [] \<Longrightarrow> do_memtable_compaction cf mode db = Some (Inr (db, False))"
  by (simp add: do_memtable_compaction_def Let_def)

lemma do_memtable_compaction_ok:
  assumes ok: "db_ok cf mode (Suc n) w db g" and imm: "imm_memtables db \<noteq> []"
  shows "\<exists>db' g'. (\<forall>x. do_memtable_compaction cf mode (db\<lparr> db_memtable := x \<rparr>) = Some (Inr (db'\<lparr> db_memtable := x \<rparr>, True))) \<and>
     db_ok cf mode n w db' g' \<and>
     db_runs db' g' = db_runs db g \<and> imm_memtables db' = [] \<and> db_memtable db' = db_memtable db \<and>
     g_imm_ops g' = [] \<and> g_mem_ops g' = g_mem_ops g \<and> g_stream g' = g_stream g"
proof -
  note D = db_okD [OF ok]
  define p where "p = cf_params cf"
  let ?m = "g_meta g" and ?T = "g_ids g"
  obtain offset mem where mem: "imm_memtables db = [(offset, mem)]" "replay (seq_number_offset ?m) (g_imm_ops g) = Inr mem"
      "unat offset = g_start g + length (log_bytes (g_imm_ops g))" and ops: "g_imm_ops g \<noteq> []"
    using D(6) imm by (auto simp: imm_ok_def split: if_splits)
  note R = replayD [OF mem(2)]
  have es: "entries mem \<noteq> []" "sorted_strict (map fst (entries mem))" using R(1,4) ops mt_okD(1) by auto
  have in_runs: "entries mem \<in> set (db_runs db g)" by (simp add: db_runs_def mem(1))
  have fits: "table_weight (entries mem) + 100 < 2 ^ 32"
    using D(9) total_weight_member [OF in_runs] by (simp add: budget_def)
  have ids: "unat (next_table_id ?m) < 2 ^ 64 - 1" "unat (next_data_block_id ?m) + 2 ^ 33 < 2 ^ 64 - 1"
    using D(9) by (simp_all add: budget_def)
  define tid where "tid = next_table_id ?m"
  define m1 where "m1 = ?m\<lparr> next_table_id := next_table_id ?m + 1 \<rparr>"
  note id1 = new_table_id_ok [OF D(2) ids(1), folded p_def m1_def]
  define fs0 where "fs0 = store_meta p (db_fs db) m1"
  note id1 = id1 [folded fs0_def tid_def]
  obtain s1 t m2 stb where
      b: "fold_result (table_add cf) ((db_store db)\<lparr> st_fs := fs0 \<rparr>,
           table_builder_new cf tid (fst (hd (entries mem))) (fst (last (entries mem)))) (entries mem) = Inr stb"
        "table_finish cf stb = Inr (s1, t)"
      and s1: "store_ok cf s1 m2 ?T" "blocks_drawn m1 (2 ^ 33) m2" "tables_kept p tid fs0 (st_fs s1)"
      and t: "table_stored cf (st_fs s1) t" "table_holds cf (st_fs s1) t (entries mem)" "tbl_identifier t = tid" "\<not> compaction_flag t"
      and wal1: "\<And>i. st_fs s1 (wal_file_path p i) = fs0 (wal_file_path p i)"
    using build_parts_ok [OF id1(2) es fits D(1), of tid] ids by (auto simp: p_def tid_def m1_def)
  have m2: "m2 = m1\<lparr> next_data_block_id := next_data_block_id m2 \<rparr>" using s1(2) unfolding blocks_drawn_def by blast
  have m2_sel: "seq_number_offset m2 = seq_number_offset ?m" "log_offset m2 = log_offset ?m" "next_table_id m2 = tid + 1"
    by (subst m2, simp add: m1_def tid_def)+
  have tid: "\<forall>i < num_levels p. \<forall>j \<in> ?T i. j < tid" "tid \<noteq> 0"
    using D(4) by (auto simp: ids_ok_def tid_def p_def)
  note L = levels_okD [OF D(3)]
  have lv: "0 < num_levels p" using L(1,3) by (metis length_greater_0_conv p_def)
  note log = D(8) [unfolded log_ok_def]
  have idle1: "log_idle p mode (st_fs s1) (db_wal db) (g_start g) (g_stream g)"
    using log wal1 id1(3) log_idle_frame by (auto simp: p_def)
  have pos: "0 < length (log_bytes (g_imm_ops g))"
    using ops by (cases "g_imm_ops g"; cases "hd (g_imm_ops g)") (auto simp: encode_entry_length)
  have off: "g_start g < unat offset" "unat offset \<le> length (g_stream g)" using mem(3) log_ok_length [OF D(8)] pos by simp_all
  have seq: "seq_number_offset m2 < next_seq_number mem" using R(2) ops m2_sel by (simp add: word_less_nat_alt)
  define m' where "m' = m2\<lparr> seq_number_offset := next_seq_number mem, log_offset := offset \<rparr>"
  define T' where "T' = ?T(0 := insert tid (?T 0))"
  obtain fs1 fs2 fs3 wal' fs4 where
      r: "set_seq_number_offset False p (st_fs s1) (next_seq_number mem) = Inr fs1"
        "update_table_set p fs1 [(0, tid)] [] = Inr fs2" "wal_flush p mode fs2 (db_wal db) offset = Some (Inr (fs3, wal'))"
        "set_log_offset False p fs3 offset = Inr fs4"
      and s2: "store_ok cf (s1\<lparr> st_fs := fs4 \<rparr>) m' T'" "\<And>i. tables_kept p i (st_fs s1) fs4"
        "log_idle p mode fs4 wal' (unat offset) (g_stream g)"
    using retire_ok [OF s1(1) seq, of tid mode "db_wal db" "g_start g" "g_stream g" offset] tid lv idle1 off log m2_sel(2)
    unfolding p_def m'_def T'_def by (metis order_less_irrefl)
  define l0 where "l0 = (db_levels db ! 0)\<lparr> lv_tables := lv_tables (db_levels db ! 0) @ [t] \<rparr>"
  define db' where "db' = db\<lparr> db_store := s1\<lparr> st_fs := fs4 \<rparr>, db_levels := (db_levels db)[0 := l0], db_wal := wal', imm_memtables := [] \<rparr>"
  define g' where "g' = g\<lparr> g_runs := (g_runs g)[0 := g_runs g ! 0 @ [entries mem]], g_meta := m', g_ids := T',
    g_start := unat offset, g_imm_ops := [] \<rparr>"
  have idx: "index (db_levels db) 0 = Inr (db_levels db ! 0)" "lv_index (db_levels db ! 0) = 0"
    using L(3) level_okD(2) [OF L(5) [of 0]] by (simp_all add: index_def)
  have run: "do_memtable_compaction cf mode (db\<lparr> db_memtable := x \<rparr>) = Some (Inr (db'\<lparr> db_memtable := x \<rparr>, True))" for x
    using b id1(1) r t(3) idx D(10) mem(1)
    by (cases db, simp add: do_memtable_compaction_def get_min_max_key_ok [OF es(1)] level_build_table_def add_l0_table_def
        with_logger_def assert_that_def db'_def l0_def p_def)
  have kept: "tables_kept p tid (db_fs db) fs4"
    using tables_kept_frames(2) [of p tid "db_fs db" m1, folded fs0_def] s1(3) s2(2) [of tid] by (meson tables_kept_trans)
  have t': "table_stored cf fs4 t" "table_holds cf fs4 t (entries mem)"
    using t(1,2,3) tid(2) table_stored_kept [OF s2(2) [of 0, unfolded p_def]] table_holds_kept s2(2) [of 0]
    by (auto simp: tables_kept_def p_def)
  have "unat (next_data_block_id m') \<le> unat (next_data_block_id ?m) + 2 ^ 33"
    using s1(2) by (simp add: blocks_drawn_def m'_def m1_def)
  then have "db_ok cf mode n w db' g'" "db_runs db' g' = db_runs db g"
    using memtable_flushed [OF ok mem(1), of "s1\<lparr> st_fs := fs4 \<rparr>" m' t wal'] s2(1,3) kept t' t(3,4) m2_sel
    by (simp_all add: db'_def g'_def T'_def l0_def m'_def p_def tid_def)
  then show ?thesis using run by (intro exI [of _ db'] exI [of _ g']) (auto simp: db'_def g'_def)
qed

section \<open>Writes\<close>

lemma budget_mono: "budget n w db g \<Longrightarrow> n' \<le> n \<Longrightarrow> w' \<le> w \<Longrightarrow> budget n' w' db g"
  unfolding budget_def by (auto intro: le_less_trans [OF add_left_mono [OF mult_le_mono1]])

lemma db_ok_mono: "db_ok cf mode n w db g \<Longrightarrow> n' \<le> n \<Longrightarrow> w' \<le> w \<Longrightarrow> db_ok cf mode n' w' db g"
  using budget_mono by (auto simp: db_ok_def)

text \<open>Waiting for the immutable memtable: at most one compaction.\<close>

lemma wait_imm_ok:
  assumes ok: "db_ok cf mode (Suc n) w db g"
  shows "\<exists>db' g'. (\<forall>x. wait_imm cf mode (db\<lparr> db_memtable := x \<rparr>) = Some (Inr (db'\<lparr> db_memtable := x \<rparr>))) \<and>
     db_ok cf mode n w db' g' \<and> db_runs db' g' = db_runs db g \<and> imm_memtables db' = [] \<and>
     db_memtable db' = db_memtable db \<and> g_imm_ops g' = [] \<and> g_mem_ops g' = g_mem_ops g \<and> g_stream g' = g_stream g"
proof (cases "imm_memtables db = []")
  case True
  then have "g_imm_ops g = []" using db_okD(6) [OF ok] by (auto simp: imm_ok_def split: if_splits)
  then show ?thesis
    using True db_ok_mono [OF ok, of n w] by (intro exI [of _ db] exI [of _ g]) (simp add: wait_imm.simps)
next
  case False
  obtain db' g' where c: "\<And>x. do_memtable_compaction cf mode (db\<lparr> db_memtable := x \<rparr>) = Some (Inr (db'\<lparr> db_memtable := x \<rparr>, True))"
      "db_ok cf mode n w db' g'" "db_runs db' g' = db_runs db g" "imm_memtables db' = []" "db_memtable db' = db_memtable db"
      "g_imm_ops g' = []" "g_mem_ops g' = g_mem_ops g" "g_stream g' = g_stream g"
    using do_memtable_compaction_ok [OF ok False] by blast
  have "wait_imm cf mode (db\<lparr> db_memtable := x \<rparr>) = Some (Inr (db'\<lparr> db_memtable := x \<rparr>))" for x
    using c(1,4) False by (simp add: wait_imm.simps [of _ _ "db\<lparr> db_memtable := x \<rparr>"] wait_imm.simps [of _ _ "db'\<lparr> db_memtable := x \<rparr>"])
  then show ?thesis using c(2-8) by blast
qed

lemma memtable_get_map: "mt_ok m \<Longrightarrow> memtable_get m = map_of (entries m)"
  by (rule ext) (simp add: memtable_get_eq mt_map_def)

lemma apply_writes_add: "m0 ++ apply_writes seq ops m = apply_writes seq ops (m0 ++ m)"
  by (induction ops arbitrary: seq m) simp_all

lemma lookup_runs_Cons: "lookup_runs (r # rs) = lookup_runs rs ++ map_of r"
  by (auto simp: fun_eq_iff map_add_def split: option.splits)

text \<open>The current memtable is newer than every other run.\<close>

lemma runs_older:
  assumes ok: "db_ok cf mode n w db g" and r: "r \<in> set (tl (db_runs db g))" and x: "x \<in> set r"
  shows "entry_seq_number (snd x) < seq_number_offset (g_meta g) + of_nat (length (g_imm_ops g))"
proof -
  let ?so = "seq_number_offset (g_meta g)" and ?n = "length (g_imm_ops g)"
  note D = db_okD [OF ok]
  have n: "unat (?so + of_nat ?n) = unat ?so + ?n"
    using D(5) by (simp add: mem_ok_def unat_word_ariths unat_of_nat)
  consider imm where "snd ` set (imm_memtables db) = {imm}" "r = entries imm" "replay ?so (g_imm_ops g) = Inr imm"
    | rs where "rs \<in> set (g_runs g)" "r \<in> set rs"
    using r D(6) by (auto simp: db_runs_def imm_ok_def split: if_splits)
  then show ?thesis
  proof cases
    case 1
    then have "entry_seq_number (snd x) < next_seq_number imm"
      using x mt_okD(3) [OF replayD(1) [OF 1(3)], of "fst x" "snd x"] by simp
    then show ?thesis using replayD(2) [OF 1(3)] n by (simp add: word_less_nat_alt)
  next
    case 2
    then have "entry_seq_number (snd x) < ?so" using D(5) x by (auto simp: mem_ok_def)
    then show ?thesis using n by (simp add: word_less_nat_alt)
  qed
qed

text \<open>The log has taken the operations; applying them to the memtable keeps the invariant.\<close>

lemma write_mem_ok:
  assumes ok: "db_ok cf mode n (w + ops_weight ops) db g"
    and log: "log_idle (cf_params cf) mode fs' wal' (g_start g) (g_stream g @ log_bytes ops)" "log_frame (cf_params cf) (db_fs db) fs'"
  defines "g' \<equiv> g\<lparr> g_stream := g_stream g @ log_bytes ops, g_mem_ops := g_mem_ops g @ ops \<rparr>"
  shows "\<exists>mem'. fold_result memtable_apply (db_memtable db) ops = Inr mem' \<and>
     db_ok cf mode n w (with_fs (db\<lparr> db_wal := wal', db_memtable := mem' \<rparr>) fs') g' \<and>
     db_contents (with_fs (db\<lparr> db_wal := wal', db_memtable := mem' \<rparr>) fs') g' = fold kv_apply ops (db_contents db g)"
proof -
  note D = db_okD [OF ok]
  let ?mem = "db_memtable db" and ?so = "seq_number_offset (g_meta g) + of_nat (length (g_imm_ops g))"
  have mem: "replay ?so (g_mem_ops g) = Inr ?mem" using D(5) by (simp add: mem_ok_def)
  have room: "unat (next_seq_number ?mem) + length ops < 2 ^ 64"
    using D(9) length_le_weight [of ops] by (simp add: budget_def)
  obtain mem' where mem': "fold_result memtable_apply ?mem ops = Inr mem'" "mt_ok mem'"
      "unat (next_seq_number mem') = unat (next_seq_number ?mem) + length ops"
      "memtable_get mem' = apply_writes (next_seq_number ?mem) ops (memtable_get ?mem)"
    using mt.apply_all [OF replayD(1) [OF mem] room] by blast
  define db' where "db' = with_fs (db\<lparr> db_wal := wal', db_memtable := mem' \<rparr>) fs'"
  have rep: "replay ?so (g_mem_ops g @ ops) = Inr mem'" using mem mem'(1) by (simp add: replay_append)
  have runs: "db_runs db g = entries ?mem # tl (db_runs db g)" "db_runs db' g' = entries mem' # tl (db_runs db g)"
    by (simp_all add: db_runs_def db'_def g'_def)
  have so: "unat ?so = unat (seq_number_offset (g_meta g)) + length (g_imm_ops g)"
    using D(5) by (simp add: mem_ok_def unat_word_ariths unat_of_nat)
  have "newer_run (entries mem') r" if "r \<in> set (tl (db_runs db g))" for r
    unfolding newer_run_def
  proof (intro allI impI)
    fix k x y assume "map_of (entries mem') k = Some x" "map_of r k = Some y"
    then have "?so \<le> entry_seq_number x" "entry_seq_number y < ?so"
      using replayD(5) [OF rep, of "(k, x)"] runs_older [OF ok that, of "(k, y)"] by (simp_all add: map_of_SomeD)
    then show "entry_seq_number y < entry_seq_number x" by (rule order_less_le_trans [rotated])
  qed
  moreover have "newest_first (tl (db_runs db g))" using D(7) by (subst (asm) runs(1)) simp
  ultimately have newest: "newest_first (db_runs db' g')" by (simp add: runs(2))
  have weight: "total_weight (db_runs db' g') \<le> total_weight (db_runs db g) + ops_weight ops"
    using memtable_fold_entries [OF replayD(1) [OF mem] mem'(1)] arg_cong [OF runs(1), of total_weight]
    by (simp add: runs(2) total_weight_def)
  have "store_ok cf ((db_store db)\<lparr> st_fs := fs' \<rparr>) (g_meta g) (g_ids g)"
    using store_ok_frame [OF D(2), of fs' "g_meta g" "g_ids g"] store_okD(4) [OF D(2)] log(2)
    by (simp add: manifest_ok_def log_frame_def)
  moreover have "levels_ok cf fs' (db_levels db) (g_runs g) (g_ids g)"
    using levels_ok_kept [OF tables_kept_frames(4) [OF log(2), of 0] D(3)] D(4) by (auto simp: ids_ok_def)
  moreover have "mem_ok mem' g'"
    using D(5) rep mem'(3) room replayD(2) [OF mem] so by (simp add: mem_ok_def g'_def)
  moreover have "log_ok (cf_params cf) mode fs' wal' g'"
    using D(8) log(1) log_idleD(3) by (fastforce simp: log_ok_def g'_def)
  moreover have "budget n w db' g'"
    using D(9) weight mem'(3) length_le_weight [of ops] log_bytes_weight [of ops]
    by (simp add: budget_def db'_def g'_def)
  moreover have "imm_ok (imm_memtables db) g'" using D(6) by (simp add: imm_ok_def g'_def)
  ultimately have "db_ok cf mode n w db' g'" using D newest by (simp add: db_ok_def db'_def g'_def)
  moreover have "db_contents db' g' = fold kv_apply ops (db_contents db g)"
  proof -
    have "map_of (entries mem') = apply_writes (next_seq_number ?mem) ops (map_of (entries ?mem))"
      using mem'(4) by (simp add: memtable_get_map [OF mem'(2)] memtable_get_map [OF replayD(1) [OF mem]])
    then show ?thesis
      by (subst (2) db_contents_def, subst runs(1))
        (simp add: db_contents_def runs(2) lookup_runs_Cons apply_writes_add visible_apply_writes)
  qed
  ultimately show ?thesis using mem'(1) by (auto simp: db'_def)
qed

text \<open>A full memtable becomes the immutable one.\<close>

lemma memtable_taken:
  assumes ok: "db_ok cf mode n w db g" and imm: "imm_memtables db = []" "g_imm_ops g = []" and ops: "g_mem_ops g \<noteq> []"
  defines "db' \<equiv> db\<lparr> db_memtable := memtable_new (next_seq_number (db_memtable db)),
                       imm_memtables := [(of_nat (length (g_stream g)), db_memtable db)] \<rparr>"
    and "g' \<equiv> g\<lparr> g_imm_ops := g_mem_ops g, g_mem_ops := [] \<rparr>"
  shows "db_ok cf mode n w db' g'" "db_contents db' g' = db_contents db g"
proof -
  note D = db_okD [OF ok]
  let ?mem = "db_memtable db" and ?so = "seq_number_offset (g_meta g)"
  have mem: "replay ?so (g_mem_ops g) = Inr ?mem" using D(5) imm by (simp add: mem_ok_def)
  have runs: "db_runs db' g' = [] # db_runs db g"
    by (simp add: db_runs_def db'_def g'_def imm memtable_new_def)
  then show "db_contents db' g' = db_contents db g" by (simp add: db_contents_def lookup_runs_Cons)
  have n: "next_seq_number ?mem = ?so + of_nat (length (g_mem_ops g))"
    using replayD(2) [OF mem] unat_u64_less [of "next_seq_number ?mem"] by (simp add: word_unat_eq_iff unat_word_ariths unat_of_nat)
  have "length (g_stream g) = g_start g + length (log_bytes (g_mem_ops g))"
    using log_ok_length [OF D(8)] imm by simp
  moreover have "length (g_stream g) < 2 ^ 64" using D(9) by (simp add: budget_def)
  ultimately have "unat (of_nat (length (g_stream g)) :: u64) = g_start g + length (log_bytes (g_mem_ops g))"
    by (metis unat_of_nat_u64)
  then have "imm_ok (imm_memtables db') g'" using mem ops by (simp add: imm_ok_def db'_def g'_def)
  moreover have "mem_ok (db_memtable db') g'"
    using D(5) imm n by (simp add: mem_ok_def db'_def g'_def replay_def)
  moreover have "log_ok (cf_params cf) mode (db_fs db) (db_wal db) g'" using D(8) imm by (simp add: log_ok_def g'_def)
  moreover have "newest_first (db_runs db' g')" using D(7) runs by simp
  moreover have "budget n w db' g'"
    using D(9) runs by (simp add: budget_def total_weight_def) (simp add: db'_def g'_def)
  ultimately show "db_ok cf mode n w db' g'" using D by (simp add: db_ok_def db'_def g'_def)
qed

lemma write_opts_ok:
  assumes ok: "db_ok cf mode (Suc n) (w + ops_weight (writes batch)) db g"
  shows "\<exists>db' g' b. write_opts cf mode db batch opt = Some (Inr (db', b)) \<and> db_ok cf mode n w db' g' \<and>
     db_contents db' g' = fold kv_apply (writes batch) (db_contents db g) \<and> g_stream g' = g_stream g @ log_bytes (writes batch) \<and>
     set (g_imm_ops g' @ g_mem_ops g') \<subseteq> set (g_imm_ops g @ g_mem_ops g @ writes batch)"
proof -
  note D = db_okD [OF ok]
  define p where "p = cf_params cf"
  define stream where "stream = g_stream g @ log_bytes (writes batch)"
  have bytes: "concat (map encode_entry (map Write (writes batch))) = log_bytes (writes batch)"
    by (simp add: log_bytes_def comp_def del: encode_entry.simps)
  have idle: "log_idle p mode (db_fs db) (db_wal db) (g_start g) (g_stream g)" using D(8) by (simp add: log_ok_def p_def)
  obtain fs1 wal1 where 1: "wal_store p mode (db_fs db) (db_wal db) (map Write (writes batch)) = Some (Inr (fs1, wal1, of_nat (length stream)))"
      "log_idle p mode fs1 wal1 (g_start g) stream" "log_frame p (db_fs db) fs1"
    using wal_store_ok [OF idle, of "map Write (writes batch)"] unfolding bytes stream_def by blast
  obtain fs2 wal2 where 2: "(if sync_opt opt then wal_sync p mode fs1 wal1 else Some (Inr (fs1, wal1))) = Some (Inr (fs2, wal2))"
      "log_idle p mode fs2 wal2 (g_start g) stream" "log_frame p fs1 fs2"
    using wal_sync_ok [OF 1(2)] 1(2) by (cases "sync_opt opt") (auto simp: log_frame_refl)
  have frame: "log_frame p (db_fs db) fs2" using 1(3) 2(3) by (simp add: log_frame_def)
  define g1 where "g1 = g\<lparr> g_stream := stream, g_mem_ops := g_mem_ops g @ writes batch \<rparr>"
  obtain mem where mem: "fold_result memtable_apply (db_memtable db) (writes batch) = Inr mem"
      and ok1: "db_ok cf mode (Suc n) w (with_fs (db\<lparr> db_wal := wal2, db_memtable := mem \<rparr>) fs2) g1"
      and con1: "db_contents (with_fs (db\<lparr> db_wal := wal2, db_memtable := mem \<rparr>) fs2) g1 = fold kv_apply (writes batch) (db_contents db g)"
    using write_mem_ok [OF ok] 2(2) frame unfolding stream_def g1_def p_def by blast
  define db1 where "db1 = with_fs (db\<lparr> db_wal := wal2, db_memtable := mem \<rparr>) fs2"
  note ok1 = ok1 [folded db1_def] and con1 = con1 [folded db1_def]
  show ?thesis
  proof (cases "is_full mem p")
    case False
    then have "write_opts cf mode db batch opt = Some (Inr (db1, False))"
      using 1(1) 2(1) mem by (cases db; cases "sync_opt opt"; simp add: write_opts_def p_def db1_def)
    then show ?thesis using db_ok_mono [OF ok1, of n w] con1 by (intro exI [of _ db1] exI [of _ g1] exI [of _ False]) (auto simp: g1_def stream_def)
  next
    case True
    obtain db2 g2 where w: "\<And>x. wait_imm cf mode (db1\<lparr> db_memtable := x \<rparr>) = Some (Inr (db2\<lparr> db_memtable := x \<rparr>))"
        and ok2: "db_ok cf mode n w db2 g2" "db_runs db2 g2 = db_runs db1 g1" "imm_memtables db2 = []"
          "db_memtable db2 = mem" "g_imm_ops g2 = []" "g_mem_ops g2 = g_mem_ops g1" "g_stream g2 = stream"
      using wait_imm_ok [OF ok1] by (auto simp: db1_def g1_def)
    have "g_mem_ops g2 \<noteq> []"
    proof
      assume "g_mem_ops g2 = []"
      then have "mt_size mem = 0" using db_okD(5) [OF ok2(1), unfolded ok2(4)] by (auto simp: mem_ok_def replay_def memtable_new_def)
      then show False using True D(11) by (simp add: is_full_def p_def)
    qed
    note taken = memtable_taken [OF ok2(1,3,5) this, unfolded ok2(4,7)]
    define db3 where "db3 = db2\<lparr> db_memtable := memtable_new (next_seq_number mem), imm_memtables := [(of_nat (length stream), mem)] \<rparr>"
    have "write_opts cf mode db batch opt = Some (Inr (db3, True))"
      using 1(1) 2(1) mem True w [of "memtable_new (next_seq_number mem)"] ok2(3)
      by (cases db; cases "sync_opt opt"; simp add: write_opts_def p_def db1_def db3_def memtable_take_def)
    then show ?thesis
      using taken con1 ok2(2,5,6,7) unfolding db3_def [symmetric]
      by (intro exI [of _ db3] exI [of _ "g2\<lparr> g_imm_ops := g_mem_ops g2, g_mem_ops := [] \<rparr>"] exI [of _ True])
        (auto simp: db_contents_def g1_def stream_def)
  qed
qed

end
