(* ===== verification/Lsm_DbCompact.thy ===== *)
theory Lsm_DbCompact
  imports Lsm_DbWrite
begin

text \<open>
  The compaction of a level keeps the invariant and changes no lookup, whether it moves a single table to
  the next level or merges tables of two levels.
\<close>

section \<open>Removing and inserting tables\<close>

lemma remove_by_id_ok:
  assumes "distinct (map tbl_identifier ts)" and "t \<in> set ts"
  shows "remove_by_id ts t = Inr (filter (\<lambda>u. tbl_identifier u \<noteq> tbl_identifier t) ts)"
proof -
  obtain pos where pos: "find_table ts (tbl_identifier t) = Some pos"
    using assms(2) find_table_None [of ts "tbl_identifier t"] by (cases "find_table ts (tbl_identifier t)") auto
  note P = find_table_Some [OF pos]
  have split: "ts = take pos ts @ ts ! pos # drop (Suc pos) ts" using P by (simp add: id_take_nth_drop)
  have "\<forall>u \<in> set (take pos ts). tbl_identifier u \<noteq> tbl_identifier t" "\<forall>u \<in> set (drop (Suc pos) ts). tbl_identifier u \<noteq> tbl_identifier t"
  proof -
    have "distinct (map tbl_identifier (take pos ts @ ts ! pos # drop (Suc pos) ts))" using assms(1) by (subst (asm) split)
    then show "\<forall>u \<in> set (take pos ts). tbl_identifier u \<noteq> tbl_identifier t" "\<forall>u \<in> set (drop (Suc pos) ts). tbl_identifier u \<noteq> tbl_identifier t"
      using P by (auto simp: image_iff)
  qed
  then have "filter (\<lambda>u. tbl_identifier u \<noteq> tbl_identifier t) (take pos ts @ ts ! pos # drop (Suc pos) ts) = take pos ts @ drop (Suc pos) ts"
    using P by simp
  then show ?thesis using pos P split by (simp add: remove_by_id_def vec_remove_def)
qed

lemma remove_all_ok:
  assumes "distinct (map tbl_identifier ts)" and "set us \<subseteq> set ts" and "distinct (map tbl_identifier us)"
  shows "fold_result remove_by_id ts us = Inr (filter (\<lambda>u. tbl_identifier u \<notin> tbl_identifier ` set us) ts)"
  using assms
proof (induction us arbitrary: ts)
  case (Cons t us)
  let ?ts = "filter (\<lambda>u. tbl_identifier u \<noteq> tbl_identifier t) ts"
  have "set us \<subseteq> set ?ts" using Cons.prems by (auto simp: image_iff)
  moreover have "distinct (map tbl_identifier ?ts)" using Cons.prems(1) by (rule distinct_map_filter)
  ultimately have "fold_result remove_by_id ?ts us = Inr (filter (\<lambda>u. tbl_identifier u \<notin> tbl_identifier ` set us) ?ts)"
    using Cons.IH Cons.prems(3) by simp
  then show ?case using remove_by_id_ok [OF Cons.prems(1), of t] Cons.prems(2)
    by (simp add: conj_commute)
qed simp

lemma filter_positions:
  assumes "distinct (map tbl_identifier ts)" and "set ps \<subseteq> {..< length ts}"
  shows "filter (\<lambda>u. tbl_identifier u \<notin> tbl_identifier ` set (map (nth ts) ps)) ts = without ps ts"
proof -
  have "tbl_identifier (ts ! i) \<in> tbl_identifier ` set (map (nth ts) ps) \<longleftrightarrow> i \<in> set ps" if "i < length ts" for i
    using assms that by (auto simp: distinct_conv_nth image_iff)
  then show ?thesis
    unfolding nths_filter [symmetric] by (intro nths_cong) auto
qed

text \<open>Removing the tables that a compaction has taken.\<close>

lemma mark_tables_ids [simp]: "map tbl_identifier (mark_tables ps ts) = map tbl_identifier ts"
  by (rule nth_equalityI) simp_all

lemma table_holds_flag [simp]: "table_holds cf fs (t\<lparr> compaction_flag := b \<rparr>) es \<longleftrightarrow> table_holds cf fs t es"
  by (rule table_holds_index) simp

lemma mark_tables_holds:
  assumes "list_all2 (table_holds cf fs) ts rs"
  shows "list_all2 (table_holds cf fs) (mark_tables ps ts) rs"
  using assms by (simp add: list_all2_conv_all_nth)

lemma remove_marked_ok:
  assumes ids: "distinct (map tbl_identifier ts)" and ps: "distinct ps" "set ps \<subseteq> {..< length ts}"
  shows "fold_result remove_by_id (mark_tables ps ts) (map (nth (mark_tables ps ts)) ps) = Inr (without ps ts)"
proof -
  have "distinct (map tbl_identifier (map (nth (mark_tables ps ts)) ps))"
  proof -
    have eq: "map tbl_identifier (map (nth (mark_tables ps ts)) ps) = map (nth (map tbl_identifier ts)) ps"
      using ps(2) by (auto simp: subset_iff)
    moreover have "inj_on (nth (map tbl_identifier ts)) (set ps)"
      using ps(2) nth_eq_iff_index_eq [OF ids] unfolding inj_on_def by (metis length_map lessThan_iff subsetD)
    ultimately show ?thesis using ps(1) unfolding eq by (simp add: distinct_map)
  qed
  moreover have "set (map (nth (mark_tables ps ts)) ps) \<subseteq> set (mark_tables ps ts)"
    using ps(2) by (auto simp: subset_iff simp del: mark_tables_simps(3) intro!: nth_mem)
  ultimately show ?thesis
    using remove_all_ok [of "mark_tables ps ts"] filter_positions [of "mark_tables ps ts" ps] ids ps(2) by simp
qed

lemma insert_pos_ok:
  assumes "list_all2 (table_holds cf fs) ts rs" and "dflt \<le> pos + length ts"
  shows "\<exists>n. insert_pos ts k pos dflt = Inr n \<and> n \<le> pos + length ts"
  using assms
proof (induction ts arbitrary: rs pos)
  case (Cons t ts)
  then obtain r rs' where "rs = r # rs'" "table_holds cf fs t r" "list_all2 (table_holds cf fs) ts rs'"
    by (auto simp: list_all2_Cons1)
  then show ?case using Cons.IH [of rs' "pos + 1"] Cons.prems(2) table_holdsD(3) by fastforce
qed simp

lemma list_all2_insert:
  assumes "list_all2 P xs ys" and "P x y"
  shows "list_all2 P (take n xs @ x # drop n xs) (take n ys @ y # drop n ys)"
  using assms by (simp add: list_all2_appendI list_all2_takeI list_all2_dropI)

section \<open>The range of a compaction\<close>

lemma hull_append: "hull_min mn (xs @ ys) = hull_min (hull_min mn xs) ys" "hull_max mx (xs @ ys) = hull_max (hull_max mx xs) ys"
  by (simp_all add: hull_min_def hull_max_def)

lemma table_range_ok:
  assumes "list_all2 (table_holds cf fs) ts rs"
  shows "table_range (mn, mx) ts = Inr (hull_min mn rs, hull_max mx rs)"
  using assms
proof (induction ts arbitrary: rs mn mx)
  case (Cons t ts)
  then obtain r rs' where rs: "rs = r # rs'" "table_holds cf fs t r" "list_all2 (table_holds cf fs) ts rs'"
    by (auto simp: list_all2_Cons1)
  then show ?case
    using Cons.IH [OF rs(3), of "min mn (fst (hd r))" "max mx (fst (last r))"] table_holdsD(3,4) [OF rs(2)]
    by (simp add: table_range_def hull_min_def hull_max_def min.commute max.commute)
qed (simp add: table_range_def)

lemma merge_runs_single:
  assumes "sorted_strict (map fst r)"
  shows "merge_runs [r] = r"
  using assms
proof (induction r)
  case Nil
  show ?case by (subst merge_runs.simps) simp
next
  case (Cons x r)
  have "dropWhile (\<lambda>y. fst y \<le> fst x) r = r" using Cons.prems by (cases r) (auto simp: not_le)
  then have "runs_after (fst x) [x # r] = [r]" by (simp add: runs_after_def)
  then show ?case
    using Cons by (subst merge_runs.simps) (simp add: min_key_of_def newer_def)
qed

section \<open>Weights\<close>

lemma sum_list_without:
  fixes f :: "'a \<Rightarrow> nat"
  assumes "distinct ps" and "set ps \<subseteq> {..< length xs}"
  shows "sum_list (map f (without ps xs)) + sum_list (map (\<lambda>i. f (xs ! i)) ps) = sum_list (map f xs)"
proof -
  have "sum_list (map f (nths xs A)) = (\<Sum>i \<in> {..< length xs} \<inter> A. f (xs ! i))" for A
  proof -
    have "zip xs [0 ..< length xs] = map (\<lambda>i. (xs ! i, i)) [0 ..< length xs]" by (rule nth_equalityI) simp_all
    then have "nths xs A = map (nth xs) (filter (\<lambda>i. i \<in> A) [0 ..< length xs])"
      by (simp add: nths_def filter_map comp_def)
    then show ?thesis by (simp add: comp_def sum_list_distinct_conv_sum_set Int_def conj_commute lessThan_def atLeast0LessThan)
  qed
  note this [of "- set ps"]
  moreover have "sum_list (map (\<lambda>i. f (xs ! i)) ps) = (\<Sum>i \<in> set ps. f (xs ! i))"
    using assms(1) by (simp add: sum_list_distinct_conv_sum_set)
  moreover have "sum_list (map f xs) = (\<Sum>i \<in> {..< length xs}. f (xs ! i))"
    by (simp add: sum_list_sum_nth atLeast0LessThan)
  moreover have "(\<Sum>i \<in> {..< length xs}. f (xs ! i)) = (\<Sum>i \<in> {..< length xs} \<inter> - set ps. f (xs ! i)) + (\<Sum>i \<in> set ps. f (xs ! i))"
    using sum.subset_diff [OF assms(2), of "\<lambda>i. f (xs ! i)"] by (simp add: Diff_eq)
  ultimately show ?thesis by simp
qed

section \<open>Replacing the tables of two levels\<close>

text \<open>The runs before and after those of levels \<open>i\<close> and \<open>i + 1\<close>.\<close>

definition runs_before :: "'c db \<Rightarrow> ghost \<Rightarrow> nat \<Rightarrow> run_entries list" where
  "runs_before db g i =
     entries (db_memtable db) # map (entries \<circ> snd) (rev (imm_memtables db)) @ concat (map rev (take i (g_runs g)))"

definition runs_behind :: "ghost \<Rightarrow> nat \<Rightarrow> run_entries list" where
  "runs_behind g i = concat (map rev (drop (Suc (Suc i)) (g_runs g)))"

lemma two_levels_split:
  assumes "Suc i < length xs"
  shows "xs[i := a, Suc i := b] = take i xs @ a # b # drop (Suc (Suc i)) xs"
  using assms by (intro nth_equalityI) (auto simp: nth_append nth_list_update nth_Cons intro!: arg_cong [where f = "nth xs"] split: nat.splits)

lemma db_runs_replace:
  assumes "Suc i < length (g_runs g)" and "g_runs g' = (g_runs g)[i := as', Suc i := bs']"
    and "db_memtable db' = db_memtable db" and "imm_memtables db' = imm_memtables db"
  shows "db_runs db' g' = runs_before db g i @ rev as' @ rev bs' @ runs_behind g i"
  using assms by (simp add: db_runs_def runs_before_def runs_behind_def two_levels_split)

lemma db_runs_two:
  assumes "Suc i < length (g_runs g)"
  shows "db_runs db g = runs_before db g i @ rev (g_runs g ! i) @ rev (g_runs g ! Suc i) @ runs_behind g i"
  by (rule db_runs_replace) (use assms in simp_all)

lemma total_weight_simps [simp]:
  "total_weight [] = 0" "total_weight (r # rs) = table_weight r + total_weight rs"
  "total_weight (rs @ rs') = total_weight rs + total_weight rs'" "total_weight (rev rs) = total_weight rs"
  by (simp_all add: total_weight_def rev_map [symmetric])

lemma levels_replaced:
  fixes db :: "'c db"
  assumes ok: "db_ok cf mode (Suc n) w db g" and i: "Suc i < num_levels (cf_params cf)"
    and s: "store_ok cf s m' T'" "ids_ok (cf_params cf) m' T'"
    and parent: "level_ok cf (st_fs s) i parent as' (T' i)" and child: "level_ok cf (st_fs s) (Suc i) child bs' (T' (Suc i))"
    and others: "\<forall>j < num_levels (cf_params cf). j \<noteq> i \<longrightarrow> j \<noteq> Suc i \<longrightarrow>
      T' j = g_ids g j \<and> level_ok cf (st_fs s) j (db_levels db ! j) (g_runs g ! j) (g_ids g j)"
    and wal: "\<And>k. st_fs s (wal_file_path (cf_params cf) k) = db_fs db (wal_file_path (cf_params cf) k)"
    and m': "seq_number_offset m' = seq_number_offset (g_meta g)" "log_offset m' = log_offset (g_meta g)"
      "unat (next_table_id m') \<le> Suc (unat (next_table_id (g_meta g)))"
      "unat (next_data_block_id m') \<le> unat (next_data_block_id (g_meta g)) + 2 ^ 33"
    and newest: "newest_first (runs_before db g i @ rev as' @ rev bs' @ runs_behind g i)"
    and look: "\<And>k. lookup_runs (runs_before db g i @ rev as' @ rev bs' @ runs_behind g i) k = lookup_runs (db_runs db g) k"
    and old: "\<forall>r \<in> set (as' @ bs'). \<forall>x \<in> set r. \<exists>r0 \<in> set (g_runs g ! i @ g_runs g ! Suc i). x \<in> set r0"
    and weight: "total_weight (as' @ bs') \<le> total_weight (g_runs g ! i @ g_runs g ! Suc i)"
  defines "db' \<equiv> db\<lparr> db_store := s, db_levels := (db_levels db)[i := parent, Suc i := child] \<rparr>"
    and "g' \<equiv> g\<lparr> g_runs := (g_runs g)[i := as', Suc i := bs'], g_meta := m', g_ids := T' \<rparr>"
  shows "db_ok cf mode n w db' g'" "db_contents db' g' = db_contents db g"
proof -
  note D = db_okD [OF ok]
  note L = levels_okD [OF D(3)]
  have len: "Suc i < length (g_runs g)" "Suc i < length (db_levels db)" using i L(1,2) by simp_all
  have runs: "db_runs db' g' = runs_before db g i @ rev as' @ rev bs' @ runs_behind g i"
    by (rule db_runs_replace) (use len in \<open>simp_all add: db'_def g'_def\<close>)
  show "db_contents db' g' = db_contents db g"
    using look by (simp add: db_contents_def runs visible_def fun_eq_iff)
  have "levels_ok cf (st_fs s) (db_levels db') (g_runs g') T'"
    unfolding levels_ok_def
  proof (intro conjI allI impI)
    fix j assume "j < length (db_levels db')"
    then have "j < num_levels (cf_params cf)" using L(1) by (simp add: db'_def)
    then show "level_ok cf (st_fs s) j (db_levels db' ! j) (g_runs g' ! j) (T' j)"
      using parent child others len by (auto simp: db'_def g'_def nth_list_update)
  qed (use L in \<open>simp_all add: db'_def g'_def\<close>)
  moreover have "mem_ok (db_memtable db') g'"
  proof -
    have mem: "g_runs g ! i \<in> set (g_runs g)" "g_runs g ! Suc i \<in> set (g_runs g)" using len(1) by simp_all
    have "entry_seq_number (snd x) < seq_number_offset (g_meta g)"
      if x: "rs \<in> set (g_runs g')" "r \<in> set rs" "x \<in> set r" for rs r x
    proof -
      have "rs \<in> set (g_runs g) \<or> rs = as' \<or> rs = bs'" using x(1) len by (auto simp: g'_def in_set_conv_nth nth_list_update split: if_splits)
      then have "\<exists>rs0 \<in> set (g_runs g). \<exists>r0 \<in> set rs0. x \<in> set r0"
        using x(2,3) bspec [OF bspec [OF old, of r], of x] mem unfolding set_append Un_iff by blast
      then show ?thesis using D(5) by (auto simp: mem_ok_def)
    qed
    then show ?thesis using D(5) by (simp add: mem_ok_def db'_def g'_def m'(1))
  qed
  moreover have "log_ok (cf_params cf) mode (st_fs s) (db_wal db') g'"
    using log_ok_frame [OF D(8) wal] m'(2) by (simp add: log_ok_def db'_def g'_def)
  moreover have "budget n w db' g'"
    using D(9) weight m'(3,4) by (simp add: budget_def runs db_runs_two [OF len(1)]) (simp add: db'_def g'_def)
  moreover have "newest_first (db_runs db' g')" using newest by (simp add: runs)
  moreover have "imm_ok (imm_memtables db) g'" using D(6) m'(1) by (simp add: imm_ok_def g'_def)
  ultimately show "db_ok cf mode n w db' g'" using D s by (simp add: db_ok_def) (simp add: db'_def g'_def)
qed

text \<open>A level without the tables that a compaction took, and with the one it built.\<close>

lemma without_ids:
  assumes "distinct (map tbl_identifier ts)" and "set ps \<subseteq> {..< length ts}"
  shows "set (map tbl_identifier (without ps ts)) = set (map tbl_identifier ts) - set (map (\<lambda>i. tbl_identifier (ts ! i)) ps)"
  by (auto simp: filter_positions [OF assms, symmetric])

lemma level_ok_without:
  assumes ok: "level_ok cf fs i lv rs S" and ps: "set ps \<subseteq> {..< length rs}" and lv': "level_frame lv lv'"
    "lv_tables lv' = without ps (lv_tables lv)"
  shows "level_ok cf fs i lv' (without ps rs) (S - set (map (\<lambda>j. tbl_identifier (lv_tables lv ! j)) ps))"
proof -
  note D = level_okD [OF ok]
  have "set (without ps (lv_tables lv)) \<subseteq> set (lv_tables lv)" by (rule set_nths_subset)
  moreover have "distinct (map tbl_identifier (without ps (lv_tables lv)))" "i = 0 \<Longrightarrow> sorted (map tbl_identifier (without ps (lv_tables lv)))"
    using D(5,8) unfolding map_nths by (auto intro: distinct_nthsI sorted_wrt_nths)
  moreover have "0 < i \<Longrightarrow> pairwise_apart (without ps rs)" using D(7) by (simp add: sorted_wrt_nths)
  moreover have "set ps \<subseteq> {..< length (lv_tables lv)}" using ps lv_holdsD(1) [OF D(1)] by simp
  ultimately show ?thesis
    using D lv' list_all2_nths [OF D(1)] without_ids [OF D(5)]
    by (auto simp: level_ok_def lv_holds_def level_frame_def)
qed

lemma level_ok_insert:
  assumes ok: "level_ok cf fs (Suc i) lv rs S" and t: "table_holds cf fs t r" "table_stored cf fs t" "\<not> compaction_flag t"
    and new: "tbl_identifier t \<notin> S" and apart: "pairwise_apart (take n rs @ r # drop n rs)"
    and lv': "level_frame lv lv'" "lv_tables lv' = take n (lv_tables lv) @ t # drop n (lv_tables lv)"
  shows "level_ok cf fs (Suc i) lv' (take n rs @ r # drop n rs) (insert (tbl_identifier t) S)"
proof -
  note D = level_okD [OF ok]
  have sets: "set (lv_tables lv') = insert t (set (lv_tables lv))" unfolding lv' by (rule insert_run_set)
  have "distinct (map tbl_identifier (take n (lv_tables lv)) @ map tbl_identifier (drop n (lv_tables lv)))"
    using D(5) by (simp flip: map_append)
  then have "distinct (map tbl_identifier (lv_tables lv'))"
    using new D(6) unfolding lv' by (auto dest: in_set_takeD in_set_dropD)
  moreover have "list_all2 (table_holds cf fs) (lv_tables lv') (take n rs @ r # drop n rs)"
    unfolding lv' using D(1) t(1) by (rule list_all2_insert)
  ultimately show ?thesis
    using D t lv'(1) apart sets by (auto simp: level_ok_def lv_holds_def level_frame_def)
qed

lemma level_ok_frame:
  assumes "level_ok cf fs i lv rs S" and "level_frame lv lv'" and "lv_tables lv' = lv_tables lv"
  shows "level_ok cf fs i lv' rs S"
  using assms by (simp add: level_ok_def lv_holds_def level_frame_def)

section \<open>The runs of a compaction\<close>

text \<open>What a compaction takes: tables \<open>ps\<close> of one level and \<open>qs\<close> of the next.\<close>

definition taken :: "nat \<Rightarrow> run_entries list \<Rightarrow> run_entries list \<Rightarrow> nat list \<Rightarrow> nat list \<Rightarrow> bool" where
  "taken i as bs ps qs \<longleftrightarrow>
     ps \<noteq> [] \<and> distinct ps \<and> set ps \<subseteq> {..< length as} \<and> distinct qs \<and> set qs \<subseteq> {..< length bs} \<and>
     (\<forall>k \<in> set ps. \<forall>j < length as. j \<notin> set ps \<longrightarrow> runs_apart (as ! k) (as ! j)) \<and>
     (\<forall>j < length bs. j \<notin> set qs \<longrightarrow>
        run_outside (hull_min (fst (hd (as ! hd ps))) (map (nth as) (tl ps) @ map (nth bs) qs))
          (hull_max (fst (last (as ! hd ps))) (map (nth as) (tl ps) @ map (nth bs) qs)) (bs ! j))"

lemma level_runs_sorted:
  assumes "level_ok cf fs i lv rs S"
  shows "sorted_runs rs" "\<forall>r \<in> set rs. r \<noteq> []"
  using lv_holdsD(3,4) [OF level_okD(1) [OF assms]] by (auto simp: in_set_conv_nth)

lemma taken_runs:
  fixes pos :: nat
  assumes ok: "db_ok cf mode n w db g" and i: "Suc i < num_levels (cf_params cf)"
  defines "as \<equiv> g_runs g ! i" and "bs \<equiv> g_runs g ! Suc i"
  assumes taken: "taken i as bs ps qs"
  defines "M \<equiv> merge_runs (map (nth as) ps @ map (nth bs) qs)"
  defines "as' \<equiv> without ps as" and "bs' \<equiv> take pos (without qs bs) @ M # drop pos (without qs bs)"
  shows "newest_first (runs_before db g i @ rev as' @ rev bs' @ runs_behind g i)"
    and "\<And>k. lookup_runs (runs_before db g i @ rev as' @ rev bs' @ runs_behind g i) k = lookup_runs (db_runs db g) k"
    and "\<forall>r \<in> set (as' @ bs'). \<forall>x \<in> set r. \<exists>r0 \<in> set (as @ bs). x \<in> set r0"
    and "total_weight (as' @ bs') \<le> total_weight (as @ bs)" and "pairwise_apart bs'"
    and "sorted_strict (map fst M)" "M \<noteq> []" "table_weight M \<le> total_weight (as @ bs)"
    and "fst (hd M) = hull_min (fst (hd (as ! hd ps))) (map (nth as) (tl ps) @ map (nth bs) qs)"
    and "fst (last M) = hull_max (fst (last (as ! hd ps))) (map (nth as) (tl ps) @ map (nth bs) qs)"
proof -
  note D = db_okD [OF ok] and t = taken [unfolded taken_def]
  note L = levels_okD [OF D(3)]
  have len: "Suc i < length (g_runs g)" using i L(1,2) by simp
  have lv: "level_ok cf (db_fs db) i (db_levels db ! i) as (g_ids g i)" "level_ok cf (db_fs db) (Suc i) (db_levels db ! Suc i) bs (g_ids g (Suc i))"
    using L(5) i L(1) by (simp_all add: as_def bs_def)
  note sorted = level_runs_sorted [OF lv(1)] level_runs_sorted [OF lv(2)]
  obtain p ps' where ps: "ps = p # ps'" using t by (cases ps) auto
  let ?rs = "map (nth as) ps' @ map (nth bs) qs"
  have all: "map (nth as) ps @ map (nth bs) qs = (as ! p) # ?rs" by (simp add: ps)
  have sub: "set ((as ! p) # ?rs) \<subseteq> set (as @ bs)" using t by (auto simp: ps subset_iff)
  then have sr: "sorted_runs ((as ! p) # ?rs)" "\<forall>q \<in> set ((as ! p) # ?rs). q \<noteq> []" using sorted by (auto simp: subset_iff)
  note mr = merge_range [OF sr]
  show M: "M \<noteq> []" "fst (hd M) = hull_min (fst (hd (as ! hd ps))) (map (nth as) (tl ps) @ map (nth bs) qs)"
    "fst (last M) = hull_max (fst (last (as ! hd ps))) (map (nth as) (tl ps) @ map (nth bs) qs)"
    using mr by (simp_all add: M_def ps)
  note mc = merge_runs_correct [OF sr(1), folded all, folded M_def]
  then show "sorted_strict (map fst M)" by simp
  have M_sub: "\<exists>r0 \<in> set (as @ bs). x \<in> set r0" if "x \<in> set M" for x using mc that sub unfolding all by blast
  show "\<forall>r \<in> set (as' @ bs'). \<forall>x \<in> set r. \<exists>r0 \<in> set (as @ bs). x \<in> set r0"
  proof (intro ballI)
    fix r x assume that: "r \<in> set (as' @ bs')" "x \<in> set r"
    have "r = M \<or> r \<in> set as \<or> r \<in> set bs"
      using that(1) set_nths_subset [of as] set_nths_subset [of bs] insert_run_set [of pos "without qs bs" M]
      unfolding as'_def bs'_def set_append by blast
    then show "\<exists>r0 \<in> set (as @ bs). x \<in> set r0" using that(2) M_sub [of x] by auto
  qed
  have wM: "table_weight M \<le> sum_list (map (\<lambda>j. table_weight (as ! j)) ps) + sum_list (map (\<lambda>j. table_weight (bs ! j)) qs)"
    using merge_runs_sum [of entry_weight "map (nth as) ps @ map (nth bs) qs"] by (simp add: M_def table_weight_def comp_def)
  have w: "total_weight (without ps as) + sum_list (map (\<lambda>j. table_weight (as ! j)) ps) = total_weight as"
    "total_weight (without qs bs) + sum_list (map (\<lambda>j. table_weight (bs ! j)) qs) = total_weight bs"
    using sum_list_without [of ps as table_weight] sum_list_without [of qs bs table_weight] t by (simp_all add: total_weight_def)
  then show "table_weight M \<le> total_weight (as @ bs)" using wM by simp
  have "total_weight bs' = table_weight M + total_weight (without qs bs)"
    using total_weight_simps(3) [of "take pos (without qs bs)" "drop pos (without qs bs)"] by (simp add: bs'_def del: total_weight_simps(3)) simp
  then show "total_weight (as' @ bs') \<le> total_weight (as @ bs)" using wM w by (simp add: as'_def)
  have "newest_first (runs_before db g i @ rev as @ rev bs @ runs_behind g i)"
    using D(7) by (simp add: db_runs_two [OF len] as_def bs_def)
  note cr = compaction_runs [OF this sorted(1,3), of ps qs pos, folded M_def]
  have ne: "\<forall>r \<in> set (as @ bs). r \<noteq> []" using sorted by auto
  have closed: "\<And>k j. k \<in> set ps \<Longrightarrow> j < length as \<Longrightarrow> j \<notin> set ps \<Longrightarrow> runs_apart (as ! k) (as ! j)" using t by blast
  have out: "\<And>j. j < length bs \<Longrightarrow> j \<notin> set qs \<Longrightarrow> run_outside (fst (hd M)) (fst (last M)) (bs ! j)"
    using t unfolding M by blast
  have apart: "pairwise_apart bs" using level_okD(7) [OF lv(2)] by simp
  note cr = cr [OF ne _ _ _ closed apart out, folded as'_def bs'_def]
  show "newest_first (runs_before db g i @ rev as' @ rev bs' @ runs_behind g i)" "pairwise_apart bs'"
    using cr(1,3) t by blast+
  show "lookup_runs (runs_before db g i @ rev as' @ rev bs' @ runs_behind g i) k = lookup_runs (db_runs db g) k" for k
    using cr(2) t by (simp add: db_runs_two [OF len] as_def bs_def)
qed

section \<open>Moving a table to the next level\<close>

lemma without_one: "p < length xs \<Longrightarrow> without [p] xs = take p xs @ drop (Suc p) xs"
proof -
  assume p: "p < length xs"
  have "without [p] (take p xs @ xs ! p # drop (Suc p) xs) = take p xs @ drop (Suc p) xs"
    using p by (auto simp: nths_append nths_Cons nths_all)
  then show ?thesis using p by (simp add: id_take_nth_drop [symmetric])
qed

lemma find_table_unique:
  assumes "distinct (map tbl_identifier ts)" and "p < length ts"
  shows "find_table ts (tbl_identifier (ts ! p)) = Some p"
proof -
  obtain q where q: "find_table ts (tbl_identifier (ts ! p)) = Some q"
    using assms(2) find_table_None [of ts "tbl_identifier (ts ! p)"] nth_mem by (cases "find_table ts (tbl_identifier (ts ! p))") blast+
  then have "q = p" using find_table_Some [OF q] nth_eq_iff_index_eq [OF assms(1), of q p] assms(2) by simp
  then show ?thesis using q by simp
qed

lemma remove_only_placeholder: "map ph_id phs = [i] \<Longrightarrow> remove_placeholder phs i = Inr []"
  by auto

text \<open>What a change of the level files in the manifest keeps.\<close>

lemma update_store_ok:
  assumes ok: "store_ok cf s m T" and man: "manifest_ok False (cf_params cf) fs' m T'"
    and fs': "\<And>q. (\<forall>i. q \<noteq> level_path (cf_params cf) i) \<Longrightarrow> fs' q = st_fs s q"
  shows "store_ok cf (s\<lparr> st_fs := fs' \<rparr>) m T'" "tables_kept (cf_params cf) tid (st_fs s) fs'"
    "fs' (wal_file_path (cf_params cf) k) = st_fs s (wal_file_path (cf_params cf) k)"
  using store_ok_frame [OF ok man] fs' tables_kept_frames(3) [OF fs'] by simp_all

lemma unat_level: "i < num_levels p \<Longrightarrow> num_levels p \<le> 15 \<Longrightarrow> unat (of_nat i :: u32) = i"
  by (simp add: unat_of_nat)

text \<open>The table sets after a compaction.\<close>

definition moved_ids :: "(nat \<Rightarrow> u64 set) \<Rightarrow> nat \<Rightarrow> u64 set \<Rightarrow> u64 set \<Rightarrow> u64 \<Rightarrow> nat \<Rightarrow> u64 set" where
  "moved_ids T i A B tid = T(i := T i - A, Suc i := insert tid (T (Suc i) - B))"

lemma moved_ids_ok:
  assumes ok: "ids_ok p m T" and i: "Suc i < num_levels p" and tid: "tid \<noteq> 0" "tid < next_table_id m'"
    and m': "next_table_id m \<le> next_table_id m'" and new: "\<And>j. j < num_levels p \<Longrightarrow> tid \<in> T j \<Longrightarrow> j = i \<and> tid \<in> A"
  shows "ids_ok p m' (moved_ids T i A B tid)"
proof -
  let ?T = "moved_ids T i A B tid"
  have sub: "x \<in> T j \<or> (j = Suc i \<and> x = tid)" if "x \<in> ?T j" for x j
    using that by (auto simp: moved_ids_def split: if_splits)
  have notin: "tid \<notin> ?T j" if "j < num_levels p" "j \<noteq> Suc i" for j
  proof (cases "j = i")
    case True
    then show ?thesis using new [of i] i by (auto simp: moved_ids_def)
  next
    case False
    then show ?thesis using new [OF that(1)] that(2) by (auto simp: moved_ids_def)
  qed
  have T: "x \<noteq> 0" "x < next_table_id m" if "j < num_levels p" "x \<in> T j" for j x
    using ok that by (auto simp: ids_ok_def)
  have "0 < next_table_id m'" using ok m' by (auto simp: ids_ok_def intro: less_le_trans)
  moreover have "x \<noteq> 0 \<and> x < next_table_id m'" if "j < num_levels p" "x \<in> ?T j" for j x
    using sub [OF that(2)] T [OF that(1), of x] tid m' by (auto intro: less_le_trans)
  moreover have "?T j \<inter> ?T k = {}" if jk: "j < num_levels p" "k < num_levels p" "j \<noteq> k" for j k
  proof (intro equals0I)
    fix x assume x: "x \<in> ?T j \<inter> ?T k"
    have "T j \<inter> T k = {}" using ok jk by (simp add: ids_ok_def)
    then show False using x sub [of x j] sub [of x k] notin [of j] notin [of k] jk by auto
  qed
  ultimately show ?thesis by (simp add: ids_ok_def)
qed

lemma fast_compaction_run:
  assumes lv: "db_levels db1 ! i = parent" "db_levels db1 ! Suc i = child" "db_logger db1 = None"
    and ts: "lv_tables parent = mark_tables [p] ts" "distinct (map tbl_identifier ts)" "p < length ts"
    and phs: "map ph_id (table_placeholders child) = [tbl_identifier (ts ! p)]"
    and holds: "table_get_min (ts ! p) = Inr mn" "insert_pos (lv_tables child) mn 0 0 = Inr pos" "pos \<le> length (lv_tables child)"
    and upd: "update_table_set (cf_params cf) (db_fs db1) [(lv_index child, tbl_identifier (ts ! p))]
       [(lv_index parent, tbl_identifier (ts ! p))] = Inr fs'"
  defines "child' \<equiv> child\<lparr> lv_tables := take pos (lv_tables child) @ (ts ! p)\<lparr> compaction_flag := False \<rparr> # drop pos (lv_tables child),
                            table_placeholders := [] \<rparr>"
    and "parent' \<equiv> parent\<lparr> lv_tables := without [p] ts \<rparr>"
  shows "fast_compaction cf db1 i (tbl_identifier (ts ! p)) = Inr (set_level (set_level (with_fs db1 fs') i parent') (i + 1) child')"
proof -
  let ?id = "tbl_identifier (ts ! p)" and ?t = "(ts ! p)\<lparr> compaction_flag := True \<rparr>"
  have mark: "mark_tables [p] ts ! p = ?t" using ts(3) by simp
  have find: "find_table (mark_tables [p] ts) ?id = Some p"
    using find_table_unique [of "mark_tables [p] ts" p] ts by simp
  have rest: "take p (mark_tables [p] ts) @ drop (Suc p) (mark_tables [p] ts) = without [p] ts"
    using without_one [of p "mark_tables [p] ts"] ts(3) mark_tables_without [of "[p]" ts] by simp
  have "?id \<notin> set (map tbl_identifier (without [p] ts))" using without_ids [OF ts(2), of "[p]"] ts(3) by simp
  then have gone: "find_table (without [p] ts) ?id = None" by (auto simp: find_table_None image_iff)
  have mn: "table_get_min ?t = Inr mn" using holds(1) by (simp add: table_get_min_def)
  show ?thesis
    using find rest gone mn holds(2,3) upd lv(3) ts(1,3) remove_only_placeholder [OF phs]
    by (simp add: fast_compaction_def lv(1,2) expect_def vec_remove_def vec_insert_def remove_table_placeholder_def with_logger_def
        finish_fast_compaction_def assert_that_def child'_def parent'_def list_update_append nth_append)
      (cases db1, cases child, simp)
qed

lemma ids_on_map: "ids_on (map (\<lambda>t. (l, f t)) xs) j = (if unat l = j then f ` set xs else {})"
  by (induction xs) auto

lemma ids_on_append: "ids_on (xs @ ys) j = ids_on xs j \<union> ids_on ys j"
  by (auto simp: ids_on_def)

lemma table_stored_flag [simp]: "table_stored cf fs (t\<lparr> compaction_flag := b \<rparr>) \<longleftrightarrow> table_stored cf fs t"
  by (simp add: table_stored_def)

lemma ids_okD:
  assumes "ids_ok p m T" and "j < num_levels p" and "x \<in> T j"
  shows "x \<noteq> 0" "x < next_table_id m" "k < num_levels p \<Longrightarrow> x \<in> T k \<Longrightarrow> k = j"
  using assms unfolding ids_ok_def by blast+

lemma level_numbers:
  assumes "levels_ok cf fs lvs rss T" and "Suc i < num_levels (cf_params cf)"
  shows "lv_index (lvs ! i) = of_nat i" "lv_index (lvs ! Suc i) = of_nat (Suc i)"
    "unat (of_nat i :: u32) = i" "unat (of_nat (Suc i) :: u32) = Suc i"
proof -
  note L = levels_okD [OF assms(1)]
  show "lv_index (lvs ! i) = of_nat i" "lv_index (lvs ! Suc i) = of_nat (Suc i)"
    using level_okD(2) [OF L(5)] assms(2) L(1) by simp_all
  show "unat (of_nat i :: u32) = i" "unat (of_nat (Suc i) :: u32) = Suc i"
    using assms(2) L(1,4) unat_level [of i "cf_params cf"] unat_level [of "Suc i" "cf_params cf"] by (simp_all del: of_nat_Suc)
qed

text \<open>The state after a compaction that put the table \<open>t\<close> in the place of the tables it took.\<close>

lemma compaction_installed:
  fixes db :: "'c db"
  assumes ok: "db_ok cf mode (Suc n) w db g" and i: "Suc i < num_levels (cf_params cf)"
    and taken: "taken i (g_runs g ! i) (g_runs g ! Suc i) ps qs"
  defines "ts \<equiv> lv_tables (db_levels db ! i)" and "us \<equiv> lv_tables (db_levels db ! Suc i)"
  defines "A \<equiv> set (map (\<lambda>j. tbl_identifier (ts ! j)) ps)" and "B \<equiv> set (map (\<lambda>j. tbl_identifier (us ! j)) qs)"
    and "M \<equiv> merge_runs (map (nth (g_runs g ! i)) ps @ map (nth (g_runs g ! Suc i)) qs)"
  assumes s: "store_ok cf s m' (moved_ids (g_ids g) i A B (tbl_identifier t))"
    and kept: "tables_kept (cf_params cf) tid (db_fs db) (st_fs s)" "\<And>j. j < num_levels (cf_params cf) \<Longrightarrow> tid \<notin> g_ids g j"
    and wal: "\<And>k. st_fs s (wal_file_path (cf_params cf) k) = db_fs db (wal_file_path (cf_params cf) k)"
    and m': "seq_number_offset m' = seq_number_offset (g_meta g)" "log_offset m' = log_offset (g_meta g)"
      "next_table_id (g_meta g) \<le> next_table_id m'" "unat (next_table_id m') \<le> Suc (unat (next_table_id (g_meta g)))"
      "unat (next_data_block_id m') \<le> unat (next_data_block_id (g_meta g)) + 2 ^ 33"
    and t: "table_holds cf (st_fs s) t M" "table_stored cf (st_fs s) t" "\<not> compaction_flag t"
      "tbl_identifier t \<noteq> 0" "tbl_identifier t < next_table_id m'"
      "\<And>j. j < num_levels (cf_params cf) \<Longrightarrow> tbl_identifier t \<in> g_ids g j \<Longrightarrow> j = i \<and> tbl_identifier t \<in> A"
    and parent: "level_frame (db_levels db ! i) parent" "lv_tables parent = without ps ts"
    and child: "level_frame (db_levels db ! Suc i) child" "lv_tables child = take pos (without qs us) @ t # drop pos (without qs us)"
  shows "\<exists>g'. db_ok cf mode n w (db\<lparr> db_store := s, db_levels := (db_levels db)[i := parent, Suc i := child] \<rparr>) g' \<and>
     same_db (db\<lparr> db_store := s, db_levels := (db_levels db)[i := parent, Suc i := child] \<rparr>) g' db g"
proof -
  note D = db_okD [OF ok]
  note L = levels_okD [OF D(3)]
  define as bs where ab: "as = g_runs g ! i" "bs = g_runs g ! Suc i"
  let ?T = "moved_ids (g_ids g) i A B (tbl_identifier t)"
  have lv: "level_ok cf (st_fs s) j (db_levels db ! j) (g_runs g ! j) (g_ids g j)" if "j < num_levels (cf_params cf)" for j
    using level_ok_kept [OF kept(1) L(5)] kept(2) that L(1) by simp
  have lvi: "level_ok cf (st_fs s) i (db_levels db ! i) as (g_ids g i)" using lv [of i] i by (simp add: ab)
  have lvj: "level_ok cf (st_fs s) (Suc i) (db_levels db ! Suc i) bs (g_ids g (Suc i))" using lv [OF i] by (simp add: ab)
  note tr = taken_runs(1-5) [OF ok i taken, where pos = pos, folded ab, folded M_def [folded ab]]
  have sub: "set ps \<subseteq> {..< length as}" "set qs \<subseteq> {..< length bs}" using taken by (simp_all add: taken_def ab)
  have lvp: "level_ok cf (st_fs s) i parent (without ps as) (?T i)"
    using level_ok_without [OF lvi sub(1) parent(1)] parent(2) by (simp add: moved_ids_def A_def ts_def)
  define mid where "mid = child\<lparr> lv_tables := without qs us \<rparr>"
  have lvm: "level_ok cf (st_fs s) (Suc i) mid (without qs bs) (g_ids g (Suc i) - B)"
    using level_ok_without [OF lvj sub(2), of mid] child(1) by (simp add: mid_def us_def B_def level_frame_def)
  have "tbl_identifier t \<notin> g_ids g (Suc i)" using t(6) [OF i] by auto
  then have "level_ok cf (st_fs s) (Suc i) child (take pos (without qs bs) @ M # drop pos (without qs bs))
      (insert (tbl_identifier t) (g_ids g (Suc i) - B))"
    by (intro level_ok_insert [OF lvm t(1,2,3)]) (use tr(5) child(2) in \<open>auto simp: mid_def level_frame_def\<close>)
  then have lvc: "level_ok cf (st_fs s) (Suc i) child (take pos (without qs bs) @ M # drop pos (without qs bs)) (?T (Suc i))"
    by (simp add: moved_ids_def)
  have ids: "ids_ok (cf_params cf) m' ?T" by (rule moved_ids_ok [OF D(4) i t(4,5) m'(3) t(6)])
  have others: "\<forall>j < num_levels (cf_params cf). j \<noteq> i \<longrightarrow> j \<noteq> Suc i \<longrightarrow>
      ?T j = g_ids g j \<and> level_ok cf (st_fs s) j (db_levels db ! j) (g_runs g ! j) (g_ids g j)"
    using lv by (simp add: moved_ids_def)
  show ?thesis
    using levels_replaced [OF ok i s ids lvp [unfolded ab] lvc [unfolded ab] others wal m'(1,2,4,5) tr(1,2,3,4) [unfolded ab]]
    by (intro exI [of _ "g\<lparr> g_runs := (g_runs g)[i := without ps as, Suc i := take pos (without qs bs) @ M # drop pos (without qs bs)],
        g_meta := m', g_ids := ?T \<rparr>"]) (simp add: same_db_def ab)
qed

lemma fast_compaction_ok:
  fixes db :: "'c db"
  assumes ok: "db_ok cf mode (Suc n) w db g" and i: "Suc i < num_levels (cf_params cf)"
    and taken: "taken i (g_runs g ! i) (g_runs g ! Suc i) [p] []"
  defines "ts \<equiv> lv_tables (db_levels db ! i)"
  assumes parent: "level_frame (db_levels db ! i) parent" "lv_tables parent = mark_tables [p] ts"
    and child: "child = (db_levels db ! Suc i)\<lparr> table_placeholders := phs \<rparr>" "map ph_id phs = [tbl_identifier (ts ! p)]"
  shows "\<exists>db' g'. fast_compaction cf (set_level (set_level db i parent) (i + 1) child) i (tbl_identifier (ts ! p)) = Inr db' \<and>
     db_ok cf mode n w db' g' \<and> same_db db' g' db g"
proof -
  note D = db_okD [OF ok]
  note L = levels_okD [OF D(3)] and N = level_numbers [OF D(3) i]
  define us where "us = lv_tables (db_levels db ! Suc i)"
  define id0 where "id0 = tbl_identifier (ts ! p)"
  have len: "i < length (db_levels db)" "Suc i < length (db_levels db)" using i L(1) by simp_all
  note P = level_okD [OF L(5) [OF len(1)], folded ts_def] and C = level_okD [OF L(5) [OF len(2)], folded us_def]
  have p: "p < length (g_runs g ! i)" "p < length ts" using taken lv_holdsD(1) [OF P(1)] by (simp_all add: taken_def)
  have holds: "table_holds cf (db_fs db) (ts ! p) (g_runs g ! i ! p)" using lv_holdsD(2) [OF P(1) p(1)] .
  note T = table_holdsD [OF holds]
  obtain pos where pos: "insert_pos us (fst (hd (g_runs g ! i ! p))) 0 0 = Inr pos" "pos \<le> length us"
    using insert_pos_ok [OF C(1), of 0 0] by auto
  have id0: "id0 \<in> g_ids g i" using P(6) p(2) by (simp add: id0_def)
  note ids = ids_okD [OF D(4) _ id0]
  let ?add = "[(of_nat (Suc i), id0)] :: (u32 \<times> u64) list" and ?remove = "[(of_nat i, id0)] :: (u32 \<times> u64) list"
  have "id0 \<notin> g_ids g (Suc i)" using ids(3) [of "Suc i"] i by auto
  then obtain fs' where fs': "update_table_set (cf_params cf) (db_fs db) ?add ?remove = Inr fs'"
      "manifest_ok False (cf_params cf) fs' (g_meta g) (\<lambda>j. g_ids g j \<union> ids_on ?add j - ids_on ?remove j)"
      "\<And>q. (\<forall>i. q \<noteq> level_path (cf_params cf) i) \<Longrightarrow> fs' q = db_fs db q"
    using update_table_set_ok [OF store_okD(4) [OF D(2)], of ?add ?remove] ids(1) id0 i N(3,4) by (auto simp del: of_nat_Suc)
  have "(\<lambda>j. g_ids g j \<union> ids_on ?add j - ids_on ?remove j) = moved_ids (g_ids g) i {id0} {} id0"
    using N(3,4) by (auto simp: moved_ids_def fun_eq_iff simp del: of_nat_Suc)
  note st = update_store_ok [OF D(2) fs'(2,3) [unfolded this]]
  define t where "t = (ts ! p)\<lparr> compaction_flag := False \<rparr>"
  define parent' where "parent' = parent\<lparr> lv_tables := without [p] ts \<rparr>"
  define child' where "child' = child\<lparr> lv_tables := take pos us @ t # drop pos us, table_placeholders := [] \<rparr>"
  define db1 where "db1 = set_level (set_level db i parent) (i + 1) child"
  have run: "fast_compaction cf db1 i id0 = Inr (set_level (set_level (with_fs db1 fs') i parent') (i + 1) child')"
    using fast_compaction_run [of db1 i parent child p ts "fst (hd (g_runs g ! i ! p))" pos cf fs'] len D(10) parent child T(3) P(5) p(2) pos fs'(1) N
    by (simp add: db1_def id0_def level_frame_def us_def parent'_def child'_def t_def del: of_nat_Suc)
  have t: "table_holds cf fs' t (g_runs g ! i ! p)" "table_stored cf fs' t"
    using holds table_holds_kept st(2) [of 0] table_stored_kept [OF st(2), of "ts ! p" 0] P(9) p(2) ids(1) i
    by (auto simp: tables_kept_def t_def id0_def)
  have zero: "0 \<notin> g_ids g j" if "j < num_levels (cf_params cf)" for j using ids_okD(1) [OF D(4) that] by blast
  have "\<exists>g'. db_ok cf mode n w (db\<lparr> db_store := (db_store db)\<lparr> st_fs := fs' \<rparr>, db_levels := (db_levels db)[i := parent', Suc i := child'] \<rparr>) g' \<and>
     same_db (db\<lparr> db_store := (db_store db)\<lparr> st_fs := fs' \<rparr>, db_levels := (db_levels db)[i := parent', Suc i := child'] \<rparr>) g' db g"
    by (rule compaction_installed [OF ok i taken, of _ "g_meta g" t 0])
      (use st(1) st(2) [of 0] st(3) zero t ids i parent child C(4) merge_runs_single [OF T(2)] in
        \<open>auto simp: t_def id0_def ts_def us_def parent'_def child'_def level_frame_def nths_all\<close>)
  moreover have "set_level (set_level (with_fs db1 fs') i parent') (i + 1) child' =
      db\<lparr> db_store := (db_store db)\<lparr> st_fs := fs' \<rparr>, db_levels := (db_levels db)[i := parent', Suc i := child'] \<rparr>"
    by (cases db) (simp add: db1_def list_update_swap)
  ultimately show ?thesis using run by (auto simp: db1_def id0_def)
qed

section \<open>Merging tables\<close>

lemma iterators_ok:
  assumes "list_all2 (table_holds cf fs) ts rs"
  shows "\<exists>its. map_result (\<lambda>t. table_iterator_new cf fs t False) ts = Inr its \<and> list_all2 (ti_delivers cf fs) its rs"
  using assms
proof (induction ts arbitrary: rs)
  case (Cons t ts)
  then obtain r rs' where rs: "rs = r # rs'" "table_holds cf fs t r" "list_all2 (table_holds cf fs) ts rs'"
    by (auto simp: list_all2_Cons1)
  then show ?case using Cons.IH [OF rs(3)] table_iterator_new_ok [OF rs(2), of False] by auto
qed simp

lemma picked_holds:
  assumes "list_all2 (table_holds cf fs) ts rs" and "set ps \<subseteq> {..< length rs}"
  shows "list_all2 (table_holds cf fs) (map (nth (mark_tables qs ts)) ps) (map (nth rs) ps)"
proof -
  have "table_holds cf fs (mark_tables qs ts ! i) (rs ! i)" if "i \<in> set ps" for i
    using lv_holdsD(2) [OF mark_tables_holds [OF assms(1), of qs], of i] that assms(2) by auto
  then show ?thesis by (simp add: list_all2_map1 list_all2_map2 list_all2_same)
qed

text \<open>The merge loop and \<open>table_finish\<close> build the table of the merged runs.\<close>

lemma merged_table_ok:
  assumes ok: "store_ok cf s m T" and its: "list_all2 (ti_delivers cf (st_fs s)) its rs"
    and M: "merge_runs rs \<noteq> []" "sorted_strict (map fst (merge_runs rs))" and fits: "table_weight (merge_runs rs) + 100 < 2 ^ 32"
    and seeks: "seeks_fit (cf_params cf)" and ids: "unat (next_data_block_id m) + 2 ^ 33 < 2 ^ 64 - 1"
  defines "p \<equiv> cf_params cf"
  shows "\<exists>s' t m' stb. merge_loop cf s (table_builder_new cf tid (fst (hd (merge_runs rs))) (fst (last (merge_runs rs)))) its None = Some (Inr stb) \<and>
     table_finish cf stb = Inr (s', t) \<and> store_ok cf s' m' T \<and> blocks_drawn m (2 ^ 33) m' \<and>
     tables_kept p tid (st_fs s) (st_fs s') \<and> table_stored cf (st_fs s') t \<and> table_holds cf (st_fs s') t (merge_runs rs) \<and>
     tbl_identifier t = tid \<and> \<not> compaction_flag t \<and> (\<forall>i. st_fs s' (wal_file_path p i) = st_fs s (wal_file_path p i))"
proof -
  have "length (merge_runs rs) < 2 ^ 32" using table_entries_le_weight [of "merge_runs rs"] fits by simp
  then have "merge_loop cf s (table_builder_new cf tid (fst (hd (merge_runs rs))) (fst (last (merge_runs rs)))) its None =
      Some (fold_result (table_add cf) (s, table_builder_new cf tid (fst (hd (merge_runs rs))) (fst (last (merge_runs rs)))) (merge_runs rs))"
    using merge_loop_ok [OF its ok table_building_new [OF store_okD(1) [OF ok]], of None tid] fits ids
    by (simp add: runs_from_def table_fits_def)
  then show ?thesis using build_parts_ok [OF ok M fits seeks ids, of tid] unfolding p_def by auto
qed

text \<open>The range, the iterators and the new table of a merge.\<close>

lemma merge_inputs_ok:
  fixes db :: "'c db"
  assumes ok: "db_ok cf mode (Suc n) w db g" and i: "Suc i < num_levels (cf_params cf)"
    and taken: "taken i (g_runs g ! i) (g_runs g ! Suc i) ps qs"
  defines "p \<equiv> cf_params cf" and "as \<equiv> g_runs g ! i" and "bs \<equiv> g_runs g ! Suc i"
  defines "parents \<equiv> map (nth (mark_tables ps (lv_tables (db_levels db ! i)))) ps"
    and "children \<equiv> map (nth (mark_tables qs (lv_tables (db_levels db ! Suc i)))) qs"
    and "tid \<equiv> next_table_id (g_meta g)" and "m1 \<equiv> (g_meta g)\<lparr> next_table_id := next_table_id (g_meta g) + 1 \<rparr>"
    and "M \<equiv> merge_runs (map (nth (g_runs g ! i)) ps @ map (nth (g_runs g ! Suc i)) qs)"
  defines "fs1 \<equiv> store_meta p (db_fs db) m1"
  shows "\<exists>its s2 t m2 stb.
     table_range (hull_min (fst (hd (as ! hd ps))) (map (nth as) (tl ps)), hull_max (fst (last (as ! hd ps))) (map (nth as) (tl ps))) children =
       Inr (fst (hd M), fst (last M)) \<and> fst (hd M) \<le> fst (last M) \<and>
     map_result (\<lambda>t. table_iterator_new cf fs1 t False) (parents @ children) = Inr its \<and>
     merge_loop cf ((db_store db)\<lparr> st_fs := fs1 \<rparr>) (table_builder_new cf tid (fst (hd M)) (fst (last M))) its None = Some (Inr stb) \<and>
     table_finish cf stb = Inr (s2, t) \<and> store_ok cf s2 m2 (g_ids g) \<and> blocks_drawn m1 (2 ^ 33) m2 \<and>
     tables_kept p tid (db_fs db) (st_fs s2) \<and> table_stored cf (st_fs s2) t \<and> table_holds cf (st_fs s2) t M \<and>
     tbl_identifier t = tid \<and> \<not> compaction_flag t \<and> (\<forall>k. st_fs s2 (wal_file_path p k) = db_fs db (wal_file_path p k))"
proof -
  note D = db_okD [OF ok] and t = taken [unfolded taken_def, folded as_def bs_def]
  note L = levels_okD [OF D(3)]
  have len: "i < length (db_levels db)" "Suc i < length (db_levels db)" using i L(1) by simp_all
  note P = level_okD [OF L(5) [OF len(1)], folded as_def] and C = level_okD [OF L(5) [OF len(2)], folded bs_def]
  have B: "unat tid < 2 ^ 64 - 1" "unat (next_data_block_id (g_meta g)) + 2 ^ 33 < 2 ^ 64 - 1"
    using D(9) by (simp_all add: budget_def tid_def)
  note id1 = new_table_id_ok [OF D(2) B(1) [unfolded tid_def], folded p_def m1_def, folded fs1_def]
  note kept1 = tables_kept_frames(2) [of p _ "db_fs db" m1, folded fs1_def]
  have hP: "list_all2 (table_holds cf fs1) (lv_tables (db_levels db ! i)) as"
    and hC: "list_all2 (table_holds cf fs1) (lv_tables (db_levels db ! Suc i)) bs"
    using P(1) C(1) kept1 [of 0] by (auto simp: tables_kept_def p_def elim!: list_all2_mono intro: table_holds_kept)
  note tr = taken_runs(6-10) [OF ok i taken, folded M_def, folded as_def bs_def]
  have "total_weight (as @ bs) \<le> total_weight (db_runs db g)"
    using len(2) L(2) by (simp add: db_runs_two [of i g db] as_def bs_def)
  then have fits: "table_weight M + 100 < 2 ^ 32" using tr(3) D(9) by (simp add: budget_def)
  have hp: "list_all2 (table_holds cf fs1) parents (map (nth as) ps)" "list_all2 (table_holds cf fs1) children (map (nth bs) qs)"
    using picked_holds [OF hP, of ps] picked_holds [OF hC, of qs] t by (simp_all add: parents_def children_def)
  have range: "table_range (hull_min (fst (hd (as ! hd ps))) (map (nth as) (tl ps)), hull_max (fst (last (as ! hd ps))) (map (nth as) (tl ps)))
      children = Inr (fst (hd M), fst (last M))"
    using table_range_ok [OF hp(2)] tr(4,5) by (simp add: hull_append)
  have le: "fst (hd M) \<le> fst (last M)" using chunk_hd_le [OF tr(1), of "last M"] tr(2) by simp
  obtain its where its: "map_result (\<lambda>t. table_iterator_new cf fs1 t False) (parents @ children) = Inr its"
      "list_all2 (ti_delivers cf fs1) its (map (nth as) ps @ map (nth bs) qs)"
    using iterators_ok [OF list_all2_appendI [OF hp]] by blast
  obtain s2 t m2 stb where
      "merge_loop cf ((db_store db)\<lparr> st_fs := fs1 \<rparr>) (table_builder_new cf tid (fst (hd M)) (fst (last M))) its None = Some (Inr stb)"
      "table_finish cf stb = Inr (s2, t)" "store_ok cf s2 m2 (g_ids g)" "blocks_drawn m1 (2 ^ 33) m2" "tables_kept p tid fs1 (st_fs s2)"
      "table_stored cf (st_fs s2) t" "table_holds cf (st_fs s2) t M" "tbl_identifier t = tid" "\<not> compaction_flag t"
      "\<And>k. st_fs s2 (wal_file_path p k) = fs1 (wal_file_path p k)"
    using merged_table_ok [OF id1(2), of its "map (nth as) ps @ map (nth bs) qs" tid] its(2) tr(1,2) fits D(1) B(2)
    by (auto simp: M_def as_def bs_def m1_def p_def)
  then show ?thesis using range le its(1) id1(3) tables_kept_trans [OF kept1] by metis
qed

text \<open>The update of the manifest.\<close>

lemma picked_ids:
  assumes "distinct (map tbl_identifier ts)" and "distinct ps" "set ps \<subseteq> {..< length ts}"
  shows "map tbl_identifier (map (nth (mark_tables qs ts)) ps) = map (\<lambda>j. tbl_identifier (ts ! j)) ps"
    "distinct (map (\<lambda>j. tbl_identifier (ts ! j)) ps)"
proof -
  show "map tbl_identifier (map (nth (mark_tables qs ts)) ps) = map (\<lambda>j. tbl_identifier (ts ! j)) ps"
    using assms(3) by (auto simp: subset_iff)
  have "inj_on (\<lambda>j. tbl_identifier (ts ! j)) (set ps)"
    using nth_eq_iff_index_eq [OF assms(1)] assms(3) by (auto simp: inj_on_def subset_iff)
  then show "distinct (map (\<lambda>j. tbl_identifier (ts ! j)) ps)" using assms(2) by (simp add: distinct_map)
qed

lemma merge_update_ok:
  assumes ok: "store_ok cf s m T" and ids: "ids_ok (cf_params cf) m0 T" and i: "Suc i < num_levels (cf_params cf)"
    and lv: "unat l = i" "unat l' = Suc i" and tid: "tid \<noteq> 0" "tid \<notin> T (Suc i)"
    and A: "distinct A" "set A \<subseteq> T i" and B: "distinct B" "set B \<subseteq> T (Suc i)"
  defines "p \<equiv> cf_params cf"
  shows "\<exists>fs'. update_table_set p (st_fs s) [(l', tid)] (map (Pair l') B @ map (Pair l) A) = Inr fs' \<and>
     store_ok cf (s\<lparr> st_fs := fs' \<rparr>) m (moved_ids T i (set A) (set B) tid) \<and>
     (\<forall>x. tables_kept p x (st_fs s) fs') \<and> (\<forall>k. fs' (wal_file_path p k) = st_fs s (wal_file_path p k))"
proof -
  let ?remove = "map (Pair l') B @ map (Pair l) A"
  have "l \<noteq> l'" using lv by auto
  then have dist: "distinct ?remove" using A B by (auto simp: distinct_map inj_on_def)
  have add: "\<forall>(k, x) \<in> set [(l', tid)]. unat k < num_levels p \<and> x \<notin> T (unat k) \<and> x \<noteq> 0" using i lv tid by (simp add: p_def)
  have remove: "\<forall>(k, x) \<in> set ?remove. unat k < num_levels p \<and> (x \<in> T (unat k) \<or> (k, x) \<in> set [(l', tid)])"
    using i lv A(2) B(2) by (auto simp: p_def)
  obtain fs' where fs': "update_table_set p (st_fs s) [(l', tid)] ?remove = Inr fs'"
      "manifest_ok False p fs' m (\<lambda>j. T j \<union> ids_on [(l', tid)] j - ids_on ?remove j)"
      "\<And>q. (\<forall>i. q \<noteq> level_path p i) \<Longrightarrow> fs' q = st_fs s q"
    using update_table_set_ok [OF store_okD(4) [OF ok, folded p_def] _ dist add remove] by auto
  have pair: "ids_on (map (Pair x) ys) j = (if unat x = j then set ys else {})" for x ys j
    by (induction ys) auto
  have "(\<lambda>j. T j \<union> ids_on [(l', tid)] j - ids_on ?remove j) = moved_ids T i (set A) (set B) tid"
    using lv tid(2) B(2) by (auto simp: fun_eq_iff moved_ids_def ids_on_append pair)
  note st = update_store_ok [OF ok fs'(2,3) [unfolded this p_def]]
  then show ?thesis using fs'(1) by (auto simp: p_def)
qed

lemma merge_tables_run:
  assumes lv: "db_levels db1 ! i = parent" "db_levels db1 ! (i + 1) = child" "db_logger db1 = None"
    and run: "table_range rng children = Inr (mn, mx)" "mn \<le> mx"
      "map_result (\<lambda>t. table_iterator_new cf (db_fs db1) t False) (parents @ children) = Inr its"
      "merge_loop cf (db_store db1) (table_builder_new cf tid mn mx) its None = Some (Inr stb)" "table_finish cf stb = Inr (s2, t)"
    and rem: "fold_result remove_by_id (lv_tables child) children = Inr us" "fold_result remove_by_id (lv_tables parent) parents = Inr ts"
    and pos: "table_get_min t = Inr mn" "insert_pos us mn 0 (length us) = Inr pos" "pos \<le> length us"
    and phs: "map ph_id (table_placeholders child) = [tid]"
    and upd: "update_table_set (cf_params cf) (st_fs s2) [(lv_index child, tbl_identifier t)]
      (map (\<lambda>t. (lv_index child, tbl_identifier t)) children @ map (\<lambda>t. (lv_index parent, tbl_identifier t)) parents) = Inr fs3"
  shows "merge_tables cf db1 i tid parents children rng =
    Some (Inr (set_level (set_level (with_fs (db1\<lparr> db_store := s2 \<rparr>) fs3) i (parent\<lparr> lv_tables := ts \<rparr>)) (i + 1)
      (child\<lparr> lv_tables := take pos us @ t # drop pos us, table_placeholders := [] \<rparr>)))"
  using run rem pos upd lv(3) remove_only_placeholder [OF phs]
  by (simp add: merge_tables_def lv(1) lv(2) [simplified] level_build_table_def assert_that_def vec_insert_def
      remove_table_placeholder_def with_logger_def)

text \<open>A merge draws one table identifier and new blocks; what it leaves in place is well-formed.\<close>

lemma merge_installed:
  fixes db :: "'c db"
  assumes ok: "db_ok cf mode (Suc n) w db g" and i: "Suc i < num_levels (cf_params cf)"
    and taken: "taken i (g_runs g ! i) (g_runs g ! Suc i) ps qs"
  defines "ts \<equiv> lv_tables (db_levels db ! i)" and "us \<equiv> lv_tables (db_levels db ! Suc i)"
    and "tid \<equiv> next_table_id (g_meta g)" and "m1 \<equiv> (g_meta g)\<lparr> next_table_id := next_table_id (g_meta g) + 1 \<rparr>"
    and "M \<equiv> merge_runs (map (nth (g_runs g ! i)) ps @ map (nth (g_runs g ! Suc i)) qs)"
  assumes s2: "blocks_drawn m1 (2 ^ 33) m2" "tables_kept (cf_params cf) tid (db_fs db) (st_fs s2)"
      "\<And>k. st_fs s2 (wal_file_path (cf_params cf) k) = db_fs db (wal_file_path (cf_params cf) k)"
    and t: "table_stored cf (st_fs s2) t" "table_holds cf (st_fs s2) t M" "tbl_identifier t = tid" "\<not> compaction_flag t"
    and fs3: "store_ok cf (s2\<lparr> st_fs := fs3 \<rparr>) m2 (moved_ids (g_ids g) i (set (map (\<lambda>j. tbl_identifier (ts ! j)) ps))
        (set (map (\<lambda>j. tbl_identifier (us ! j)) qs)) tid)"
      "\<And>x. tables_kept (cf_params cf) x (st_fs s2) fs3" "\<And>k. fs3 (wal_file_path (cf_params cf) k) = st_fs s2 (wal_file_path (cf_params cf) k)"
    and parent: "level_frame (db_levels db ! i) parent" "lv_tables parent = without ps ts"
    and child: "level_frame (db_levels db ! Suc i) child" "lv_tables child = take pos (without qs us) @ t # drop pos (without qs us)"
  shows "\<exists>g'. db_ok cf mode n w (db\<lparr> db_store := s2\<lparr> st_fs := fs3 \<rparr>, db_levels := (db_levels db)[i := parent, Suc i := child] \<rparr>) g' \<and>
     same_db (db\<lparr> db_store := s2\<lparr> st_fs := fs3 \<rparr>, db_levels := (db_levels db)[i := parent, Suc i := child] \<rparr>) g' db g"
proof -
  note D = db_okD [OF ok]
  have m2: "m2 = m1\<lparr> next_data_block_id := next_data_block_id m2 \<rparr>" using s2(1) unfolding blocks_drawn_def by blast
  have sel: "seq_number_offset m2 = seq_number_offset (g_meta g)" "log_offset m2 = log_offset (g_meta g)" "next_table_id m2 = tid + 1"
    by (subst m2, simp add: m1_def tid_def)+
  have nxt: "unat (tid + 1) = Suc (unat tid)" using unat_succ_u64 [of tid] D(9) by (simp add: budget_def tid_def)
  have new: "tid \<noteq> 0" "\<And>j. j < num_levels (cf_params cf) \<Longrightarrow> tid \<notin> g_ids g j"
    using D(4) ids_okD(2) [OF D(4)] by (auto simp: ids_ok_def tid_def)
  have le: "next_table_id (g_meta g) \<le> next_table_id m2" "unat (next_table_id m2) \<le> Suc (unat (next_table_id (g_meta g)))"
      "tid < next_table_id m2" "unat (next_data_block_id m2) \<le> unat (next_data_block_id (g_meta g)) + 2 ^ 33"
    using nxt s2(1) by (simp_all add: sel(3) word_le_nat_alt word_less_nat_alt tid_def blocks_drawn_def m1_def)
  have kept: "tables_kept (cf_params cf) tid (db_fs db) fs3" using tables_kept_trans [OF s2(2) fs3(2)] .
  have t3: "table_stored cf fs3 t" "table_holds cf fs3 t M"
    using table_stored_kept [OF fs3(2) t(1), of 0] new(1) t(3) table_holds_kept t(2) fs3(2) [of 0] by (auto simp: tables_kept_def)
  show ?thesis
    by (rule compaction_installed [OF ok i taken, of _ m2 t tid, folded ts_def us_def M_def])
      (use fs3(1,3) s2(3) kept new le sel(1,2) t3 t(3,4) parent child in simp_all)
qed

lemma merge_tables_ok:
  fixes db :: "'c db"
  assumes ok: "db_ok cf mode (Suc n) w db g" and i: "Suc i < num_levels (cf_params cf)"
    and taken: "taken i (g_runs g ! i) (g_runs g ! Suc i) ps qs"
  defines "p \<equiv> cf_params cf" and "as \<equiv> g_runs g ! i" and "bs \<equiv> g_runs g ! Suc i"
    and "ts \<equiv> lv_tables (db_levels db ! i)" and "us \<equiv> lv_tables (db_levels db ! Suc i)"
    and "tid \<equiv> next_table_id (g_meta g)" and "m1 \<equiv> (g_meta g)\<lparr> next_table_id := next_table_id (g_meta g) + 1 \<rparr>"
  assumes parent: "level_frame (db_levels db ! i) parent" "lv_tables parent = mark_tables ps ts"
    and child: "child = (db_levels db ! Suc i)\<lparr> lv_tables := mark_tables qs us, table_placeholders := phs \<rparr>" "map ph_id phs = [tid]"
    and rng: "rng = (hull_min (fst (hd (as ! hd ps))) (map (nth as) (tl ps)), hull_max (fst (last (as ! hd ps))) (map (nth as) (tl ps)))"
  shows "\<exists>db' g'. merge_tables cf (set_level (with_fs (set_level db i parent) (store_meta p (db_fs db) m1)) (i + 1) child) i tid
       (map (nth (mark_tables ps ts)) ps) (map (nth (mark_tables qs us)) qs) rng = Some (Inr db') \<and>
     db_ok cf mode n w db' g' \<and> same_db db' g' db g"
proof -
  note D = db_okD [OF ok] and tk = taken [unfolded taken_def]
  note L = levels_okD [OF D(3)] and N = level_numbers [OF D(3) i]
  have len: "i < length (db_levels db)" "Suc i < length (db_levels db)" using i L(1) by simp_all
  note P = level_okD [OF L(5) [OF len(1)], folded ts_def] and C = level_okD [OF L(5) [OF len(2)], folded us_def]
  have sub: "distinct ps" "set ps \<subseteq> {..< length ts}" "distinct qs" "set qs \<subseteq> {..< length us}"
    using tk lv_holdsD(1) [OF P(1)] lv_holdsD(1) [OF C(1)] by auto
  define parents children where pc: "parents = map (nth (mark_tables ps ts)) ps" "children = map (nth (mark_tables qs us)) qs"
  define A B where AB: "A = map (\<lambda>j. tbl_identifier (ts ! j)) ps" "B = map (\<lambda>j. tbl_identifier (us ! j)) qs"
  define fs1 where "fs1 = store_meta p (db_fs db) m1"
  define M where "M = merge_runs (map (nth (g_runs g ! i)) ps @ map (nth (g_runs g ! Suc i)) qs)"
  obtain its s2 t m2 stb where
      run: "table_range rng children = Inr (fst (hd M), fst (last M))" "fst (hd M) \<le> fst (last M)"
        "map_result (\<lambda>t. table_iterator_new cf fs1 t False) (parents @ children) = Inr its"
        "merge_loop cf ((db_store db)\<lparr> st_fs := fs1 \<rparr>) (table_builder_new cf tid (fst (hd M)) (fst (last M))) its None = Some (Inr stb)"
        "table_finish cf stb = Inr (s2, t)"
      and s2: "store_ok cf s2 m2 (g_ids g)" "blocks_drawn m1 (2 ^ 33) m2" "tables_kept p tid (db_fs db) (st_fs s2)"
        "\<And>k. st_fs s2 (wal_file_path p k) = db_fs db (wal_file_path p k)"
      and t: "table_stored cf (st_fs s2) t" "table_holds cf (st_fs s2) t M" "tbl_identifier t = tid" "\<not> compaction_flag t"
    using merge_inputs_ok [OF ok i taken] unfolding rng as_def pc ts_def us_def fs1_def p_def m1_def tid_def M_def by blast
  obtain pos where pos: "insert_pos (without qs us) (fst (hd M)) 0 (length (without qs us)) = Inr pos" "pos \<le> length (without qs us)"
    using insert_pos_ok [OF list_all2_nths [OF C(1)], of "length (without qs us)" 0 "- set qs"] by auto
  have tid: "tid \<noteq> 0" "\<And>j. j < num_levels p \<Longrightarrow> tid \<notin> g_ids g j"
    using D(4) ids_okD(2) [OF D(4)] by (auto simp: ids_ok_def tid_def p_def)
  have AB_ids: "distinct A" "set A \<subseteq> g_ids g i" "distinct B" "set B \<subseteq> g_ids g (Suc i)"
    using picked_ids(2) [OF P(5) sub(1,2)] picked_ids(2) [OF C(5) sub(3,4)] sub(2,4) P(6) C(6) by (auto simp: AB subset_iff)
  obtain fs3 where fs3: "update_table_set p (st_fs s2) [(of_nat (Suc i), tid)] (map (Pair (of_nat (Suc i))) B @ map (Pair (of_nat i)) A) = Inr fs3"
      "store_ok cf (s2\<lparr> st_fs := fs3 \<rparr>) m2 (moved_ids (g_ids g) i (set A) (set B) tid)"
      "\<And>x. tables_kept p x (st_fs s2) fs3" "\<And>k. fs3 (wal_file_path p k) = st_fs s2 (wal_file_path p k)"
    using merge_update_ok [OF s2(1) D(4) i N(3,4) tid(1) tid(2) [of "Suc i"] AB_ids] i unfolding p_def by blast
  define parent' where "parent' = parent\<lparr> lv_tables := without ps ts \<rparr>"
  define child' where "child' = child\<lparr> lv_tables := take pos (without qs us) @ t # drop pos (without qs us), table_placeholders := [] \<rparr>"
  define db1 where "db1 = set_level (with_fs (set_level db i parent) fs1) (i + 1) child"
  have lv1: "db_levels db1 ! i = parent" "db_levels db1 ! (i + 1) = child" using len by (simp_all add: db1_def)
  have idx: "lv_index parent = of_nat i" "lv_index child = of_nat (Suc i)"
    using parent(1) child(1) N(1,2) by (simp_all add: level_frame_def del: of_nat_Suc)
  have rem: "fold_result remove_by_id (lv_tables child) children = Inr (without qs us)"
    "fold_result remove_by_id (lv_tables parent) parents = Inr (without ps ts)"
    using remove_marked_ok [OF C(5) sub(3,4)] remove_marked_ok [OF P(5) sub(1,2)] parent(2) child(1) by (simp_all add: pc)
  have removed: "map (\<lambda>t. (lv_index child, tbl_identifier t)) children @ map (\<lambda>t. (lv_index parent, tbl_identifier t)) parents =
      map (Pair (of_nat (Suc i))) B @ map (Pair (of_nat i)) A"
    using arg_cong [OF picked_ids(1) [OF C(5) sub(3,4), of qs], of "map (Pair (of_nat (Suc i) :: u32))"]
      arg_cong [OF picked_ids(1) [OF P(5) sub(1,2), of ps], of "map (Pair (of_nat i :: u32))"]
    by (simp add: idx pc AB comp_def)
  define db' where "db' = db\<lparr> db_store := s2\<lparr> st_fs := fs3 \<rparr>, db_levels := (db_levels db)[i := parent', Suc i := child'] \<rparr>"
  have "set_level (set_level (with_fs (db1\<lparr> db_store := s2 \<rparr>) fs3) i parent') (i + 1) child' = db'"
    by (cases db) (simp add: db1_def db'_def list_update_swap)
  moreover have "merge_tables cf db1 i tid parents children rng = Some (Inr (set_level (set_level (with_fs (db1\<lparr> db_store := s2 \<rparr>) fs3) i parent') (i + 1) child'))"
    unfolding parent'_def child'_def
    by (rule merge_tables_run [OF lv1, where mn = "fst (hd M)" and mx = "fst (last M)" and its = its and stb = stb])
      (use run rem pos fs3(1) removed t(3) table_holdsD(3) [OF t(2)] child D(10) N(2) in \<open>simp_all add: db1_def idx p_def del: of_nat_Suc\<close>)
  moreover have "\<exists>g'. db_ok cf mode n w db' g' \<and> same_db db' g' db g"
    unfolding db'_def
    by (rule merge_installed [OF ok i taken])
      (use s2 fs3 t parent(1) child(1) C(4) in \<open>simp_all add: p_def tid_def m1_def M_def AB ts_def us_def parent'_def child'_def level_frame_def\<close>)
  ultimately show ?thesis by (auto simp: db1_def fs1_def pc)
qed

section \<open>Compaction of a level\<close>

lemma db_ok_level_frame:
  assumes ok: "db_ok cf mode n w db g" and i: "i < num_levels (cf_params cf)"
    and lv: "level_frame (db_levels db ! i) lv" "lv_tables lv = lv_tables (db_levels db ! i)"
  shows "db_ok cf mode n w (set_level db i lv) g" "db_contents (set_level db i lv) g = db_contents db g"
proof -
  note D = db_okD [OF ok]
  note L = levels_okD [OF D(3)]
  have runs: "db_runs (set_level db i lv) g = db_runs db g" by (simp add: db_runs_def)
  then show "db_contents (set_level db i lv) g = db_contents db g" by (simp add: db_contents_def)
  have "level_ok cf (db_fs db) j ((db_levels db)[i := lv] ! j) (g_runs g ! j) (g_ids g j)" if "j < length (db_levels db)" for j
    using L(5) [OF that] level_ok_frame [OF L(5) lv] i L(1) that by (auto simp: nth_list_update)
  then have "levels_ok cf (db_fs db) ((db_levels db)[i := lv]) (g_runs g) (g_ids g)" using D(3) by (simp add: levels_ok_def)
  then show "db_ok cf mode n w (set_level db i lv) g"
    using D runs by (simp add: db_ok_def budget_def)
qed

text \<open>What the parent level gives to a compaction, and the range of the tables.\<close>

lemma parents_ok:
  assumes holds: "list_all2 (table_holds cf fs) ts rs" and ps: "ps \<noteq> []" "set ps \<subseteq> {..< length rs}"
  defines "parents \<equiv> map (nth (mark_tables ps ts)) ps"
  defines "mn \<equiv> hull_min (fst (hd (rs ! hd ps))) (map (nth rs) (tl ps))" and "mx \<equiv> hull_max (fst (last (rs ! hd ps))) (map (nth rs) (tl ps))"
  shows "table_get_min (hd parents) = Inr (fst (hd (rs ! hd ps)))" "table_get_max (hd parents) = Inr (fst (last (rs ! hd ps)))"
    "table_range (fst (hd (rs ! hd ps)), fst (last (rs ! hd ps))) (tl parents) = Inr (mn, mx)" "mn \<le> mx"
    "tbl_identifier (hd parents) = tbl_identifier (ts ! hd ps)"
proof -
  obtain p ps' where p: "ps = p # ps'" using ps(1) by (cases ps) auto
  then have lt: "p < length rs" "p < length ts" using ps(2) lv_holdsD(1) [OF holds] by auto
  have "table_holds cf fs (mark_tables ps ts ! p) (rs ! p)" using lv_holdsD(2) [OF mark_tables_holds [OF holds] lt(1)] .
  note T = table_holdsD [OF this]
  show "table_get_min (hd parents) = Inr (fst (hd (rs ! hd ps)))" "table_get_max (hd parents) = Inr (fst (last (rs ! hd ps)))"
    using T(3,4) by (simp_all add: parents_def p)
  show "table_range (fst (hd (rs ! hd ps)), fst (last (rs ! hd ps))) (tl parents) = Inr (mn, mx)"
    using table_range_ok [OF picked_holds [OF holds, of ps' ps]] ps(2) by (simp add: parents_def p mn_def mx_def)
  have "mn \<le> fst (hd (rs ! p))" "fst (last (rs ! p)) \<le> mx" using hull_bounds(1,3) by (simp_all add: mn_def mx_def p)
  then show "mn \<le> mx" using lv_holdsD(5) [OF holds lt(1)] by order
  show "tbl_identifier (hd parents) = tbl_identifier (ts ! hd ps)" using lt(2) by (simp add: parents_def p)
qed

lemma taken_ok:
  assumes ok: "level_ok cf fs i lv as S" and ps: "ps \<noteq> []" "distinct ps" "set ps \<subseteq> {..< length as}"
    and start: "if i = 0 then \<forall>k \<in> set ps. \<forall>j < length as. j \<notin> set ps \<longrightarrow> runs_apart (as ! k) (as ! j) else length ps = 1"
    and qs: "distinct qs" "set qs \<subseteq> {..< length bs}"
    and out: "\<forall>j < length bs. j \<notin> set qs \<longrightarrow>
      run_outside (hull_min (hull_min (fst (hd (as ! hd ps))) (map (nth as) (tl ps))) (map (nth bs) qs))
        (hull_max (hull_max (fst (last (as ! hd ps))) (map (nth as) (tl ps))) (map (nth bs) qs)) (bs ! j)"
  shows "taken i as bs ps qs"
proof -
  have "\<forall>k \<in> set ps. \<forall>j < length as. j \<notin> set ps \<longrightarrow> runs_apart (as ! k) (as ! j)"
  proof (cases "i = 0")
    case False
    then have apart: "\<forall>k < length as. \<forall>j < length as. k \<noteq> j \<longrightarrow> runs_apart (as ! k) (as ! j)"
      using level_okD(7) [OF ok] by (simp add: pairwise_apart_nth)
    show ?thesis using apart ps(3) by auto
  qed (use start in simp)
  then show ?thesis using ps qs out by (simp add: taken_def hull_append)
qed

text \<open>A compaction takes no tables, or a closed set of tables of the two levels.\<close>

lemma compact_level_takes:
  fixes db :: "'c db"
  assumes ok: "db_ok cf mode (Suc n) w db g" and i: "Suc i < num_levels (cf_params cf)"
  defines "ts \<equiv> lv_tables (db_levels db ! i)" and "us \<equiv> lv_tables (db_levels db ! Suc i)"
    and "as \<equiv> g_runs g ! i" and "bs \<equiv> g_runs g ! Suc i"
  obtains parent where "level_frame (db_levels db ! i) parent" "lv_tables parent = ts"
      "compact_level cf db i = Some (Inr (set_level db i parent, NothingToDo))"
  | parent child ps qs tid fs' where "taken i as bs ps qs" "level_frame (db_levels db ! i) parent" "lv_tables parent = mark_tables ps ts"
      "child = (db_levels db ! Suc i)\<lparr> lv_tables := mark_tables qs us, table_placeholders := table_placeholders child \<rparr>"
      "map ph_id (table_placeholders child) = [tid]"
      "if length ps = 1 \<and> qs = [] then tid = tbl_identifier (ts ! hd ps) \<and> fs' = db_fs db
       else tid = next_table_id (g_meta g) \<and>
            fs' = store_meta (cf_params cf) (db_fs db) ((g_meta g)\<lparr> next_table_id := next_table_id (g_meta g) + 1 \<rparr>)"
      "compact_level cf db i =
        (let db = set_level (with_fs (set_level db i parent) fs') (i + 1) child in
         if length ps = 1 \<and> qs = [] then bind_run (Some (fast_compaction cf db i tid)) (\<lambda>db. Some (Inr (db, DidWork)))
         else bind_run (merge_tables cf db i tid (map (nth (mark_tables ps ts)) ps) (map (nth (mark_tables qs us)) qs)
                (hull_min (fst (hd (as ! hd ps))) (map (nth as) (tl ps)), hull_max (fst (last (as ! hd ps))) (map (nth as) (tl ps))))
                (\<lambda>db. Some (Inr (db, DidWork))))"
proof -
  note D = db_okD [OF ok]
  note L = levels_okD [OF D(3)] and N = level_numbers [OF D(3) i]
  have len: "i < length (db_levels db)" "Suc i < length (db_levels db)" using i L(1) by simp_all
  note lvp = L(5) [OF len(1), folded as_def] and lvc = L(5) [OF len(2), folded bs_def]
  note P = level_okD [OF lvp, folded ts_def] and C = level_okD [OF lvc, folded us_def]
  have idx: "lv_index (db_levels db ! i) + 1 = lv_index (db_levels db ! Suc i)" "lv_index (db_levels db ! i) = 0 \<longleftrightarrow> i = 0"
    "unat (lv_index (db_levels db ! i)) \<le> 14"
    using N len L(4) by (auto simp: add.commute)
  obtain parent r where st: "level_maybe_start_compaction (db_levels db ! i) = Inr (parent, Inr r)" "level_frame (db_levels db ! i) parent"
      and r: "case r of None \<Rightarrow> lv_tables parent = ts | Some sel \<Rightarrow> \<exists>ps. ps \<noteq> [] \<and> distinct ps \<and> set ps \<subseteq> {..< length as} \<and>
         lv_tables parent = mark_tables ps ts \<and> sel = map (nth (lv_tables parent)) ps \<and>
         (if i = 0 then \<forall>i \<in> set ps. \<forall>j < length as. j \<notin> set ps \<longrightarrow> runs_apart (as ! i) (as ! j) else length ps = 1)"
    using level_maybe_start_compaction_ok [OF P(1) [unfolded ts_def] P(3) [unfolded ts_def] idx(3)] unfolding idx(2) ts_def by blast
  show ?thesis
  proof (cases r)
    case None
    then show ?thesis using that(1) [OF st(2)] r st(1) idx(1) by (simp add: compact_level_def assert_that_def)
  next
    case (Some sel)
    then obtain ps where ps: "ps \<noteq> []" "distinct ps" "set ps \<subseteq> {..< length as}"
        and sel: "lv_tables parent = mark_tables ps ts" "sel = map (nth (mark_tables ps ts)) ps"
        and start: "if i = 0 then \<forall>i \<in> set ps. \<forall>j < length as. j \<notin> set ps \<longrightarrow> runs_apart (as ! i) (as ! j) else length ps = 1"
      using r by auto
    note R = parents_ok [OF P(1) ps(1,3), folded sel(2)]
    define mn mx where mm: "mn = hull_min (fst (hd (as ! hd ps))) (map (nth as) (tl ps))" "mx = hull_max (fst (last (as ! hd ps))) (map (nth as) (tl ps))"
    define fast where "fast = (if length ps = 1 then Some (tbl_identifier (ts ! hd ps)) else None)"
    have apart: "\<forall>i < length bs. \<forall>j < length bs. i \<noteq> j \<longrightarrow> runs_apart (bs ! i) (bs ! j)" using C(7) by (simp add: pairwise_apart_nth)
    have room: "unat (next_table_id (g_meta g)) < 2 ^ 64 - 1" using D(9) by (simp add: budget_def)
    obtain qs fs' m' tid child where ov: "get_overlaps (cf_params cf) (db_fs db) (db_levels db ! Suc i) mn mx fast = Inr (fs', child, Some (tid, map (nth (lv_tables child)) qs))"
        and child: "child = (db_levels db ! Suc i)\<lparr> lv_tables := mark_tables qs us, table_placeholders := table_placeholders child \<rparr>"
          "map ph_id (table_placeholders child) = [tid]"
        and qs: "distinct qs" "set qs \<subseteq> {..< length bs}"
          "\<forall>j < length bs. j \<notin> set qs \<longrightarrow> run_outside (hull_min mn (map (nth bs) qs)) (hull_max mx (map (nth bs) qs)) (bs ! j)"
        and tid: "if fast \<noteq> None \<and> qs = [] then tid = the fast \<and> fs' = db_fs db \<and> m' = g_meta g
           else tid = next_table_id (g_meta g) \<and> m' = (g_meta g)\<lparr> next_table_id := next_table_id (g_meta g) + 1 \<rparr> \<and> fs' = store_meta (cf_params cf) (db_fs db) m'"
      using get_overlaps_ok [OF C(1) [unfolded us_def] C(3) [unfolded us_def] C(4) apart R(4) [folded mm] store_okD(4) [OF D(2)] room, of fast, folded us_def]
      by (elim exE conjE) (rule that)
    have tk: "taken i as bs ps qs" by (rule taken_ok [OF lvp ps start qs(1,2)]) (use qs(3) in \<open>simp add: mm\<close>)
    have us: "lv_tables child = mark_tables qs us" by (subst child(1)) simp
    have one: "length sel = length ps" "sel \<noteq> []" using ps(1) by (simp_all add: sel)
    have fast: "(if length sel = 1 then Some (tbl_identifier (hd sel)) else None) = fast" using one R(5) by (simp add: fast_def)
    have "compact_level cf db i =
        (let db = set_level (with_fs (set_level db i parent) fs') (i + 1) child in
         if length ps = 1 \<and> qs = [] then bind_run (Some (fast_compaction cf db i tid)) (\<lambda>db. Some (Inr (db, DidWork)))
         else bind_run (merge_tables cf db i tid sel (map (nth (mark_tables qs us)) qs) (mn, mx)) (\<lambda>db. Some (Inr (db, DidWork))))"
    proof (cases "length ps = 1 \<and> qs = []")
      case True
      then have "tid = tbl_identifier (hd sel)" using tid R(5) by (simp add: fast_def)
      then show ?thesis
        using True st(1) [unfolded Some] idx(1) R(1,2,3) one ov us fast by (simp add: compact_level_def assert_that_def mm)
    next
      case False
      then show ?thesis
        using st(1) [unfolded Some] idx(1) R(1,2,3) one ov us fast by (auto simp: compact_level_def assert_that_def mm Let_def)
    qed
    then show ?thesis
      using that(2) [OF tk st(2) sel(1) child, of fs'] tid by (auto simp: fast_def sel mm split: if_splits)
  qed
qed

lemma compact_level_ok:
  fixes db :: "'c db"
  assumes ok: "db_ok cf mode (Suc n) w db g" and i: "Suc i < num_levels (cf_params cf)"
  shows "\<exists>db' r g'. compact_level cf db i = Some (Inr (db', r)) \<and> r \<noteq> Locked \<and>
     db_ok cf mode (if r = NothingToDo then Suc n else n) w db' g' \<and> same_db db' g' db g"
proof (rule compact_level_takes [OF ok i])
  fix parent
  assume "level_frame (db_levels db ! i) parent" "lv_tables parent = lv_tables (db_levels db ! i)"
    "compact_level cf db i = Some (Inr (set_level db i parent, NothingToDo))"
  then show ?thesis using db_ok_level_frame [OF ok, of i parent] i by (auto intro!: exI [of _ g] simp: same_db_def)
next
  fix parent child ps qs tid fs'
  let ?ts = "lv_tables (db_levels db ! i)" and ?us = "lv_tables (db_levels db ! Suc i)" and ?as = "g_runs g ! i"
  let ?rng = "(hull_min (fst (hd (?as ! hd ps))) (map (nth ?as) (tl ps)), hull_max (fst (last (?as ! hd ps))) (map (nth ?as) (tl ps)))"
  let ?m = "(g_meta g)\<lparr> next_table_id := next_table_id (g_meta g) + 1 \<rparr>"
  assume tk: "taken i ?as (g_runs g ! Suc i) ps qs"
    and parent: "level_frame (db_levels db ! i) parent" "lv_tables parent = mark_tables ps ?ts"
    and child: "child = (db_levels db ! Suc i)\<lparr> lv_tables := mark_tables qs ?us, table_placeholders := table_placeholders child \<rparr>"
      "map ph_id (table_placeholders child) = [tid]"
    and tid: "if length ps = 1 \<and> qs = [] then tid = tbl_identifier (?ts ! hd ps) \<and> fs' = db_fs db
       else tid = next_table_id (g_meta g) \<and> fs' = store_meta (cf_params cf) (db_fs db) ?m"
    and run: "compact_level cf db i = (let db = set_level (with_fs (set_level db i parent) fs') (i + 1) child in
         if length ps = 1 \<and> qs = [] then bind_run (Some (fast_compaction cf db i tid)) (\<lambda>db. Some (Inr (db, DidWork)))
         else bind_run (merge_tables cf db i tid (map (nth (mark_tables ps ?ts)) ps) (map (nth (mark_tables qs ?us)) qs) ?rng)
                (\<lambda>db. Some (Inr (db, DidWork))))"
  show ?thesis
  proof (cases "length ps = 1 \<and> qs = []")
    case True
    then obtain p where p: "ps = [p]" "qs = []" by (cases ps) auto
    have id: "tid = tbl_identifier (?ts ! p)" "fs' = db_fs db" using tid by (simp_all add: p)
    have "child = (db_levels db ! Suc i)\<lparr> table_placeholders := table_placeholders child \<rparr>" using child(1) by (simp add: p)
    then obtain db' g' where "fast_compaction cf (set_level (set_level db i parent) (i + 1) child) i tid = Inr db'"
        "db_ok cf mode n w db' g'" "same_db db' g' db g"
      using fast_compaction_ok [OF ok i tk [unfolded p] parent [unfolded p], of child "table_placeholders child"] child(2) id(1) by auto
    then show ?thesis using run p id(2) by auto
  next
    case False
    then have id: "tid = next_table_id (g_meta g)" "fs' = store_meta (cf_params cf) (db_fs db) ?m" using tid by (auto split: if_splits)
    obtain db' g' where m: "merge_tables cf (set_level (with_fs (set_level db i parent) fs') (i + 1) child) i tid
       (map (nth (mark_tables ps ?ts)) ps) (map (nth (mark_tables qs ?us)) qs) ?rng = Some (Inr db')"
       "db_ok cf mode n w db' g'" "same_db db' g' db g"
      using merge_tables_ok [OF ok i tk parent child(1) child(2) [unfolded id(1)] refl] unfolding id by blast
    have "compact_level cf db i = Some (Inr (db', DidWork))" using run m(1) False by (simp add: Let_def del: One_nat_def)
    then show ?thesis using m(2,3) by (intro exI [of _ db'] exI [of _ DidWork] exI [of _ g']) simp
  qed
qed

lemma level_compaction_loop_ok:
  fixes db :: "'c db"
  assumes "db_ok cf mode (Suc n) w db g"
  shows "\<exists>db' b g'. level_compaction_loop cf ps db was_locked = Some (Inr (db', b)) \<and> db_ok cf mode n w db' g' \<and>
     same_db db' g' db g"
  using assms
proof (induction ps arbitrary: db g was_locked)
  case Nil
  then show ?case using db_ok_mono [OF Nil, of n w] same_db_refl by auto
next
  case (Cons i ps)
  show ?case
  proof (cases "Suc i < num_levels (cf_params cf)")
    case True
    obtain db' r g' where c: "compact_level cf db i = Some (Inr (db', r))" "r \<noteq> Locked"
        "db_ok cf mode (if r = NothingToDo then Suc n else n) w db' g'" "same_db db' g' db g"
      using compact_level_ok [OF Cons.prems True] by blast
    show ?thesis
    proof (cases r)
      case NothingToDo
      then obtain db2 b g2 where "level_compaction_loop cf ps db' was_locked = Some (Inr (db2, b))" "db_ok cf mode n w db2 g2" "same_db db2 g2 db' g'"
        using c Cons.IH [of db' g' was_locked] by auto
      then show ?thesis using c NothingToDo True same_db_trans [OF _ c(4)] by auto
    next
      case DidWork
      then show ?thesis using c True by auto
    qed (use c(2) in simp)
  next
    case False
    then show ?thesis using Cons.IH [OF Cons.prems, of was_locked] by auto
  qed
qed

text \<open>A level compaction returns, keeps the invariant and changes no lookup.\<close>

lemma do_level_compaction_ok:
  fixes db :: "'c db"
  assumes "db_ok cf mode (Suc n) w db g"
  shows "\<exists>db' b g'. do_level_compaction cf db = Some (Inr (db', b)) \<and> db_ok cf mode n w db' g' \<and>
     same_db db' g' db g"
  unfolding do_level_compaction_def by (rule level_compaction_loop_ok [OF assms])

end
