(* ===== verification/Lsm_Open.thy ===== *)
theory Lsm_Open
  imports Lsm_DbCompact "HOL-Library.Multiset"
begin

text \<open>
  Creating and opening a database (\<open>DbLogic::new\<close> of \<open>src/src/logic.rs\<close>): the checks of the parameters,
  the start modes, the recovery of the memtable from the log and the loading of the tables that the
  manifest lists.

  The lemmas show that a new database is empty and well-formed, and that a database that is opened again
  has the contents it had.
\<close>

section \<open>The start of a database\<close>

text \<open>What the file system has at the path of the database.\<close>

datatype path_kind = NoEntry | NoParent | Folder | RegularFile

definition remove_dir_all :: "params \<Rightarrow> fs \<Rightarrow> fs" where
  "remove_dir_all p fs = (\<lambda>q. if take (length (db_path p) + 1) q = db_path p @ ''/'' then None else fs q)"

definition wal_resume :: "params \<Rightarrow> fs \<Rightarrow> u64 \<Rightarrow> memtable \<Rightarrow> (fs \<times> memtable \<times> wal_log) run" where
  "wal_resume p fs start mem =
     bind_run (wal_open p fs start mem) (\<lambda>(fs, st, w, mem, _).
     Some (Inr (fs, mem, \<lparr> wl_status = st, wl_writer = w, wl_durable = Map.empty \<rparr>)))"

text \<open>The loops that load the tables of every level.\<close>

definition load_table_at :: "('c, 'bf) config \<Rightarrow> fs \<Rightarrow> nat \<Rightarrow> level list \<Rightarrow> u64 \<Rightarrow> level list result" where
  "load_table_at cf fs level_id lvs table_id =
     bind_result (index lvs level_id) (\<lambda>lv.
     bind_result (level_load_table cf fs lv table_id) (\<lambda>lv.
     Inr (lvs[level_id := lv])))"

definition load_levels :: "('c, 'bf) config \<Rightarrow> fs \<Rightarrow> level list \<Rightarrow> u64 list list \<Rightarrow> level list result" where
  "load_levels cf fs lvs ids =
     fold_result (\<lambda>lvs (level_id, tables). fold_result (load_table_at cf fs level_id) lvs tables)
       lvs (enumerate 0 ids)"

definition start_create :: "params \<Rightarrow> start_mode \<Rightarrow> path_kind \<Rightarrow> fs \<Rightarrow> (bool \<times> fs) result" where
  "start_create p start kind fs =
     (let exists = (kind = Folder) in
      case start of
        CreateOrOpen \<Rightarrow> Inr (\<not> exists, fs)
      | Open \<Rightarrow> if exists then Inr (False, fs) else Inl (Fail (InvalidParams ''DB does not exist''))
      | CreateOrOverride \<Rightarrow> Inr (True, if exists then remove_dir_all p fs else fs))"

definition logic_new ::
    "('c, 'bf) config \<Rightarrow> (nat \<Rightarrow> nat) \<Rightarrow> start_mode \<Rightarrow> path_kind \<Rightarrow> fs \<Rightarrow> 'c db run" where
  "logic_new cf elapsed start kind fs =
     (let p = cf_params cf in
      if db_path p = '''' then Some (Inl (Fail (InvalidParams ''DB path must not be empty!'')))
      else if kind = RegularFile then Some (Inl (Fail (InvalidParams ''DB path must be a folder!'')))
      else
        let logger = map_option (\<lambda>_. level_logger_new elapsed (num_levels p)) (log_level_stats p) in
        bind_run (Some (start_create p start kind fs)) (\<lambda>(create, fs).
        bind_run
          (if create
           then
             if kind = NoParent
             then Some (Inl (Fail (from_io_error (''Failed to create DB folder: '' @ display_io_error NotFound) NotFound)))
             else let (fs, wal) = wal_new p (manifest_new False p fs) in Some (Inr (fs, memtable_new 1, wal))
           else
             bind_run (Some (manifest_open False p fs)) (\<lambda>_.
             bind_run (Some (get_seq_number_offset False p fs)) (\<lambda>seq.
             bind_run (Some (get_log_offset False p fs)) (\<lambda>start_position.
             wal_resume p fs start_position (memtable_new seq))))) (\<lambda>(fs, mem, wal).
        bind_run (Some (data_blocks_new cf)) (\<lambda>block_caches.
        if num_levels p = 0 then Some (Inl (Panic ''Need at least one level!''))
        else
          let levels = map (\<lambda>i. level_new p (of_nat i)) [0 ..< num_levels p] in
          bind_run (Some (if create then Inr levels
                          else bind_result (get_table_ids p fs) (load_levels cf fs levels))) (\<lambda>levels.
          Some (Inr \<lparr> db_store = \<lparr> st_fs = fs, st_caches = block_caches \<rparr>, db_memtable = mem, imm_memtables = [],
                      db_levels = levels, db_wal = wal, db_logger = logger \<rparr>))))))"

section \<open>A new database\<close>

definition params_ok :: "params \<Rightarrow> bool" where
  "params_ok p \<longleftrightarrow>
     db_path p \<noteq> '''' \<and> 0 < num_levels p \<and> num_levels p \<le> 15 \<and> 0 < max_memtable_size p \<and> 128 \<le> max_open_files p \<and>
     log_level_stats p = None \<and> seeks_fit p"

definition ghost_new :: "params \<Rightarrow> ghost" where
  "ghost_new p =
     \<lparr> g_runs = replicate (num_levels p) [], g_meta = metadata_new False p, g_ids = (\<lambda>i. {}), g_start = 0, g_stream = [],
       g_imm_ops = [], g_mem_ops = [] \<rparr>"

lemma level_new_ok: "level_ok cf fs i (level_new p (of_nat i)) [] {}"
  by (simp add: level_ok_def lv_holds_def level_new_def)

lemma remove_dir_all_path: "remove_dir_all p fs (join_path (db_path p) name) = None"
  by (simp add: remove_dir_all_def join_path_def)

text \<open>When there is no database yet, or an existing one is overridden, the new one is empty.\<close>

lemma logic_new_create_ok:
  assumes cfg: "config_ok cf" "params_ok (cf_params cf)" and kind: "kind \<noteq> RegularFile" "kind \<noteq> NoParent"
    and create: "start_create (cf_params cf) start kind fs = Inr (True, fs0)" "\<forall>i. fs0 (data_block_path (cf_params cf) i) = None"
    and room: "n * 2 ^ 33 < 2 ^ 63" "w + 100 < 2 ^ 32"
  shows "\<exists>db. logic_new cf elapsed start kind fs = Some (Inr db) \<and> db_ok cf mode n w db (ghost_new (cf_params cf)) \<and>
     db_contents db (ghost_new (cf_params cf)) = Map.empty"
proof -
  define p where "p = cf_params cf"
  note P = cfg(2) [unfolded params_ok_def, folded p_def]
  obtain fs1 wal where wal: "wal_new p (manifest_new False p fs0) = (fs1, wal)" by fastforce
  note W = wal_new_ok [OF wal]
  obtain cs where cs: "data_blocks_new cf = Inr cs" "coherent cf \<lparr> st_fs = fs1, st_caches = cs \<rparr>"
    using data_blocks_new_ok [of cf fs1] P cfg(1) by (auto simp: p_def config_ok_def)
  define db where "db = \<lparr> db_store = \<lparr> st_fs = fs1, st_caches = cs \<rparr>, db_memtable = memtable_new 1, imm_memtables = [],
      db_levels = map (\<lambda>i. level_new p (of_nat i)) [0 ..< num_levels p], db_wal = wal, db_logger = None \<rparr>"
  have run: "logic_new cf elapsed start kind fs = Some (Inr db)"
    using P kind create(1) wal cs(1) by (simp add: logic_new_def p_def [symmetric] db_def)
  have man: "manifest_ok False p fs1 (metadata_new False p) (\<lambda>i. {})"
    using manifest_new_ok [of p False fs0] P W(2) by (simp add: manifest_ok_def log_frame_def)
  have "ids_unused p fs1 (metadata_new False p)"
    using create(2) W(2) by (simp add: ids_unused_def log_frame_def manifest_new_def fold_level_files store_meta_def p_def)
  then have store: "store_ok cf (db_store db) (metadata_new False p) (\<lambda>i. {})"
    using cfg(1) cs(2) man by (simp add: store_ok_def db_def p_def)
  have runs: "db_runs db (ghost_new p) = [] # replicate 0 []" "concat (map rev (g_runs (ghost_new p))) = []"
    by (simp_all add: db_runs_def ghost_new_def db_def memtable_new_def)
  have "levels_ok cf fs1 (db_levels db) (g_runs (ghost_new p)) (\<lambda>i. {})"
    using P by (auto simp: levels_ok_def db_def ghost_new_def p_def intro: level_new_ok)
  moreover have "ids_ok p (metadata_new False p) (\<lambda>i. {})" by (simp add: ids_ok_def metadata_new_def)
  moreover have "mem_ok (memtable_new 1) (ghost_new p)" by (simp add: mem_ok_def ghost_new_def replay_def metadata_new_def)
  moreover have "log_ok p mode fs1 wal (ghost_new p)" using W(1) by (simp add: log_ok_def ghost_new_def metadata_new_def)
  moreover have "budget n w db (ghost_new p)"
    using room runs by (simp add: budget_def ghost_new_def metadata_new_def db_def memtable_new_def)
  moreover have "newest_first (db_runs db (ghost_new p))" by (simp add: runs)
  ultimately have "db_ok cf mode n w db (ghost_new p)"
    using P store by (simp add: db_ok_def imm_ok_def p_def [symmetric]) (simp add: db_def ghost_new_def)
  moreover have "db_contents db (ghost_new p) = Map.empty" by (simp add: db_contents_def runs visible_def fun_eq_iff)
  ultimately show ?thesis using run by (auto simp: p_def)
qed

section \<open>Loading the levels\<close>

lemma load_tables_ok:
  assumes "\<forall>t \<in> set ts. table_load cf fs (tbl_identifier t) = Inr (f t)"
  shows "fold_result (level_load_table cf fs) lv (map tbl_identifier ts) = Inr (lv\<lparr> lv_tables := lv_tables lv @ map f ts \<rparr>)"
  using assms by (induction ts arbitrary: lv) (simp_all add: level_load_table_def)

lemma load_table_at_all:
  assumes "i < length lvs" and "fold_result (level_load_table cf fs) (lvs ! i) ids = Inr lv"
  shows "fold_result (load_table_at cf fs i) lvs ids = Inr (lvs[i := lv])"
  using assms
proof (induction ids arbitrary: lvs)
  case (Cons x ids)
  then obtain l1 where l1: "level_load_table cf fs (lvs ! i) x = Inr l1" "fold_result (level_load_table cf fs) l1 ids = Inr lv"
    by (auto simp: bind_result_eq_Inr)
  then show ?case using Cons.IH [of "lvs[i := l1]"] Cons.prems(1) by (simp add: load_table_at_def index_ok)
qed auto

lemma load_levels_ok:
  assumes "length ids \<le> length lvs" and "length lvs' = length lvs"
    and "\<forall>i < length ids. fold_result (level_load_table cf fs) (lvs ! i) (ids ! i) = Inr (lvs' ! i)"
  shows "load_levels cf fs lvs ids = Inr (take (length ids) lvs' @ drop (length ids) lvs)"
  using assms
proof (induction ids rule: rev_induct)
  case Nil
  then show ?case by (simp add: load_levels_def)
next
  case (snoc x ids)
  let ?n = "length ids" and ?mid = "take (length ids) lvs' @ drop (length ids) lvs"
  have "\<forall>i < ?n. fold_result (level_load_table cf fs) (lvs ! i) (ids ! i) = Inr (lvs' ! i)"
    using snoc.prems(3) by (metis length_append_singleton less_SucI nth_append)
  then have IH: "load_levels cf fs lvs ids = Inr ?mid" using snoc by simp
  have "fold_result (level_load_table cf fs) (?mid ! ?n) x = Inr (lvs' ! ?n)"
    using snoc.prems by (auto simp: nth_append)
  then have "fold_result (load_table_at cf fs ?n) ?mid x = Inr (?mid[?n := lvs' ! ?n])"
    using snoc.prems by (intro load_table_at_all) auto
  moreover have "?mid[?n := lvs' ! ?n] = take (Suc ?n) lvs' @ drop (Suc ?n) lvs"
    using snoc.prems by (intro nth_equalityI) (auto simp: nth_append nth_list_update min_def less_Suc_eq)
  ultimately show ?case using IH by (simp add: load_levels_def enumerate_append_eq fold_result_append)
qed

lemma sorted_wrt_distinct:
  assumes "\<And>x y. P x y \<Longrightarrow> P y x" and "distinct xs"
  shows "sorted_wrt P xs \<longleftrightarrow> (\<forall>x \<in> set xs. \<forall>y \<in> set xs. x \<noteq> y \<longrightarrow> P x y)"
  using assms(2) by (induction xs) (auto intro: assms(1))

text \<open>
  A level that is loaded again has its tables in the order of their identifiers. On level zero that is
  the order they had; on the other levels the order does not matter.
\<close>

lemma level_reload_ok:
  assumes ok: "level_ok cf fs i lv rs S"
  shows "\<exists>lv' rs'. fold_result (level_load_table cf fs) (level_new p (of_nat i)) (sorted_list_of_set S) = Inr lv' \<and>
     level_ok cf fs i lv' rs' S \<and> mset rs' = mset rs \<and> (i = 0 \<longrightarrow> rs' = rs)"
proof -
  note L = level_okD [OF ok]
  define xs where "xs = zip (lv_tables lv) rs"
  define ys where "ys = sort_key (tbl_identifier \<circ> fst) xs"
  define reload where "reload = (\<lambda>t :: sorted_table. projr (table_load cf fs (tbl_identifier t)))"
  have len: "length rs = length (lv_tables lv)" using L(1) by (simp add: list_all2_lengthD)
  have xs: "map fst xs = lv_tables lv" "map snd xs = rs" using len by (simp_all add: xs_def)
  have ids: "map (tbl_identifier \<circ> fst) xs = map tbl_identifier (lv_tables lv)" by (simp add: xs(1) [symmetric])
  have set: "set ys = set xs" "mset ys = mset xs" by (simp_all add: ys_def)
  have dis: "distinct (map (tbl_identifier \<circ> fst) ys)" "distinct ys" "distinct xs"
    using L(5) set(2) ids by (metis distinct_map mset_eq_imp_distinct_iff mset_map)+
  have holds: "\<forall>x \<in> set xs. table_holds cf fs (fst x) (snd x)"
    using L(1) by (auto simp: xs_def list_all2_iff)
  have ts: "fst x \<in> set (lv_tables lv)" if "x \<in> set xs" for x using that xs(1) by (metis image_eqI list.set_map)
  have load: "table_load cf fs (tbl_identifier t) = Inr (reload t)" "tbl_identifier (reload t) = tbl_identifier t"
      "tbl_index (reload t) = tbl_index t" "\<not> compaction_flag (reload t)" if "t \<in> set (lv_tables lv)" for t
    using L(9) that by (auto simp: reload_def table_stored_def)
  have S: "S = set (map (tbl_identifier \<circ> fst) ys)" using L(6) set(1) ids by (metis list.set_map)
  have sl: "sorted_list_of_set S = map tbl_identifier (map fst ys)"
  proof -
    have "sorted (map (tbl_identifier \<circ> fst) ys)" by (simp add: ys_def sorted_sort_key)
    then show ?thesis using dis(1) S by (metis list.map_comp sorted_list_of_set_sort_remdups distinct_remdups_id sorted_sort_id)
  qed
  define lv' where "lv' = (level_new p (of_nat i))\<lparr> lv_tables := map reload (map fst ys) \<rparr>"
  have "fold_result (level_load_table cf fs) (level_new p (of_nat i)) (sorted_list_of_set S) = Inr lv'"
    unfolding sl using load(1) ts set(1) by (subst load_tables_ok [of _ _ _ reload]) (auto simp: lv'_def level_new_def)
  moreover have "mset (map snd ys) = mset rs" using set(2) xs(2) by (metis mset_map)
  moreover have order: "ys = xs" if "i = 0"
    using L(8) [OF that] ids by (simp add: ys_def sort_key_id_if_sorted)
  moreover have "level_ok cf fs i lv' (map snd ys) S"
    unfolding level_ok_def
  proof (intro conjI)
    have "table_holds cf fs (reload (fst x)) (snd x)" if "x \<in> set ys" for x
      using that holds load(3) [OF ts] table_holds_index set(1) by blast
    then show "lv_holds cf fs lv' (map snd ys)"
      by (simp add: lv_holds_def lv'_def list_all2_conv_all_nth)
    have idr: "map tbl_identifier (lv_tables lv') = map (tbl_identifier \<circ> fst) ys"
      using load(2) ts set(1) by (auto simp: lv'_def)
    then show "distinct (map tbl_identifier (lv_tables lv'))" "S = set (map tbl_identifier (lv_tables lv'))"
      using dis(1) S by (simp_all only:)
    show "\<forall>t \<in> set (lv_tables lv'). \<not> compaction_flag t" using load(4) ts set(1) by (auto simp: lv'_def)
    show "\<forall>t \<in> set (lv_tables lv'). table_stored cf fs t"
      using L(9) load(2,3) ts set(1) by (auto simp: lv'_def table_stored_def)
    show "if i = 0 then sorted (map tbl_identifier (lv_tables lv')) else pairwise_apart (map snd ys)"
    proof (cases "i = 0")
      case True
      then show ?thesis using L(8) idr order ids by simp
    next
      case False
      have sd: "sorted_wrt (\<lambda>x y. runs_apart (snd x) (snd y)) zs \<longleftrightarrow> (\<forall>x \<in> set zs. \<forall>y \<in> set zs. x \<noteq> y \<longrightarrow> runs_apart (snd x) (snd y))"
        if "distinct zs" for zs :: "(sorted_table \<times> run_entries) list"
        by (rule sorted_wrt_distinct [OF _ that]) (simp add: runs_apart_sym)
      have "sorted_wrt (\<lambda>x y. runs_apart (snd x) (snd y)) xs"
        using L(7) False xs(2) by (metis gr0I sorted_wrt_map)
      then have "sorted_wrt (\<lambda>x y. runs_apart (snd x) (snd y)) ys"
        using sd [OF dis(3)] sd [OF dis(2)] set(1) by simp
      then show ?thesis using False by (simp add: sorted_wrt_map)
    qed
  qed (simp_all add: lv'_def level_new_def)
  ultimately show ?thesis using xs(2) by auto
qed

lemma levels_reload_ok:
  assumes ok: "levels_ok cf fs lvs rss T" and newest: "newest_first (concat (map rev rss))"
  defines "p \<equiv> cf_params cf"
  shows "\<exists>lvs' rss'. load_levels cf fs (map (\<lambda>i. level_new p (of_nat i)) [0 ..< num_levels p])
       (map (\<lambda>i. sorted_list_of_set (T i)) [0 ..< num_levels p]) = Inr lvs' \<and>
     levels_ok cf fs lvs' rss' T \<and> list_all2 (\<lambda>rs rs'. mset rs' = mset rs \<and> newest_first (rev rs')) rss rss'"
proof -
  note L = levels_okD [OF ok, folded p_def]
  let ?new = "\<lambda>i. level_new p (of_nat i)"
  have "\<forall>i < num_levels p. \<exists>x. fold_result (level_load_table cf fs) (?new i) (sorted_list_of_set (T i)) = Inr (fst x) \<and>
      level_ok cf fs i (fst x) (snd x) (T i) \<and> mset (snd x) = mset (rss ! i) \<and> (i = 0 \<longrightarrow> snd x = rss ! i)"
    using level_reload_ok [OF L(5), of _ p] L(1) by auto
  then obtain f where f: "\<And>i. i < num_levels p \<Longrightarrow> fold_result (level_load_table cf fs) (?new i) (sorted_list_of_set (T i)) = Inr (fst (f i)) \<and>
      level_ok cf fs i (fst (f i)) (snd (f i)) (T i) \<and> mset (snd (f i)) = mset (rss ! i) \<and> (i = 0 \<longrightarrow> snd (f i) = rss ! i)"
    by metis
  let ?lvs = "map (fst \<circ> f) [0 ..< num_levels p]" and ?rss = "map (snd \<circ> f) [0 ..< num_levels p]"
  have "load_levels cf fs (map ?new [0 ..< num_levels p]) (map (\<lambda>i. sorted_list_of_set (T i)) [0 ..< num_levels p]) = Inr ?lvs"
    using load_levels_ok [of "map (\<lambda>i. sorted_list_of_set (T i)) [0 ..< num_levels p]" "map ?new [0 ..< num_levels p]" ?lvs cf fs] f
    by simp
  moreover have "levels_ok cf fs ?lvs ?rss T" using L(1,3,4) f L(1) [symmetric] by (auto simp: levels_ok_def p_def [symmetric])
  moreover
  have "newest_first (rev (snd (f i)))" if "i < num_levels p" for i
  proof (cases "i = 0")
    case True
    have "newest_first (rev (rss ! 0))" using L(2,3) newest by (cases rss) (simp_all add: sorted_wrt_append)
    then show ?thesis using f [OF that] True by simp
  next
    case False
    have "level_ok cf fs i (fst (f i)) (snd (f i)) (T i)" using f [OF that] by simp
    then show ?thesis using pairwise_apart_newest [OF level_okD(7) level_runs_sorted(1)] False by blast
  qed
  then have "list_all2 (\<lambda>rs rs'. mset rs' = mset rs \<and> newest_first (rev rs')) rss ?rss"
    using f L(1,2) by (simp add: list_all2_conv_all_nth)
  ultimately show ?thesis by blast
qed

section \<open>Opening a database again\<close>

lemma newest_first_levels:
  assumes "list_all2 (\<lambda>rs rs'. mset rs' = mset rs \<and> newest_first (rev rs')) rss rss'" and "newest_first (concat (map rev rss))"
  shows "newest_first (concat (map rev rss'))" "set (concat (map rev rss')) = set (concat (map rev rss))"
    "total_weight (concat (map rev rss')) = total_weight (concat (map rev rss))" "set (map set rss') = set (map set rss)"
proof -
  have "newest_first (concat (map rev rss')) \<and> set (concat (map rev rss')) = set (concat (map rev rss)) \<and>
    total_weight (concat (map rev rss')) = total_weight (concat (map rev rss)) \<and> set (map set rss') = set (map set rss)"
    using assms
  proof (induction rule: list_all2_induct)
    case (Cons rs rss rs' rss')
    have eq: "set rs' = set rs" using Cons.hyps by (metis mset_eq_setD)
    have "mset (map table_weight rs') = mset (map table_weight rs)" using Cons.hyps by simp
    then have "sum_list (map table_weight rs') = sum_list (map table_weight rs)" by (simp only: sum_mset_sum_list [symmetric])
    then have "total_weight (rev rs') = total_weight (rev rs)" by (simp add: total_weight_def rev_map [symmetric] sum_list_rev)
    moreover have "newest_first (concat (map rev rss))" "\<forall>a \<in> set rs. \<forall>b \<in> set (concat (map rev rss)). newer_run a b"
      using Cons.prems by (simp_all add: sorted_wrt_append)
    ultimately show ?case using Cons.hyps Cons.IH eq by (auto simp: sorted_wrt_append total_weight_def)
  qed simp
  then show "newest_first (concat (map rev rss'))" "set (concat (map rev rss')) = set (concat (map rev rss))"
    "total_weight (concat (map rev rss')) = total_weight (concat (map rev rss))" "set (map set rss') = set (map set rss)"
    by simp_all
qed

lemma apply_writes_append:
  "apply_writes s (ops @ ops') m = apply_writes (s + of_nat (length ops)) ops' (apply_writes s ops m)"
  by (induction ops arbitrary: s m) (simp_all add: add.assoc add.commute)

lemma replay_map:
  assumes "replay s ops = Inr m" and "unat s + length ops < 2 ^ 64"
  shows "map_of (entries m) = apply_writes s ops Map.empty"
proof -
  obtain m' where "fold_result memtable_apply (memtable_new s) ops = Inr m'" "mt_ok m'"
      "memtable_get m' = apply_writes s ops (memtable_get (memtable_new s))"
    using mt.apply_all [OF mt_ok_new, of s ops] assms(2) by (auto simp: memtable_new_def)
  then show ?thesis using assms(1) memtable_get_map [OF mt_ok_new, of s] memtable_get_map [of m]
    by (simp add: replay_def memtable_new_def)
qed

lemma table_weight_union:
  assumes m: "sorted_strict (map fst c)" and a: "sorted_strict (map fst a)" and b: "sorted_strict (map fst b)"
    and eq: "map_of c = map_of a ++ map_of b"
  shows "table_weight c \<le> table_weight a + table_weight b"
proof -
  have "set c \<subseteq> set a \<union> set b"
  proof
    fix x assume "x \<in> set c"
    then have "map_of c (fst x) = Some (snd x)" using sorted_strict_distinct [OF m] by simp
    then show "x \<in> set a \<union> set b" using eq map_of_SomeD [of a "fst x" "snd x"] map_of_SomeD [of b "fst x" "snd x"]
      by (auto simp: map_add_Some_iff)
  qed
  then have "(\<Sum>x \<in> set c. entry_weight x) \<le> (\<Sum>x \<in> set a \<union> set b. entry_weight x)" by (simp add: sum_mono2)
  also have "\<dots> \<le> (\<Sum>x \<in> set a. entry_weight x) + (\<Sum>x \<in> set b. entry_weight x)"
    using sum.union_inter [of "set a" "set b" entry_weight] by simp
  finally show ?thesis by (simp add: table_weight_set [OF m] table_weight_set [OF a] table_weight_set [OF b])
qed

text \<open>The memtable the log replays holds what the two memtables of the database held.\<close>

lemma memtables_replayed:
  assumes ok: "db_ok cf mode n w db g" and mem': "replay (seq_number_offset (g_meta g)) (g_imm_ops g @ g_mem_ops g) = Inr mem'"
  defines "older \<equiv> map (entries \<circ> snd) (rev (imm_memtables db))"
  shows "lookup_runs (entries (db_memtable db) # older @ rs) = lookup_runs (entries mem' # rs)"
    "table_weight (entries mem') \<le> table_weight (entries (db_memtable db)) + total_weight older"
    "next_seq_number mem' = next_seq_number (db_memtable db)"
proof -
  let ?so = "seq_number_offset (g_meta g)" and ?mem = "db_memtable db"
  let ?so' = "?so + of_nat (length (g_imm_ops g))"
  have D: "replay ?so' (g_mem_ops g) = Inr ?mem" "unat ?so + length (g_imm_ops g) + length (g_mem_ops g) < 2 ^ 64"
    using db_okD(5) [OF ok] by (simp_all add: mem_ok_def)
  have so': "unat ?so' = unat ?so + length (g_imm_ops g)" using D(2) by (simp add: unat_word_ariths unat_of_nat)
  have mem: "map_of (entries ?mem) = apply_writes ?so' (g_mem_ops g) Map.empty"
    using replay_map [OF D(1)] so' D(2) by simp
  obtain im where im: "older = im" "lookup_runs im = apply_writes ?so (g_imm_ops g) Map.empty"
      "im = [] \<or> (\<exists>r. im = [r] \<and> sorted_strict (map fst r))"
  proof (cases "g_imm_ops g = []")
    case True
    then have "older = []" using db_okD(6) [OF ok] by (simp add: imm_ok_def older_def)
    then show ?thesis using that [of "[]"] True by (simp add: fun_eq_iff)
  next
    case False
    then obtain off imm where imm: "imm_memtables db = [(off, imm)]" "replay ?so (g_imm_ops g) = Inr imm"
      using db_okD(6) [OF ok] by (auto simp: imm_ok_def)
    then have "older = [entries imm]" by (simp add: older_def)
    moreover have "lookup_runs [entries imm] = map_of (entries imm)" by (simp add: fun_eq_iff split: option.split)
    ultimately show ?thesis
      using that [of "[entries imm]"] replay_map [OF imm(2)] D(2) mt_okD(1) [OF replayD(1) [OF imm(2)]] by simp
  qed
  have m': "map_of (entries mem') = lookup_runs im ++ map_of (entries ?mem)"
    using replay_map [OF mem'] D(2) by (simp add: apply_writes_append apply_writes_add im(2) mem)
  have app: "lookup_runs (im @ rs) = lookup_runs rs ++ lookup_runs im"
    by (simp add: fun_eq_iff lookup_runs_append map_add_def)
  show "lookup_runs (entries ?mem # older @ rs) = lookup_runs (entries mem' # rs)"
    by (simp only: lookup_runs_Cons m' im(1) app map_add_assoc)
  show "next_seq_number mem' = next_seq_number ?mem"
    using replayD(2) [OF mem'] replayD(2) [OF D(1)] so' by (simp add: word_unat_eq_iff)
  note sorted = mt_okD(1) [OF replayD(1) [OF mem']] mt_okD(1) [OF replayD(1) [OF D(1)]]
  show "table_weight (entries mem') \<le> table_weight (entries ?mem) + total_weight older"
  proof (cases im)
    case Nil
    moreover have "lookup_runs [] = map_of []" by (simp add: fun_eq_iff)
    ultimately have "map_of (entries mem') = map_of [] ++ map_of (entries ?mem)" using m' by simp
    from table_weight_union [OF sorted(1) _ sorted(2) this] show ?thesis using Nil by (simp add: im(1) total_weight_def)
  next
    case (Cons r rs)
    then have r: "im = [r]" "sorted_strict (map fst r)" using im(3) by auto
    then have "map_of (entries mem') = map_of r ++ map_of (entries ?mem)"
      using m' by (simp add: fun_eq_iff map_add_def split: option.split)
    from table_weight_union [OF sorted(1) r(2) sorted(2) this] show ?thesis by (simp add: im(1) r(1) total_weight_def)
  qed
qed

text \<open>What is on disk when a database is opened: all its files, the log up to the last write.\<close>

definition on_disk :: "('c, 'bf) config \<Rightarrow> 'c db \<Rightarrow> ghost \<Rightarrow> fs \<Rightarrow> bool" where
  "on_disk cf db g fs \<longleftrightarrow> log_frame (cf_params cf) (db_fs db) fs \<and> log_files_ok (cf_params cf) fs (g_start g) (g_stream g)"

definition log_replayable :: "ghost \<Rightarrow> bool" where
  "log_replayable g \<longleftrightarrow>
     (\<forall>op \<in> set (g_imm_ops g @ g_mem_ops g). recoverable op) \<and> length (g_stream g) mod PAGE_SIZE \<noteq> 0"

lemma wal_resume_ok:
  assumes ok: "db_ok cf mode n w db g" and disk: "on_disk cf db g fs" and rp: "log_replayable g"
  defines "so \<equiv> seq_number_offset (g_meta g)"
  shows "\<exists>mem' wal'. wal_resume (cf_params cf) fs (log_offset (g_meta g)) (memtable_new so) = Some (Inr (fs, mem', wal')) \<and>
     replay so (g_imm_ops g @ g_mem_ops g) = Inr mem' \<and> log_idle (cf_params cf) AsyncIo fs wal' (g_start g) (g_stream g)"
proof -
  note L = db_okD(8) [OF ok, unfolded log_ok_def]
  define ops where "ops = g_imm_ops g @ g_mem_ops g"
  define pre where "pre = take (g_start g) (g_stream g)"
  have le: "g_start g \<le> length (g_stream g)" using L log_idleD(3) by blast
  then have start: "unat (log_offset (g_meta g)) = g_start g" "length pre = g_start g"
    using L db_okD(9) [OF ok] by (simp_all add: pre_def budget_def unat_of_nat)
  have stream: "g_stream g = pre @ log_bytes ops"
    using L append_take_drop_id [of "g_start g" "g_stream g"] by (simp add: pre_def ops_def)
  have "unat so + length ops < 2 ^ 64" using db_okD(5) [OF ok] by (simp add: mem_ok_def ops_def so_def)
  then obtain w' mem' where opened: "wal_open (cf_params cf) fs (log_offset (g_meta g)) (memtable_new so) =
           Some (Inr (fs, log_status_new (length (pre @ log_bytes ops)) (g_start g), w', mem',
                      \<lparr> new_position = length (pre @ log_bytes ops), entries_recovered = length ops \<rparr>))"
      "fold_result memtable_apply (memtable_new so) ops = Inr mem'"
      "writer_ok (cf_params cf) AsyncIo fs (g_start g) w' (pre @ log_bytes ops)"
    using wal_open_replays_aux [of "cf_params cf" fs "log_offset (g_meta g)" pre ops "memtable_new so"] start disk rp
    by (auto simp: on_disk_def log_replayable_def stream ops_def [symmetric])
  then show ?thesis
    by (simp add: wal_resume_def replay_def ops_def [symmetric] log_idle_def stream) (simp add: log_status_new_def)
qed

lemma tables_countable:
  assumes "ids_ok p m T"
  shows "(\<Sum>i < num_levels p. card (T i)) < 2 ^ 64"
proof -
  have "(\<Sum>i < num_levels p. card (T i)) = card (\<Union>i < num_levels p. T i)"
    using assms by (subst card_UN_disjoint) (auto simp: ids_ok_def)
  also have "\<dots> < 2 ^ 64" using assms by (intro card_u64_bound) (auto simp: ids_ok_def)
  finally show ?thesis .
qed

text \<open>The database that has been opened again, with the writes of both memtables in the new one.\<close>

lemma reopened_ok:
  assumes ok: "db_ok cf mode n w db g" and disk: "on_disk cf db g fs"
    and mem': "replay (seq_number_offset (g_meta g)) (g_imm_ops g @ g_mem_ops g) = Inr mem'"
    and wal': "log_idle (cf_params cf) AsyncIo fs wal' (g_start g) (g_stream g)"
    and cs: "coherent cf \<lparr> st_fs = fs, st_caches = cs \<rparr>"
    and lvs': "levels_ok cf fs lvs' rss' (g_ids g)"
      "list_all2 (\<lambda>rs rs'. mset rs' = mset rs \<and> newest_first (rev rs')) (g_runs g) rss'"
  defines "db' \<equiv> \<lparr> db_store = \<lparr> st_fs = fs, st_caches = cs \<rparr>, db_memtable = mem', imm_memtables = [],
                   db_levels = lvs', db_wal = wal', db_logger = None \<rparr>"
    and "g' \<equiv> g\<lparr> g_runs := rss', g_imm_ops := [], g_mem_ops := g_imm_ops g @ g_mem_ops g \<rparr>"
  shows "db_ok cf AsyncIo n w db' g'" "db_contents db' g' = db_contents db g"
proof -
  note D = db_okD [OF ok]
  let ?older = "map (entries \<circ> snd) (rev (imm_memtables db))" and ?so = "seq_number_offset (g_meta g)"
  let ?rest = "concat (map rev (g_runs g))" and ?rest' = "concat (map rev rss')"
  have runs: "db_runs db g = entries (db_memtable db) # ?older @ ?rest" "db_runs db' g' = entries mem' # ?rest'"
    by (simp_all add: db_runs_def db'_def g'_def)
  have rest: "newest_first ?rest" using D(7) by (simp add: runs sorted_wrt_append)
  note R = newest_first_levels [OF lvs'(2) rest]
  note M = memtables_replayed [OF ok mem']
  have seqs: "entry_seq_number (snd x) < ?so" if "r \<in> set ?rest'" "x \<in> set r" for r x
    using D(5) that R(2) by (auto simp: mem_ok_def)
  have "newer_run (entries mem') r" if "r \<in> set ?rest'" for r
    unfolding newer_run_def
  proof (intro allI impI)
    fix k x y assume "map_of (entries mem') k = Some x" "map_of r k = Some y"
    then have "?so \<le> entry_seq_number x" "entry_seq_number y < ?so"
      using replayD(5) [OF mem', of "(k, x)"] seqs [OF that, of "(k, y)"] by (simp_all add: map_of_SomeD)
    then show "entry_seq_number y < entry_seq_number x" by (rule order_less_le_trans [rotated])
  qed
  then have newest: "newest_first (db_runs db' g')" using R(1) by (simp add: runs)
  have frame: "log_frame (cf_params cf) (db_fs db) fs" using disk by (simp add: on_disk_def)
  have store: "store_ok cf \<lparr> st_fs = fs, st_caches = cs \<rparr> (g_meta g) (g_ids g)"
    using D(2) cs frame by (simp add: store_ok_def manifest_ok_def ids_unused_def log_frame_def)
  have budget: "budget n w db' g'"
    using D(9) M(2,3) R(3) by (simp add: budget_def runs) (simp add: db'_def g'_def total_weight_def)
  have mem: "mem_ok mem' g'" using D(5) mem' seqs by (auto simp: mem_ok_def g'_def)
  have "log_ok (cf_params cf) AsyncIo fs wal' g'" using D(8) wal' by (simp add: log_ok_def g'_def)
  then show "db_ok cf AsyncIo n w db' g'"
    using D(1,4,11) newest store budget mem lvs'(1) by (simp add: db_ok_def) (simp add: db'_def g'_def imm_ok_def)
  have "lookup_runs ?rest' k = lookup_runs ?rest k" for k
    using R(2) by (intro lookup_runs_eqI [OF rest R(1)]) (metis order_refl)+
  then have "lookup_runs ?rest' = lookup_runs ?rest" by (rule ext)
  then show "db_contents db' g' = db_contents db g"
    unfolding db_contents_def runs M(1) by (simp only: lookup_runs_Cons)
qed

lemma logic_new_open_ok:
  assumes ok: "db_ok cf mode n w db g" and disk: "on_disk cf db g fs" and rp: "log_replayable g"
    and start: "start \<noteq> CreateOrOverride" and params: "params_ok (cf_params cf)"
  shows "\<exists>db' g'. logic_new cf elapsed start Folder fs = Some (Inr db') \<and> db_ok cf AsyncIo n w db' g' \<and>
     db_contents db' g' = db_contents db g"
proof -
  define p where "p = cf_params cf"
  note D = db_okD [OF ok, folded p_def] and P = params [unfolded params_ok_def, folded p_def]
  have frame: "log_frame p (db_fs db) fs" using disk by (simp add: on_disk_def p_def)
  obtain mem' wal' where wal: "wal_resume p fs (log_offset (g_meta g)) (memtable_new (seq_number_offset (g_meta g))) = Some (Inr (fs, mem', wal'))"
      "replay (seq_number_offset (g_meta g)) (g_imm_ops g @ g_mem_ops g) = Inr mem'" "log_idle p AsyncIo fs wal' (g_start g) (g_stream g)"
    using wal_resume_ok [OF ok disk rp] by (auto simp: p_def)
  have man: "manifest_ok False p fs (g_meta g) (g_ids g)"
    using D(2) frame by (simp add: store_ok_def manifest_ok_def log_frame_def p_def)
  obtain cs where cs: "data_blocks_new cf = Inr cs" "coherent cf \<lparr> st_fs = fs, st_caches = cs \<rparr>"
    using data_blocks_new_ok [of cf fs] P D(2) by (auto simp: p_def store_ok_def config_ok_def)
  have lv: "levels_ok cf fs (db_levels db) (g_runs g) (g_ids g)"
    using levels_ok_kept [OF tables_kept_frames(4) [OF frame [unfolded p_def], of 0] D(3)] D(4) by (auto simp: ids_ok_def p_def)
  have "newest_first (concat (map rev (g_runs g)))" using D(7) by (simp add: db_runs_def sorted_wrt_append)
  from levels_reload_ok [OF lv this, folded p_def] obtain lvs' rss' where lvs':
      "load_levels cf fs (map (\<lambda>i. level_new p (of_nat i)) [0 ..< num_levels p])
         (map (\<lambda>i. sorted_list_of_set (g_ids g i)) [0 ..< num_levels p]) = Inr lvs'"
      "levels_ok cf fs lvs' rss' (g_ids g)"
      "list_all2 (\<lambda>rs rs'. mset rs' = mset rs \<and> newest_first (rev rs')) (g_runs g) rss'"
    by blast
  note R = reopened_ok [OF ok disk wal(2) wal(3) [unfolded p_def] cs(2) lvs'(2,3)]
  have "start_create p start Folder fs = Inr (False, fs)" using start by (cases start) (simp_all add: start_create_def)
  then have "logic_new cf elapsed start Folder fs = Some (Inr \<lparr> db_store = \<lparr> st_fs = fs, st_caches = cs \<rparr>, db_memtable = mem',
      imm_memtables = [], db_levels = lvs', db_wal = wal', db_logger = None \<rparr>)"
    using P manifest_open_ok [OF man tables_countable [OF D(4)]] manifest_okD(2) [OF man] wal(1) cs(1) get_table_ids_ok [OF man] lvs'(1)
    by (simp add: logic_new_def p_def [symmetric] get_seq_number_offset_def get_log_offset_def)
  then show ?thesis using R by blast
qed

end
