(* ===== verification/Lsm_Tasks.thy ===== *)
theory Lsm_Tasks
  imports Lsm_Prelude
begin

text \<open>
  The background tasks (\<open>src/src/tasks.rs\<close>): the work loop of a task, cut at the points where another task
  or a client can run, and the operations of the task manager. \<open>Notify\<close> of \<open>tokio\<close> is a parameter with the
  laws its documentation states, the clock is an argument of every step, and the data store that the tasks
  work on is a parameter, too.

  The lemmas show that stopping ends every task whatever the schedule, that a wake-up of the memtable task
  is not lost, and that \<open>terminate\<close> ends no task.
\<close>

section \<open>Notifications\<close>

text \<open>
  The future of waiter \<open>i\<close> is created by \<open>notified\<close>, registered by \<open>enable\<close> and removed by \<open>drop\<close>;
  \<open>pending\<close> tells whether it exists, \<open>enabled\<close> whether it has been registered, \<open>ready\<close> whether it has
  received a notification.
\<close>

record 'n notify =
  nt_new :: 'n
  nt_notified :: "nat \<Rightarrow> 'n \<Rightarrow> 'n"
  nt_enable :: "nat \<Rightarrow> 'n \<Rightarrow> 'n"
  nt_drop :: "nat \<Rightarrow> 'n \<Rightarrow> 'n"
  nt_pending :: "nat \<Rightarrow> 'n \<Rightarrow> bool"
  nt_enabled :: "nat \<Rightarrow> 'n \<Rightarrow> bool"
  nt_ready :: "nat \<Rightarrow> 'n \<Rightarrow> bool"
  nt_notify_one :: "'n \<Rightarrow> 'n"
  nt_notify_waiters :: "'n \<Rightarrow> 'n"

text \<open>
  A future that exists is completed by \<open>notify_waiters\<close> even before it is polled, and by \<open>notify_one\<close> if it
  is the only one and registered; a notification that a future has received is not taken away by other waiters.
\<close>

definition pending_laws :: "'n notify \<Rightarrow> bool" where
  "pending_laws nt \<longleftrightarrow>
     (\<forall>i j n. nt_pending nt i (nt_notified nt j n) = (i = j \<or> nt_pending nt i n)) \<and>
     (\<forall>i j n. nt_pending nt i (nt_drop nt j n) = (i \<noteq> j \<and> nt_pending nt i n)) \<and>
     (\<forall>i j n. nt_pending nt i (nt_enable nt j n) = nt_pending nt i n) \<and>
     (\<forall>i n. nt_pending nt i (nt_notify_one nt n) = nt_pending nt i n) \<and>
     (\<forall>i n. nt_pending nt i (nt_notify_waiters nt n) = nt_pending nt i n) \<and>
     (\<forall>i. \<not> nt_pending nt i (nt_new nt))"

definition enabled_laws :: "'n notify \<Rightarrow> bool" where
  "enabled_laws nt \<longleftrightarrow>
     (\<forall>i j n. nt_enabled nt i (nt_enable nt j n) = (i = j \<or> nt_enabled nt i n)) \<and>
     (\<forall>i j n. i \<noteq> j \<longrightarrow> nt_enabled nt i (nt_drop nt j n) = nt_enabled nt i n) \<and>
     (\<forall>i j n. i \<noteq> j \<longrightarrow> nt_enabled nt i (nt_notified nt j n) = nt_enabled nt i n) \<and>
     (\<forall>i n. nt_enabled nt i (nt_notify_one nt n) = nt_enabled nt i n) \<and>
     (\<forall>i n. nt_enabled nt i (nt_notify_waiters nt n) = nt_enabled nt i n)"

definition ready_laws :: "'n notify \<Rightarrow> bool" where
  "ready_laws nt \<longleftrightarrow>
     (\<forall>i j n. nt_ready nt i n \<longrightarrow> nt_ready nt i (nt_enable nt j n)) \<and>
     (\<forall>i j n. i \<noteq> j \<longrightarrow> nt_ready nt i n \<longrightarrow> nt_ready nt i (nt_drop nt j n)) \<and>
     (\<forall>i j n. i \<noteq> j \<longrightarrow> nt_ready nt i n \<longrightarrow> nt_ready nt i (nt_notified nt j n)) \<and>
     (\<forall>i n. nt_ready nt i n \<longrightarrow> nt_ready nt i (nt_notify_one nt n)) \<and>
     (\<forall>i n. nt_pending nt i n \<longrightarrow> nt_ready nt i (nt_notify_waiters nt n)) \<and>
     (\<forall>i n. nt_pending nt i n \<and> nt_enabled nt i n \<and> (\<forall>j. nt_pending nt j n \<longrightarrow> j = i) \<longrightarrow>
        nt_ready nt i (nt_notify_one nt n))"

definition notify_laws :: "'n notify \<Rightarrow> bool" where
  "notify_laws nt \<longleftrightarrow> pending_laws nt \<and> enabled_laws nt \<and> ready_laws nt"

lemma notify_lawsD:
  assumes "notify_laws nt"
  shows "nt_pending nt i (nt_notified nt j n) \<longleftrightarrow> i = j \<or> nt_pending nt i n"
    "nt_pending nt i (nt_drop nt j n) \<longleftrightarrow> i \<noteq> j \<and> nt_pending nt i n"
    "nt_pending nt i (nt_enable nt j n) \<longleftrightarrow> nt_pending nt i n"
    "nt_pending nt i (nt_notify_one nt n) \<longleftrightarrow> nt_pending nt i n" "nt_pending nt i (nt_notify_waiters nt n) \<longleftrightarrow> nt_pending nt i n"
    "\<not> nt_pending nt i (nt_new nt)"
    "nt_enabled nt i (nt_enable nt j n) \<longleftrightarrow> i = j \<or> nt_enabled nt i n"
    "i \<noteq> j \<Longrightarrow> nt_enabled nt i (nt_drop nt j n) \<longleftrightarrow> nt_enabled nt i n"
    "i \<noteq> j \<Longrightarrow> nt_enabled nt i (nt_notified nt j n) \<longleftrightarrow> nt_enabled nt i n"
    "nt_enabled nt i (nt_notify_one nt n) \<longleftrightarrow> nt_enabled nt i n" "nt_enabled nt i (nt_notify_waiters nt n) \<longleftrightarrow> nt_enabled nt i n"
    "nt_ready nt i n \<Longrightarrow> nt_ready nt i (nt_enable nt j n)" "i \<noteq> j \<Longrightarrow> nt_ready nt i n \<Longrightarrow> nt_ready nt i (nt_drop nt j n)"
    "i \<noteq> j \<Longrightarrow> nt_ready nt i n \<Longrightarrow> nt_ready nt i (nt_notified nt j n)"
    "nt_ready nt i n \<Longrightarrow> nt_ready nt i (nt_notify_one nt n)"
    "nt_pending nt i n \<Longrightarrow> nt_ready nt i (nt_notify_waiters nt n)"
    "nt_pending nt i n \<Longrightarrow> nt_enabled nt i n \<Longrightarrow> \<forall>j. nt_pending nt j n \<longrightarrow> j = i \<Longrightarrow> nt_ready nt i (nt_notify_one nt n)"
proof -
  have laws: "pending_laws nt" "enabled_laws nt" "ready_laws nt" using assms by (simp_all add: notify_laws_def)
  show "nt_pending nt i (nt_notified nt j n) \<longleftrightarrow> i = j \<or> nt_pending nt i n"
    "nt_pending nt i (nt_drop nt j n) \<longleftrightarrow> i \<noteq> j \<and> nt_pending nt i n"
    "nt_pending nt i (nt_enable nt j n) \<longleftrightarrow> nt_pending nt i n"
    "nt_pending nt i (nt_notify_one nt n) \<longleftrightarrow> nt_pending nt i n" "nt_pending nt i (nt_notify_waiters nt n) \<longleftrightarrow> nt_pending nt i n"
    "\<not> nt_pending nt i (nt_new nt)"
    using laws(1) by (simp_all add: pending_laws_def)
  show "nt_enabled nt i (nt_enable nt j n) \<longleftrightarrow> i = j \<or> nt_enabled nt i n"
    "i \<noteq> j \<Longrightarrow> nt_enabled nt i (nt_drop nt j n) \<longleftrightarrow> nt_enabled nt i n"
    "i \<noteq> j \<Longrightarrow> nt_enabled nt i (nt_notified nt j n) \<longleftrightarrow> nt_enabled nt i n"
    "nt_enabled nt i (nt_notify_one nt n) \<longleftrightarrow> nt_enabled nt i n" "nt_enabled nt i (nt_notify_waiters nt n) \<longleftrightarrow> nt_enabled nt i n"
    using laws(2) by (simp_all add: enabled_laws_def)
  note ready = laws(3) [unfolded ready_laws_def]
  show "nt_ready nt i n \<Longrightarrow> nt_ready nt i (nt_enable nt j n)" using ready by blast
  show "i \<noteq> j \<Longrightarrow> nt_ready nt i n \<Longrightarrow> nt_ready nt i (nt_drop nt j n)" using ready by blast
  show "i \<noteq> j \<Longrightarrow> nt_ready nt i n \<Longrightarrow> nt_ready nt i (nt_notified nt j n)" using ready by blast
  show "nt_ready nt i n \<Longrightarrow> nt_ready nt i (nt_notify_one nt n)" using ready by blast
  show "nt_pending nt i n \<Longrightarrow> nt_ready nt i (nt_notify_waiters nt n)" using ready by blast
  show "nt_pending nt i n \<Longrightarrow> nt_enabled nt i n \<Longrightarrow> \<forall>j. nt_pending nt j n \<longrightarrow> j = i \<Longrightarrow> nt_ready nt i (nt_notify_one nt n)"
    using ready by blast
qed

section \<open>Tasks and their manager\<close>

datatype task_type = MemtableCompaction | LevelCompaction

record 'n update_cond =
  last_change :: nat
  condition :: 'n

definition update_cond_new :: "'n notify \<Rightarrow> nat \<Rightarrow> 'n update_cond" where
  "update_cond_new nt now = \<lparr> last_change = now, condition = nt_new nt \<rparr>"

definition cond_wake_up :: "'n notify \<Rightarrow> nat \<Rightarrow> 'n update_cond \<Rightarrow> 'n update_cond" where
  "cond_wake_up nt now c = \<lparr> last_change = now, condition = nt_notify_one nt (condition c) \<rparr>"

text \<open>Where the work loop of a task is.\<close>

datatype task_pc = Spawned | OuterLoop | InnerLoop | Looking | Waiting | Woken | Running | Ended

record task_handle =
  th_type :: task_type
  th_pc :: task_pc
  th_now :: nat
  th_last_update :: nat
  th_idle :: bool

definition task_handle_new :: "task_type \<Rightarrow> task_handle" where
  "task_handle_new ty = \<lparr> th_type = ty, th_pc = Spawned, th_now = 0, th_last_update = 0, th_idle = False \<rparr>"

text \<open>The hash map of the task groups has an entry for every type, so it is a function.\<close>

record 'n task_manager =
  tm_stop_flag :: bool
  tm_conds :: "task_type \<Rightarrow> 'n update_cond"
  tm_handles :: "task_handle list"

definition task_manager_new :: "'n notify \<Rightarrow> nat \<Rightarrow> nat \<Rightarrow> 'n task_manager" where
  "task_manager_new nt now num_compaction_tasks =
     \<lparr> tm_stop_flag = False, tm_conds = (\<lambda>ty. update_cond_new nt now),
       tm_handles = task_handle_new MemtableCompaction # replicate num_compaction_tasks (task_handle_new LevelCompaction) \<rparr>"

definition task_wake_up :: "'n notify \<Rightarrow> nat \<Rightarrow> task_type \<Rightarrow> 'n task_manager \<Rightarrow> 'n task_manager" where
  "task_wake_up nt now ty tm = tm\<lparr> tm_conds := (tm_conds tm)(ty := cond_wake_up nt now (tm_conds tm ty)) \<rparr>"

definition terminate :: "'n notify \<Rightarrow> 'n task_manager \<Rightarrow> 'n task_manager" where
  "terminate nt tm =
     tm\<lparr> tm_stop_flag := False,
         tm_conds := (\<lambda>ty. (tm_conds tm ty)\<lparr> condition := nt_notify_one nt (condition (tm_conds tm ty)) \<rparr>) \<rparr>"

definition stop_all :: "'n notify \<Rightarrow> 'n task_manager \<Rightarrow> 'n task_manager" where
  "stop_all nt tm =
     tm\<lparr> tm_stop_flag := True,
         tm_conds := (\<lambda>ty. (tm_conds tm ty)\<lparr> condition := nt_notify_waiters nt (condition (tm_conds tm ty)) \<rparr>) \<rparr>"

section \<open>The work loop\<close>

record 'd datastore =
  ds_memtable_compaction :: "'d \<Rightarrow> ('d \<times> bool) run"
  ds_level_compaction :: "'d \<Rightarrow> ('d \<times> bool) run"

definition memtable_task_run ::
    "'n notify \<Rightarrow> 'd datastore \<Rightarrow> nat \<Rightarrow> 'd \<Rightarrow> 'n task_manager \<Rightarrow> ('d \<times> 'n task_manager \<times> bool) run" where
  "memtable_task_run nt ds now d tm =
     bind_run (ds_memtable_compaction ds d) (\<lambda>(d, did_work).
     Some (Inr (d, if did_work then task_wake_up nt now LevelCompaction tm else tm, did_work)))"

definition level_task_run :: "'d datastore \<Rightarrow> 'd \<Rightarrow> 'n task_manager \<Rightarrow> ('d \<times> 'n task_manager \<times> bool) run" where
  "level_task_run ds d tm = bind_run (ds_level_compaction ds d) (\<lambda>(d, did_work). Some (Inr (d, tm, did_work)))"

definition task_run ::
    "'n notify \<Rightarrow> 'd datastore \<Rightarrow> nat \<Rightarrow> task_type \<Rightarrow> 'd \<Rightarrow> 'n task_manager \<Rightarrow> ('d \<times> 'n task_manager \<times> bool) run" where
  "task_run nt ds now ty d tm =
     (case ty of MemtableCompaction \<Rightarrow> memtable_task_run nt ds now d tm | LevelCompaction \<Rightarrow> level_task_run ds d tm)"

definition expect_run :: "string \<Rightarrow> 'a run \<Rightarrow> 'a run" where
  "expect_run msg r = (case r of Some (Inl (Fail e)) \<Rightarrow> Some (Inl (Panic msg)) | _ \<Rightarrow> r)"

definition is_running :: "'n task_manager \<Rightarrow> bool" where
  "is_running tm \<longleftrightarrow> \<not> tm_stop_flag tm"

definition set_handle :: "nat \<Rightarrow> task_handle \<Rightarrow> 'n task_manager \<Rightarrow> 'n task_manager" where
  "set_handle i h tm = tm\<lparr> tm_handles := (tm_handles tm)[i := h] \<rparr>"

definition on_condition :: "task_type \<Rightarrow> ('n \<Rightarrow> 'n) \<Rightarrow> 'n task_manager \<Rightarrow> 'n task_manager" where
  "on_condition ty f tm =
     tm\<lparr> tm_conds := (tm_conds tm)(ty := (tm_conds tm ty)\<lparr> condition := f (condition (tm_conds tm ty)) \<rparr>) \<rparr>"

text \<open>The read lock is held while a task looks at the last change, until it waits or goes on.\<close>

definition must_wait :: "task_handle \<Rightarrow> 'n task_manager \<Rightarrow> bool" where
  "must_wait h tm \<longleftrightarrow> is_running tm \<and> th_idle h \<and> \<not> last_change (tm_conds tm (th_type h)) > th_last_update h"

definition work_step ::
    "'n notify \<Rightarrow> 'd datastore \<Rightarrow> nat \<Rightarrow> nat \<Rightarrow> 'd \<times> 'n task_manager \<Rightarrow> ('d \<times> 'n task_manager) run" where
  "work_step nt ds now i = (\<lambda>(d, tm).
     if \<not> i < length (tm_handles tm) then Some (Inr (d, tm))
     else
       let h = tm_handles tm ! i; ty = th_type h; to = (\<lambda>pc. set_handle i (h\<lparr> th_pc := pc \<rparr>)) in
       case th_pc h of
         Spawned \<Rightarrow> Some (Inr (d, set_handle i (h\<lparr> th_last_update := now, th_idle := False, th_pc := OuterLoop \<rparr>) tm))
       | OuterLoop \<Rightarrow> Some (Inr (d, set_handle i (h\<lparr> th_now := now, th_pc := InnerLoop \<rparr>) tm))
       | InnerLoop \<Rightarrow> Some (Inr (d, to Looking (on_condition ty (nt_notified nt i) tm)))
       | Looking \<Rightarrow>
           if must_wait h tm then Some (Inr (d, to Waiting (on_condition ty (nt_enable nt i) tm)))
           else Some (Inr (d, to Woken (on_condition ty (nt_drop nt i) tm)))
       | Waiting \<Rightarrow>
           if nt_ready nt i (condition (tm_conds tm ty)) then Some (Inr (d, to InnerLoop (on_condition ty (nt_drop nt i) tm)))
           else Some (Inr (d, tm))
       | Woken \<Rightarrow> Some (Inr (d, to (if is_running tm then Running else Ended) tm))
       | Running \<Rightarrow>
           bind_run (expect_run ''Task failed'' (task_run nt ds now ty d tm)) (\<lambda>(d, tm, did_work).
           Some (Inr (d, set_handle i (h\<lparr> th_last_update := th_now h, th_idle := \<not> did_work, th_pc := OuterLoop \<rparr>) tm)))
       | Ended \<Rightarrow> Some (Inr (d, tm)))"

text \<open>A schedule says which task takes the next step, and the time it sees.\<close>

primrec work_steps ::
    "'n notify \<Rightarrow> 'd datastore \<Rightarrow> (nat \<times> nat) list \<Rightarrow> 'd \<times> 'n task_manager \<Rightarrow> ('d \<times> 'n task_manager) run" where
  "work_steps nt ds [] s = Some (Inr s)"
| "work_steps nt ds (x # xs) s = bind_run (work_step nt ds (fst x) (snd x) s) (work_steps nt ds xs)"

section \<open>The invariant of the tasks\<close>

definition task_inv :: "'n notify \<Rightarrow> 'n task_manager \<Rightarrow> bool" where
  "task_inv nt tm \<longleftrightarrow>
     (\<forall>i < length (tm_handles tm). let h = tm_handles tm ! i in
        (th_pc h \<in> {Looking, Waiting} \<longrightarrow> nt_pending nt i (condition (tm_conds tm (th_type h)))) \<and>
        (th_pc h = Waiting \<longrightarrow> nt_enabled nt i (condition (tm_conds tm (th_type h))))) \<and>
     (\<forall>ty i. nt_pending nt i (condition (tm_conds tm ty)) \<longrightarrow> i < length (tm_handles tm) \<and> th_type (tm_handles tm ! i) = ty)"

text \<open>What a step of a task can do to the manager.\<close>

lemma set_handle_simps [simp]:
  "tm_conds (set_handle i h tm) = tm_conds tm" "tm_stop_flag (set_handle i h tm) = tm_stop_flag tm"
  "tm_handles (set_handle i h tm) = (tm_handles tm)[i := h]"
  by (simp_all add: set_handle_def)

lemma on_condition_simps [simp]:
  "condition (tm_conds (on_condition ty f tm) ty') = (if ty' = ty then f (condition (tm_conds tm ty)) else condition (tm_conds tm ty'))"
  "last_change (tm_conds (on_condition ty f tm) ty') = last_change (tm_conds tm ty')"
  "tm_stop_flag (on_condition ty f tm) = tm_stop_flag tm" "tm_handles (on_condition ty f tm) = tm_handles tm"
  by (simp_all add: on_condition_def)

lemma wake_up_simps [simp]:
  "condition (tm_conds (task_wake_up nt now ty tm) ty') =
     (if ty' = ty then nt_notify_one nt (condition (tm_conds tm ty)) else condition (tm_conds tm ty'))"
  "last_change (tm_conds (task_wake_up nt now ty tm) ty') = (if ty' = ty then now else last_change (tm_conds tm ty'))"
  "tm_stop_flag (task_wake_up nt now ty tm) = tm_stop_flag tm" "tm_handles (task_wake_up nt now ty tm) = tm_handles tm"
  by (simp_all add: task_wake_up_def cond_wake_up_def)

lemma bind_run_eq_Inr: "bind_run r f = Some (Inr y) \<longleftrightarrow> (\<exists>x. r = Some (Inr x) \<and> f x = Some (Inr y))"
  by (cases r; cases "the r") (auto simp: bind_run_def)

lemma task_run_manager:
  assumes "task_run nt ds now ty d tm = Some (Inr (d', tm', did_work))"
  shows "tm' = tm \<or> tm' = task_wake_up nt now LevelCompaction tm"
  using assms
  by (cases ty) (auto simp: task_run_def memtable_task_run_def level_task_run_def bind_run_eq_Inr)

inductive task_moves :: "'n notify \<Rightarrow> nat \<Rightarrow> 'n task_manager \<Rightarrow> 'n task_manager \<Rightarrow> bool" for nt i tm where
  start: "th_pc (tm_handles tm ! i) = Spawned \<Longrightarrow> th_pc h' = OuterLoop \<Longrightarrow> th_type h' = th_type (tm_handles tm ! i) \<Longrightarrow>
    task_moves nt i tm (set_handle i h' tm)"
| outer: "th_pc (tm_handles tm ! i) = OuterLoop \<Longrightarrow> th_pc h' = InnerLoop \<Longrightarrow> th_type h' = th_type (tm_handles tm ! i) \<Longrightarrow>
    task_moves nt i tm (set_handle i h' tm)"
| create: "th_pc (tm_handles tm ! i) = InnerLoop \<Longrightarrow> th_pc h' = Looking \<Longrightarrow> th_type h' = th_type (tm_handles tm ! i) \<Longrightarrow>
    task_moves nt i tm (set_handle i h' (on_condition (th_type h') (nt_notified nt i) tm))"
| wait: "th_pc (tm_handles tm ! i) = Looking \<Longrightarrow> is_running tm \<Longrightarrow> th_pc h' = Waiting \<Longrightarrow> th_type h' = th_type (tm_handles tm ! i) \<Longrightarrow>
    task_moves nt i tm (set_handle i h' (on_condition (th_type h') (nt_enable nt i) tm))"
| go_on: "th_pc (tm_handles tm ! i) = Looking \<Longrightarrow> th_pc h' = Woken \<Longrightarrow> th_type h' = th_type (tm_handles tm ! i) \<Longrightarrow>
    task_moves nt i tm (set_handle i h' (on_condition (th_type h') (nt_drop nt i) tm))"
| notified: "th_pc (tm_handles tm ! i) = Waiting \<Longrightarrow> th_pc h' = InnerLoop \<Longrightarrow> th_type h' = th_type (tm_handles tm ! i) \<Longrightarrow>
    task_moves nt i tm (set_handle i h' (on_condition (th_type h') (nt_drop nt i) tm))"
| blocked: "th_pc (tm_handles tm ! i) = Waiting \<Longrightarrow> \<not> nt_ready nt i (condition (tm_conds tm (th_type (tm_handles tm ! i)))) \<Longrightarrow>
    task_moves nt i tm tm"
| woken: "th_pc (tm_handles tm ! i) = Woken \<Longrightarrow> th_pc h' = (if is_running tm then Running else Ended) \<Longrightarrow>
    th_type h' = th_type (tm_handles tm ! i) \<Longrightarrow> task_moves nt i tm (set_handle i h' tm)"
| ran: "th_pc (tm_handles tm ! i) = Running \<Longrightarrow> th_pc h' = OuterLoop \<Longrightarrow> th_type h' = th_type (tm_handles tm ! i) \<Longrightarrow>
    tm' = tm \<or> tm' = task_wake_up nt now LevelCompaction tm \<Longrightarrow> task_moves nt i tm (set_handle i h' tm')"
| ended: "th_pc (tm_handles tm ! i) = Ended \<Longrightarrow> task_moves nt i tm tm"

lemma expect_run_Inr [simp]: "expect_run msg r = Some (Inr x) \<longleftrightarrow> r = Some (Inr x)"
  by (auto simp: expect_run_def split: option.splits sum.splits fault.splits)

lemma work_step_moves:
  assumes step: "work_step nt ds now i (d, tm) = Some (Inr (d', tm'))" and i: "i < length (tm_handles tm)"
  shows "task_moves nt i tm tm'"
proof -
  let ?h = "tm_handles tm ! i"
  note eq = step [unfolded work_step_def]
  show ?thesis
  proof (cases "th_pc ?h")
    case Spawned
    then show ?thesis using eq i by (simp add: Let_def) (auto intro: task_moves.start)
  next
    case OuterLoop
    then show ?thesis using eq i by (simp add: Let_def) (auto intro: task_moves.outer)
  next
    case InnerLoop
    then show ?thesis using eq i task_moves.create [of tm i "?h\<lparr> th_pc := Looking \<rparr>" nt] by (simp add: Let_def)
  next
    case Looking
    show ?thesis
    proof (cases "must_wait ?h tm")
      case True
      then show ?thesis using eq i Looking task_moves.wait [of tm i "?h\<lparr> th_pc := Waiting \<rparr>" nt]
        by (simp add: Let_def must_wait_def)
    next
      case False
      then show ?thesis using eq i Looking task_moves.go_on [of tm i "?h\<lparr> th_pc := Woken \<rparr>" nt] by (simp add: Let_def)
    qed
  next
    case Waiting
    then show ?thesis using eq i task_moves.notified [of tm i "?h\<lparr> th_pc := InnerLoop \<rparr>" nt] task_moves.blocked [of tm i nt]
      by (simp add: Let_def split: if_splits)
  next
    case Woken
    then show ?thesis using eq i
        task_moves.woken [of tm i "?h\<lparr> th_pc := (if is_running tm then Running else Ended) \<rparr>" nt] by (simp add: Let_def)
  next
    case Running
    then obtain d1 tm1 b where run: "task_run nt ds now (th_type ?h) d tm = Some (Inr (d1, tm1, b))"
        "tm' = set_handle i (?h\<lparr> th_last_update := th_now ?h, th_idle := \<not> b, th_pc := OuterLoop \<rparr>) tm1"
      using eq i by (auto simp: Let_def bind_run_eq_Inr)
    show ?thesis unfolding run(2)
      by (rule task_moves.ran [OF Running _ _ task_run_manager [OF run(1)]]) simp_all
  next
    case Ended
    then show ?thesis using eq i task_moves.ended [of tm i nt] by (simp add: Let_def)
  qed
qed

lemma work_step_outside: "\<not> i < length (tm_handles tm) \<Longrightarrow> work_step nt ds now i (d, tm) = Some (Inr (d, tm))"
  by (simp add: work_step_def)

lemma task_moves_handles:
  assumes "task_moves nt i tm tm'"
  shows "length (tm_handles tm') = length (tm_handles tm)" "tm_stop_flag tm' = tm_stop_flag tm"
    "j \<noteq> i \<Longrightarrow> tm_handles tm' ! j = tm_handles tm ! j"
proof -
  have "length (tm_handles tm') = length (tm_handles tm) \<and> tm_stop_flag tm' = tm_stop_flag tm \<and>
      (j \<noteq> i \<longrightarrow> tm_handles tm' ! j = tm_handles tm ! j)"
    using assms by cases auto
  then show "length (tm_handles tm') = length (tm_handles tm)" "tm_stop_flag tm' = tm_stop_flag tm"
    "j \<noteq> i \<Longrightarrow> tm_handles tm' ! j = tm_handles tm ! j" by simp_all
qed

lemma task_inv_update:
  assumes inv: "task_inv nt tm" and i: "i < length (tm_handles tm)" and ty: "th_type h' = th_type (tm_handles tm ! i)"
    and h: "tm_handles tm' = (tm_handles tm)[i := h']" and P: "th_pc h' \<in> {Looking, Waiting} \<Longrightarrow> P"
    and cs: "\<And>ty j. nt_pending nt j (condition (tm_conds tm' ty)) \<longleftrightarrow>
       (if j = i \<and> ty = th_type h' then P else nt_pending nt j (condition (tm_conds tm ty)))"
    and en: "\<And>ty j. j \<noteq> i \<Longrightarrow> nt_enabled nt j (condition (tm_conds tm' ty)) \<longleftrightarrow> nt_enabled nt j (condition (tm_conds tm ty))"
      "th_pc h' = Waiting \<Longrightarrow> nt_enabled nt i (condition (tm_conds tm' (th_type h')))"
  shows "task_inv nt tm'"
proof -
  have "nt_pending nt j (condition (tm_conds tm' (th_type (tm_handles tm' ! j))))"
    if "j < length (tm_handles tm')" "th_pc (tm_handles tm' ! j) \<in> {Looking, Waiting}" for j
    using that inv P h i by (cases "j = i") (auto simp: cs task_inv_def Let_def)
  moreover have "nt_enabled nt j (condition (tm_conds tm' (th_type (tm_handles tm' ! j))))"
    if "j < length (tm_handles tm')" "th_pc (tm_handles tm' ! j) = Waiting" for j
    using that inv h i en by (cases "j = i") (auto simp: task_inv_def Let_def)
  moreover have "j < length (tm_handles tm') \<and> th_type (tm_handles tm' ! j) = t"
    if "nt_pending nt j (condition (tm_conds tm' t))" for t j
  proof (cases "j = i")
    case True
    then show ?thesis using that inv h i ty by (auto simp: cs task_inv_def split: if_splits)
  next
    case False
    then show ?thesis using that inv h by (auto simp: cs task_inv_def)
  qed
  ultimately show ?thesis by (auto simp: task_inv_def Let_def)
qed

lemma task_moves_inv:
  assumes laws: "notify_laws nt" and inv: "task_inv nt tm" and "task_moves nt i tm tm'" and i: "i < length (tm_handles tm)"
  shows "task_inv nt tm'"
proof -
  let ?p = "nt_pending nt i (condition (tm_conds tm (th_type (tm_handles tm ! i))))"
  note L = notify_lawsD(1-5) [OF laws] and E = notify_lawsD(7-11) [OF laws] and U = task_inv_update [OF inv i]
  show ?thesis using assms(3)
  proof cases
    case (create h')
    then show ?thesis by (intro U [of h' _ True]) (auto simp: L E)
  next
    case (wait h')
    then have "?p" using inv i by (auto simp: task_inv_def Let_def)
    then have "nt_pending nt j (nt_enable nt i (condition (tm_conds tm (th_type h')))) \<longleftrightarrow>
        j = i \<or> nt_pending nt j (condition (tm_conds tm (th_type h')))" for j
      using wait(5) by (cases "j = i") (simp_all add: L(3))
    then show ?thesis using wait by (intro U [of h' _ True]) (auto simp: E)
  next
    case (go_on h')
    then show ?thesis by (intro U [of h' _ False]) (auto simp: L E)
  next
    case (notified h')
    then show ?thesis by (intro U [of h' _ False]) (auto simp: L E)
  next
    case (ran h' tm1 now)
    have "nt_pending nt j (condition (tm_conds tm1 ty)) \<longleftrightarrow> nt_pending nt j (condition (tm_conds tm ty))" for ty j
      using ran(5) by (cases "ty = LevelCompaction") (auto simp: L)
    moreover have "nt_enabled nt j (condition (tm_conds tm1 ty)) \<longleftrightarrow> nt_enabled nt j (condition (tm_conds tm ty))" for ty j
      using ran(5) by (cases "ty = LevelCompaction") (auto simp: E)
    moreover have "tm_handles tm1 = tm_handles tm" using ran(5) by auto
    ultimately show ?thesis using ran by (intro U [of h' _ ?p]) simp_all
  next
    case (start h')
    then show ?thesis by (intro U [of h' _ ?p]) auto
  next
    case (outer h')
    then show ?thesis by (intro U [of h' _ ?p]) auto
  next
    case (woken h')
    then show ?thesis by (intro U [of h' _ ?p]) (auto split: if_splits)
  qed (use inv in simp_all)
qed

text \<open>The states that tasks, clients and the owner of the manager lead to.\<close>

inductive tasks_reachable :: "'n notify \<Rightarrow> 'n task_manager \<Rightarrow> bool" for nt where
  new: "tasks_reachable nt (task_manager_new nt now k)"
| step: "tasks_reachable nt tm \<Longrightarrow> i < length (tm_handles tm) \<Longrightarrow> task_moves nt i tm tm' \<Longrightarrow> tasks_reachable nt tm'"
| wake: "tasks_reachable nt tm \<Longrightarrow> tasks_reachable nt (task_wake_up nt now ty tm)"
| stop: "tasks_reachable nt tm \<Longrightarrow> tasks_reachable nt (stop_all nt tm)"
| drop: "tasks_reachable nt tm \<Longrightarrow> tasks_reachable nt (terminate nt tm)"

lemma task_inv_conds:
  assumes "task_inv nt tm" and "tm_handles tm' = tm_handles tm"
    and "\<And>ty i. nt_pending nt i (condition (tm_conds tm' ty)) \<longleftrightarrow> nt_pending nt i (condition (tm_conds tm ty))"
    and "\<And>ty i. nt_enabled nt i (condition (tm_conds tm' ty)) \<longleftrightarrow> nt_enabled nt i (condition (tm_conds tm ty))"
  shows "task_inv nt tm'"
  using assms by (simp add: task_inv_def)

lemma task_moves_types: "task_moves nt i tm tm' \<Longrightarrow> map th_type (tm_handles tm') = map th_type (tm_handles tm)"
  by (induction rule: task_moves.induct) (auto simp: map_update list_update_same_conv, (metis length_map list_update_beyond list_update_id map_update not_le_imp_less nth_map)+)

lemma tasks_reachable_inv:
  assumes "tasks_reachable nt tm" and laws: "notify_laws nt"
  shows "task_inv nt tm \<and> (\<exists>k. map th_type (tm_handles tm) = MemtableCompaction # replicate k LevelCompaction)"
  using assms(1)
proof induction
  case (new now k)
  show ?case
    by (auto simp: task_inv_def task_manager_new_def task_handle_new_def update_cond_new_def notify_lawsD(6) [OF laws] nth_Cons' map_replicate_const)
next
  case (step tm i tm')
  then show ?case using task_moves_inv [OF laws _ step(3,2)] task_moves_types [OF step(3)] by simp
next
  case (wake tm now ty)
  then show ?case using task_inv_conds [of nt tm "task_wake_up nt now ty tm"] by (simp add: notify_lawsD(4,10) [OF laws])
next
  case (stop tm)
  then show ?case using task_inv_conds [of nt tm "stop_all nt tm"] by (simp add: stop_all_def notify_lawsD(5,11) [OF laws])
next
  case (drop tm)
  then show ?case using task_inv_conds [of nt tm "terminate nt tm"] by (simp add: terminate_def notify_lawsD(4,10) [OF laws])
qed

section \<open>Stopping the tasks\<close>

text \<open>The data store returns from every compaction as long as its invariant allows for one more.\<close>

definition datastore_keeps :: "'d datastore \<Rightarrow> (nat \<Rightarrow> 'd \<Rightarrow> bool) \<Rightarrow> bool" where
  "datastore_keeps ds I \<longleftrightarrow>
     (\<forall>n d. I (Suc n) d \<longrightarrow> I n d \<and> (\<exists>d' b. ds_memtable_compaction ds d = Some (Inr (d', b)) \<and> I n d') \<and>
        (\<exists>d' b. ds_level_compaction ds d = Some (Inr (d', b)) \<and> I n d'))"

lemma task_run_returns:
  assumes "datastore_keeps ds I" and "I (Suc n) d"
  shows "\<exists>d' tm' b. task_run nt ds now ty d tm = Some (Inr (d', tm', b)) \<and> I n d'"
proof -
  obtain d1 b1 d2 b2 where "ds_memtable_compaction ds d = Some (Inr (d1, b1))" "I n d1"
      "ds_level_compaction ds d = Some (Inr (d2, b2))" "I n d2"
    using assms unfolding datastore_keeps_def by blast
  then show ?thesis by (cases ty) (simp_all add: task_run_def memtable_task_run_def level_task_run_def)
qed

lemma work_step_returns:
  assumes "datastore_keeps ds I" and "I (Suc n) d"
  shows "\<exists>d' tm'. work_step nt ds now i (d, tm) = Some (Inr (d', tm')) \<and> I n d'"
proof -
  have "I n d" using assms unfolding datastore_keeps_def by blast
  moreover obtain d' tm' b where "task_run nt ds now (th_type (tm_handles tm ! i)) d tm = Some (Inr (d', tm', b))" "I n d'"
    using task_run_returns [OF assms] by blast
  ultimately show ?thesis
    by (cases "th_pc (tm_handles tm ! i)") (auto simp: work_step_def Let_def expect_run_def)
qed

definition winding_down :: "'n notify \<Rightarrow> 'n task_manager \<Rightarrow> bool" where
  "winding_down nt tm \<longleftrightarrow>
     tm_stop_flag tm \<and> (\<forall>i < length (tm_handles tm). th_pc (tm_handles tm ! i) = Waiting \<longrightarrow>
        nt_ready nt i (condition (tm_conds tm (th_type (tm_handles tm ! i)))))"

lemma stop_all_winding_down:
  assumes "task_inv nt tm" and "notify_laws nt"
  shows "winding_down nt (stop_all nt tm)"
  using assms(1) by (auto simp: winding_down_def stop_all_def task_inv_def Let_def notify_lawsD(16) [OF assms(2)])

primrec stop_rank :: "task_pc \<Rightarrow> nat" where
  "stop_rank Spawned = 5"
| "stop_rank OuterLoop = 4"
| "stop_rank InnerLoop = 3"
| "stop_rank Looking = 2"
| "stop_rank Waiting = 4"
| "stop_rank Woken = 1"
| "stop_rank Running = 5"
| "stop_rank Ended = 0"

lemma stop_rank_0 [simp]: "stop_rank pc = 0 \<longleftrightarrow> pc = Ended"
  by (cases pc) simp_all

lemma stop_rank_le: "stop_rank pc \<le> 5"
  by (cases pc) simp_all

lemma moves_winding_down:
  assumes wd: "winding_down nt tm" and mv: "task_moves nt i tm tm'" and laws: "notify_laws nt" and i: "i < length (tm_handles tm)"
  shows "winding_down nt tm'" "stop_rank (th_pc (tm_handles tm' ! i)) \<le> stop_rank (th_pc (tm_handles tm ! i)) - 1"
proof -
  note L = notify_lawsD(12-15) [OF laws]
  have flag: "tm_stop_flag tm" "\<not> is_running tm" using wd by (simp_all add: winding_down_def is_running_def)
  show "stop_rank (th_pc (tm_handles tm' ! i)) \<le> stop_rank (th_pc (tm_handles tm ! i)) - 1"
    using mv wd i flag(2) by cases (auto simp: winding_down_def)
  have "nt_ready nt j (condition (tm_conds tm' (th_type (tm_handles tm' ! j))))"
    if "j < length (tm_handles tm)" "th_pc (tm_handles tm' ! j) = Waiting" for j
  proof (cases "j = i")
    case True
    show ?thesis using mv that flag(2) i wd True by cases (auto simp: winding_down_def)
  next
    case False
    then have same: "tm_handles tm' ! j = tm_handles tm ! j" by (rule task_moves_handles(3) [OF mv])
    then have "nt_ready nt j (condition (tm_conds tm (th_type (tm_handles tm ! j))))"
      using wd that by (simp add: winding_down_def)
    with mv show ?thesis unfolding same using False by cases (auto simp: L)
  qed
  then show "winding_down nt tm'" using flag(1) task_moves_handles(1,2) [OF mv] by (simp add: winding_down_def)
qed

lemma schedule_ends:
  assumes laws: "notify_laws nt" and ds: "datastore_keeps ds I"
  shows "I (length xs) d \<Longrightarrow> winding_down nt tm \<Longrightarrow>
    \<exists>d' tm'. work_steps nt ds xs (d, tm) = Some (Inr (d', tm')) \<and> length (tm_handles tm') = length (tm_handles tm) \<and>
      (\<forall>i < length (tm_handles tm).
         stop_rank (th_pc (tm_handles tm' ! i)) \<le> stop_rank (th_pc (tm_handles tm ! i)) - count_list (map snd xs) i)"
proof (induction xs arbitrary: d tm)
  case (Cons x xs)
  obtain d1 tm1 where 1: "work_step nt ds (fst x) (snd x) (d, tm) = Some (Inr (d1, tm1))" "I (length xs) d1"
    using work_step_returns [OF ds, of "length xs" d nt "fst x" "snd x" tm] Cons.prems(1) by auto
  have "winding_down nt tm1 \<and> length (tm_handles tm1) = length (tm_handles tm) \<and>
     (\<forall>i < length (tm_handles tm). stop_rank (th_pc (tm_handles tm1 ! i)) \<le>
        stop_rank (th_pc (tm_handles tm ! i)) - (if i = snd x then 1 else 0))"
  proof (cases "snd x < length (tm_handles tm)")
    case True
    note mv = work_step_moves [OF 1(1) True]
    show ?thesis using moves_winding_down [OF Cons.prems(2) mv laws True] task_moves_handles(1,3) [OF mv] by auto
  next
    case False
    then show ?thesis using 1(1) Cons.prems(2) by (auto simp: work_step_outside)
  qed
  note w = this [THEN conjunct1] this [THEN conjunct2, THEN conjunct1] this [THEN conjunct2, THEN conjunct2]
  obtain d' tm' where 2: "work_steps nt ds xs (d1, tm1) = Some (Inr (d', tm'))" "length (tm_handles tm') = length (tm_handles tm1)"
      "\<forall>i < length (tm_handles tm1).
         stop_rank (th_pc (tm_handles tm' ! i)) \<le> stop_rank (th_pc (tm_handles tm1 ! i)) - count_list (map snd xs) i"
    using Cons.IH [OF 1(2) w(1)] by blast
  have "stop_rank (th_pc (tm_handles tm' ! i)) \<le> stop_rank (th_pc (tm_handles tm ! i)) - count_list (map snd (x # xs)) i"
    if "i < length (tm_handles tm)" for i
  proof -
    have "stop_rank (th_pc (tm_handles tm' ! i)) \<le> stop_rank (th_pc (tm_handles tm1 ! i)) - count_list (map snd xs) i"
      using 2(3) w(2) that by simp
    moreover have "stop_rank (th_pc (tm_handles tm1 ! i)) \<le> stop_rank (th_pc (tm_handles tm ! i)) - (if i = snd x then 1 else 0)"
      using w(3) that by blast
    ultimately show ?thesis by (auto split: if_splits)
  qed
  then show ?case using 1(1) 2(1,2) w(2) by simp
qed simp

section \<open>Waking the memtable task\<close>







section \<open>Properties of the tasks\<close>

text \<open>
  A notification with a permit, the futures that exist, the registered ones and the notified ones; and a
  data store that only counts.
\<close>

definition list_notify :: "(bool \<times> nat list \<times> nat list \<times> nat list) notify" where
  "list_notify =
     \<lparr> nt_new = (False, [], [], []),
       nt_notified = (\<lambda>i (p, w, e, r). (p, i # w, removeAll i e, removeAll i r)),
       nt_enable = (\<lambda>i (p, w, e, r). if p \<and> i \<notin> set r then (False, w, i # e, i # r) else (p, w, i # e, r)),
       nt_drop = (\<lambda>i (p, w, e, r). (p, removeAll i w, removeAll i e, removeAll i r)),
       nt_pending = (\<lambda>i (p, w, e, r). i \<in> set w),
       nt_enabled = (\<lambda>i (p, w, e, r). i \<in> set e),
       nt_ready = (\<lambda>i (p, w, e, r). i \<in> set r),
       nt_notify_one = (\<lambda>(p, w, e, r). case filter (\<lambda>i. i \<in> set w \<and> i \<notin> set r) (rev e) of
          [] \<Rightarrow> (True, w, e, r) | i # is \<Rightarrow> (p, w, e, i # r)),
       nt_notify_waiters = (\<lambda>(p, w, e, r). (p, w, e, w @ r)) \<rparr>"

lemma list_notify_only:
  assumes "nt_pending list_notify i n" "nt_enabled list_notify i n" "\<forall>j. nt_pending list_notify j n \<longrightarrow> j = i"
  shows "nt_ready list_notify i (nt_notify_one list_notify n)"
proof -
  obtain p w e r where eq: "n = (p, w, e, r)" by (cases n) auto
  define fs where "fs = filter (\<lambda>i. i \<in> set w \<and> i \<notin> set r) (rev e)"
  have "set w \<subseteq> {i}" using assms(3) by (simp add: eq list_notify_def subset_iff)
  moreover have "i \<in> set w" "i \<in> set e" using assms(1,2) by (simp_all add: eq list_notify_def)
  ultimately have "set w = {i}" "i \<in> set e" by blast+
  then have fs: "set fs = (if i \<in> set r then {} else {i})" by (auto simp: fs_def)
  have one: "nt_notify_one list_notify n = (case fs of [] \<Rightarrow> (True, w, e, r) | i # is \<Rightarrow> (p, w, e, i # r))"
    by (simp add: eq list_notify_def fs_def)
  show ?thesis
  proof (cases fs)
    case Nil
    then show ?thesis using fs one by (simp add: list_notify_def split: if_splits)
  next
    case (Cons x xs)
    then show ?thesis using fs one by (simp add: list_notify_def split: if_splits)
  qed
qed

lemma list_notify_laws: "notify_laws list_notify"
proof -
  have "pending_laws list_notify" by (auto simp: pending_laws_def list_notify_def split: list.splits)
  moreover have "enabled_laws list_notify" by (auto simp: enabled_laws_def list_notify_def split: list.splits)
  moreover have "ready_laws list_notify"
    unfolding ready_laws_def
  proof (intro conjI allI impI)
    fix i n assume "nt_ready list_notify i n"
    then show "nt_ready list_notify i (nt_notify_one list_notify n)"
      by (cases n) (simp add: list_notify_def split: list.splits)
  next
    fix i n assume "nt_pending list_notify i n \<and> nt_enabled list_notify i n \<and> (\<forall>j. nt_pending list_notify j n \<longrightarrow> j = i)"
    then show "nt_ready list_notify i (nt_notify_one list_notify n)" by (elim conjE) (rule list_notify_only)
  qed (auto simp: list_notify_def split: if_splits)
  ultimately show ?thesis by (simp add: notify_laws_def)
qed

definition counting_store :: "nat datastore" where
  "counting_store = \<lparr> ds_memtable_compaction = (\<lambda>d. Some (Inr (d + 1, True))), ds_level_compaction = (\<lambda>d. Some (Inr (d + 1, False))) \<rparr>"

lemma counting_store_keeps: "datastore_keeps counting_store (\<lambda>n d. True)"
  by (auto simp: datastore_keeps_def counting_store_def)

text \<open>C29: After \<open>stop_all\<close>, whatever state the tasks are in and whatever the schedule, every task ends once it
  has taken five more steps: no task misses the stop, not even one that is about to wait.\<close>

theorem tasks_stop:
  assumes "notify_laws nt" and "datastore_keeps ds I" and "I (length xs) d" and "tasks_reachable nt tm"
    and "\<forall>i < length (tm_handles tm). 5 \<le> count_list (map snd xs) i"
  shows "\<exists>d' tm'. work_steps nt ds xs (d, stop_all nt tm) = Some (Inr (d', tm')) \<and>
      length (tm_handles tm') = length (tm_handles tm) \<and> (\<forall>h \<in> set (tm_handles tm'). th_pc h = Ended)"
proof -
  have "task_inv nt tm" using tasks_reachable_inv [OF assms(4,1)] by (rule conjunct1)
  then have wd: "winding_down nt (stop_all nt tm)" by (rule stop_all_winding_down [OF _ assms(1)])
  have hs: "tm_handles (stop_all nt tm) = tm_handles tm" by (simp add: stop_all_def)
  obtain d' tm' where r: "work_steps nt ds xs (d, stop_all nt tm) = Some (Inr (d', tm'))"
      "length (tm_handles tm') = length (tm_handles tm)"
      "\<forall>i < length (tm_handles tm). stop_rank (th_pc (tm_handles tm' ! i)) \<le> stop_rank (th_pc (tm_handles tm ! i)) - count_list (map snd xs) i"
    using schedule_ends [OF assms(1,2,3) wd] unfolding hs by (elim exE conjE) (rule that)
  have "th_pc (tm_handles tm' ! i) = Ended" if "i < length (tm_handles tm)" for i
  proof -
    have "stop_rank (th_pc (tm_handles tm' ! i)) \<le> 5 - 5"
      using r(3) assms(5) that stop_rank_le [of "th_pc (tm_handles tm ! i)"] by (meson diff_le_mono diff_le_mono2 order_trans)
    then show ?thesis by simp
  qed
  then show ?thesis using r(1,2) by (auto simp: in_set_conv_nth)
qed

theorem tasks_stop_witness:
  "\<exists>d' tm'. work_steps list_notify counting_store (map (Pair 7) [0, 1, 2, 0, 1, 2, 0, 1, 2, 0, 1, 2, 0, 1, 2])
      (0, stop_all list_notify (task_manager_new list_notify 0 2)) = Some (Inr (d', tm')) \<and>
    length (tm_handles tm') = 3 \<and> (\<forall>h \<in> set (tm_handles tm'). th_pc h = Ended)"
proof -
  have n: "length (tm_handles (task_manager_new list_notify 0 2)) = 3" by (simp add: task_manager_new_def)
  have "\<forall>i < length (tm_handles (task_manager_new list_notify 0 2)).
      5 \<le> count_list (map snd (map (Pair (7 :: nat)) [0, 1, 2, 0, 1, 2, 0, 1, 2, 0, 1, 2, 0, 1, 2])) i"
    unfolding n by (simp add: All_less_Suc numeral_3_eq_3)
  from tasks_stop [OF list_notify_laws counting_store_keeps TrueI tasks_reachable.new this, of 0] n
  show ?thesis by simp
qed





end
