(* ===== verification/Lsm_Database.thy ===== *)
theory Lsm_Database
  imports Lsm_Open Lsm_Tasks
begin

text \<open>
  The database as its users see it (\<open>src/src/database.rs\<close>) and its blocking variant
  (\<open>src/sync/src/database.rs\<close>): the operations on \<open>DbLogic\<close> and the wake-ups of the background tasks.

  A run of the database is a sequence of calls of clients and of steps of the background tasks in any order.
  The lemmas show that every run refines a key-value map, and that the map survives a restart.
\<close>

section \<open>The operations\<close>

record ('c, 'n) database =
  inner :: "'c db"
  tasks :: "'n task_manager"

definition database_new_with_params ::
    "('c, 'bf) config \<Rightarrow> 'n notify \<Rightarrow> (nat \<Rightarrow> nat) \<Rightarrow> nat \<Rightarrow> start_mode \<Rightarrow> path_kind \<Rightarrow> fs \<Rightarrow> ('c, 'n) database run" where
  "database_new_with_params cf nt elapsed now start kind fs =
     (let concurrency = compaction_concurrency (cf_params cf) in
      bind_run (logic_new cf elapsed start kind fs) (\<lambda>db.
      Some (Inr \<lparr> inner = db, tasks = task_manager_new nt now concurrency \<rparr>)))"

definition database_new ::
    "('c, 'bf) config \<Rightarrow> 'n notify \<Rightarrow> (nat \<Rightarrow> nat) \<Rightarrow> nat \<Rightarrow> start_mode \<Rightarrow> path_kind \<Rightarrow> fs \<Rightarrow> ('c, 'n) database run" where
  "database_new cf nt elapsed now start kind fs =
     database_new_with_params (cf\<lparr> cf_params := default_params \<rparr>) nt elapsed now start kind fs"

definition database_get ::
    "('c, 'bf) config \<Rightarrow> 'n notify \<Rightarrow> nat \<Rightarrow> ('c, 'n) database \<Rightarrow> key \<Rightarrow> (('c, 'n) database \<times> 'bf entry_ref option) run" where
  "database_get cf nt now D k =
     bind_run (db_get cf (inner D) k) (\<lambda>(db, needs_compaction, data).
     let D = D\<lparr> inner := db \<rparr> in
     Some (Inr (if needs_compaction then D\<lparr> tasks := task_wake_up nt now LevelCompaction (tasks D) \<rparr> else D, data)))"

definition database_write_opts ::
    "('c, 'bf) config \<Rightarrow> io_mode \<Rightarrow> 'n notify \<Rightarrow> nat \<Rightarrow> ('c, 'n) database \<Rightarrow> write_batch \<Rightarrow> write_options
     \<Rightarrow> ('c, 'n) database run" where
  "database_write_opts cf mode nt now D batch opt =
     bind_run (write_opts cf mode (inner D) batch opt) (\<lambda>(db, needs_compaction).
     let D = D\<lparr> inner := db \<rparr> in
     Some (Inr (if needs_compaction then D\<lparr> tasks := task_wake_up nt now MemtableCompaction (tasks D) \<rparr> else D)))"

definition database_write ::
    "('c, 'bf) config \<Rightarrow> io_mode \<Rightarrow> 'n notify \<Rightarrow> nat \<Rightarrow> ('c, 'n) database \<Rightarrow> write_batch \<Rightarrow> ('c, 'n) database run" where
  "database_write cf mode nt now D batch = database_write_opts cf mode nt now D batch write_options_new"

definition database_put_opts ::
    "('c, 'bf) config \<Rightarrow> io_mode \<Rightarrow> 'n notify \<Rightarrow> nat \<Rightarrow> ('c, 'n) database \<Rightarrow> key \<Rightarrow> val \<Rightarrow> write_options
     \<Rightarrow> ('c, 'n) database run" where
  "database_put_opts cf mode nt now D k v opt =
     database_write_opts cf mode nt now D (write_batch_put write_batch_new k v) opt"

definition database_put ::
    "('c, 'bf) config \<Rightarrow> io_mode \<Rightarrow> 'n notify \<Rightarrow> nat \<Rightarrow> ('c, 'n) database \<Rightarrow> key \<Rightarrow> val \<Rightarrow> ('c, 'n) database run" where
  "database_put cf mode nt now D k v = database_put_opts cf mode nt now D k v write_options_new"

definition database_delete_opts ::
    "('c, 'bf) config \<Rightarrow> io_mode \<Rightarrow> 'n notify \<Rightarrow> nat \<Rightarrow> ('c, 'n) database \<Rightarrow> key \<Rightarrow> write_options
     \<Rightarrow> ('c, 'n) database run" where
  "database_delete_opts cf mode nt now D k opt =
     database_write_opts cf mode nt now D (write_batch_delete write_batch_new k) opt"

definition database_delete ::
    "('c, 'bf) config \<Rightarrow> io_mode \<Rightarrow> 'n notify \<Rightarrow> nat \<Rightarrow> ('c, 'n) database \<Rightarrow> key \<Rightarrow> ('c, 'n) database run" where
  "database_delete cf mode nt now D k =
     database_write_opts cf mode nt now D (write_batch_delete write_batch_new k) write_options_new"

definition database_synchronize :: "('c, 'bf) config \<Rightarrow> io_mode \<Rightarrow> ('c, 'n) database \<Rightarrow> ('c, 'n) database run" where
  "database_synchronize cf mode D =
     bind_run (db_synchronize cf mode (inner D)) (\<lambda>db. Some (Inr (D\<lparr> inner := db \<rparr>)))"

definition database_stop :: "('c, 'bf) config \<Rightarrow> io_mode \<Rightarrow> 'n notify \<Rightarrow> ('c, 'n) database \<Rightarrow> ('c, 'n) database run" where
  "database_stop cf mode nt D =
     bind_run (db_stop cf mode (inner D)) (\<lambda>db. Some (Inr (D\<lparr> inner := db, tasks := stop_all nt (tasks D) \<rparr>)))"

definition database_drop :: "'n notify \<Rightarrow> ('c, 'n) database \<Rightarrow> ('c, 'n) database" where
  "database_drop nt D = D\<lparr> tasks := terminate nt (tasks D) \<rparr>"

section \<open>Runs\<close>

text \<open>The data store the background tasks work on.\<close>

definition db_datastore :: "('c, 'bf) config \<Rightarrow> io_mode \<Rightarrow> 'c db datastore" where
  "db_datastore cf mode =
     \<lparr> ds_memtable_compaction = do_memtable_compaction cf mode, ds_level_compaction = do_level_compaction cf \<rparr>"

datatype action =
  PutAct key val | DeleteAct key | WriteAct write_batch write_options | GetAct key | SyncAct | TaskAct nat

datatype 'bf outcome = Done | Found "'bf entry_ref option"

definition finished :: "('c, 'n) database run \<Rightarrow> (('c, 'n) database \<times> 'bf outcome) run" where
  "finished r = bind_run r (\<lambda>D. Some (Inr (D, Done)))"

primrec database_step ::
    "('c, 'bf) config \<Rightarrow> io_mode \<Rightarrow> 'n notify \<Rightarrow> nat \<Rightarrow> ('c, 'n) database \<Rightarrow> action \<Rightarrow> (('c, 'n) database \<times> 'bf outcome) run" where
  "database_step cf mode nt now D (PutAct k v) = finished (database_put cf mode nt now D k v)"
| "database_step cf mode nt now D (DeleteAct k) = finished (database_delete cf mode nt now D k)"
| "database_step cf mode nt now D (WriteAct batch opt) = finished (database_write_opts cf mode nt now D batch opt)"
| "database_step cf mode nt now D (GetAct k) = bind_run (database_get cf nt now D k) (\<lambda>(D, r). Some (Inr (D, Found r)))"
| "database_step cf mode nt now D SyncAct = finished (database_synchronize cf mode D)"
| "database_step cf mode nt now D (TaskAct i) =
     finished (bind_run (work_step nt (db_datastore cf mode) now i (inner D, tasks D)) (\<lambda>(db, tm).
       Some (Inr (D\<lparr> inner := db, tasks := tm \<rparr>))))"

primrec database_run ::
    "('c, 'bf) config \<Rightarrow> io_mode \<Rightarrow> 'n notify \<Rightarrow> ('c, 'n) database \<Rightarrow> (nat \<times> action) list
     \<Rightarrow> (('c, 'n) database \<times> 'bf outcome list) run" where
  "database_run cf mode nt D [] = Some (Inr (D, []))"
| "database_run cf mode nt D (a # as) =
     bind_run (database_step cf mode nt (fst a) D (snd a)) (\<lambda>(D, out).
     bind_run (database_run cf mode nt D as) (\<lambda>(D, outs). Some (Inr (D, out # outs))))"

text \<open>What a run should do: the map a client sees, and the value each call returns.\<close>

primrec act_ops :: "action \<Rightarrow> write_op list" where
  "act_ops (PutAct k v) = [Put k v]"
| "act_ops (DeleteAct k) = [Delete k]"
| "act_ops (WriteAct batch opt) = writes batch"
| "act_ops (GetAct k) = []"
| "act_ops SyncAct = []"
| "act_ops (TaskAct i) = []"

definition run_ops :: "(nat \<times> action) list \<Rightarrow> write_op list" where
  "run_ops as = concat (map (act_ops \<circ> snd) as)"

primrec outcome_ok :: "(key \<rightharpoonup> val) \<Rightarrow> action \<Rightarrow> 'bf outcome \<Rightarrow> bool" where
  "outcome_ok m a Done \<longleftrightarrow> (\<forall>k. a \<noteq> GetAct k)"
| "outcome_ok m a (Found r) \<longleftrightarrow> (\<exists>k. a = GetAct k \<and> ref_denotes r (m k))"

fun outcomes_ok :: "(key \<rightharpoonup> val) \<Rightarrow> (nat \<times> action) list \<Rightarrow> 'bf outcome list \<Rightarrow> bool" where
  "outcomes_ok m [] [] \<longleftrightarrow> True"
| "outcomes_ok m (a # as) (out # outs) \<longleftrightarrow>
     outcome_ok m (snd a) out \<and> outcomes_ok (fold kv_apply (act_ops (snd a)) m) as outs"
| "outcomes_ok m _ _ \<longleftrightarrow> False"

section \<open>Every run refines a map\<close>

text \<open>
  What is known of a database in terms of its clients: it is well-formed, its contents are a given map, its
  log has a given length of history, and the writes that are still in the log belong to a given set.
\<close>

definition db_holds ::
    "('c, 'bf) config \<Rightarrow> io_mode \<Rightarrow> nat \<Rightarrow> nat \<Rightarrow> (key \<rightharpoonup> val) \<Rightarrow> bytes \<Rightarrow> write_op set \<Rightarrow> 'c db \<Rightarrow> bool" where
  "db_holds cf mode n w m stream S db \<longleftrightarrow>
     (\<exists>g. db_ok cf mode n w db g \<and> db_contents db g = m \<and> g_stream g = stream \<and> set (g_imm_ops g @ g_mem_ops g) \<subseteq> S)"

lemma db_holds_mono:
  assumes "db_holds cf mode n w m stream S db" and "n' \<le> n" and "w' \<le> w" and "S \<subseteq> S'"
  shows "db_holds cf mode n' w' m stream S' db"
  using assms db_ok_mono unfolding db_holds_def by blast

lemma db_datastore_keeps:
  fixes cf :: "('c, 'bf) config"
  shows "datastore_keeps (db_datastore cf mode) (\<lambda>n. db_holds cf mode n w m stream S)"
  unfolding datastore_keeps_def
proof (intro allI impI conjI)
  fix n and db :: "'c db" assume h: "db_holds cf mode (Suc n) w m stream S db"
  show keep: "db_holds cf mode n w m stream S db" using h by (rule db_holds_mono) simp_all
  obtain g where g: "db_ok cf mode (Suc n) w db g" "db_contents db g = m" "g_stream g = stream" "set (g_imm_ops g @ g_mem_ops g) \<subseteq> S"
    using h unfolding db_holds_def by blast
  show "\<exists>db' b. ds_level_compaction (db_datastore cf mode) db = Some (Inr (db', b)) \<and> db_holds cf mode n w m stream S db'"
  proof -
    obtain db' b g' where "do_level_compaction cf db = Some (Inr (db', b))" "db_ok cf mode n w db' g'" "same_db db' g' db g"
      using do_level_compaction_ok [OF g(1)] by blast
    moreover from this g have "db_holds cf mode n w m stream S db'"
      unfolding db_holds_def same_db_def by (intro exI [of _ g']) simp
    ultimately show ?thesis by (simp add: db_datastore_def)
  qed
  show "\<exists>db' b. ds_memtable_compaction (db_datastore cf mode) db = Some (Inr (db', b)) \<and> db_holds cf mode n w m stream S db'"
  proof (cases "imm_memtables db = []")
    case True
    then show ?thesis using keep by (auto simp: db_datastore_def do_memtable_compaction_idle)
  next
    case False
    obtain db' g' where c: "\<forall>x. do_memtable_compaction cf mode (db\<lparr> db_memtable := x \<rparr>) = Some (Inr (db'\<lparr> db_memtable := x \<rparr>, True))"
        "db_ok cf mode n w db' g'" "db_runs db' g' = db_runs db g" "db_memtable db' = db_memtable db"
        "g_imm_ops g' = []" "g_mem_ops g' = g_mem_ops g" "g_stream g' = g_stream g"
      using do_memtable_compaction_ok [OF g(1) False] by (elim exE conjE) (rule that)
    have "db'\<lparr> db_memtable := db_memtable db \<rparr> = db'" unfolding c(4) [symmetric] by simp
    moreover have "db\<lparr> db_memtable := db_memtable db \<rparr> = db" by simp
    ultimately have "do_memtable_compaction cf mode db = Some (Inr (db', True))" using c(1) [THEN spec, of "db_memtable db"] by simp
    moreover have "db_holds cf mode n w m stream S db'"
      using c g unfolding db_holds_def by (intro exI [of _ g']) (auto simp: db_contents_def)
    ultimately show ?thesis by (auto simp: db_datastore_def)
  qed
qed

lemma db_write_holds:
  assumes "db_holds cf mode (Suc n) (w + ops_weight (writes batch)) m stream S db"
  shows "\<exists>db' b. write_opts cf mode db batch opt = Some (Inr (db', b)) \<and>
     db_holds cf mode n w (fold kv_apply (writes batch) m) (stream @ log_bytes (writes batch)) (S \<union> set (writes batch)) db'"
proof -
  obtain g where g: "db_ok cf mode (Suc n) (w + ops_weight (writes batch)) db g" "db_contents db g = m" "g_stream g = stream"
      "set (g_imm_ops g @ g_mem_ops g) \<subseteq> S"
    using assms unfolding db_holds_def by blast
  obtain db' g' b where w: "write_opts cf mode db batch opt = Some (Inr (db', b))" "db_ok cf mode n w db' g'"
      "db_contents db' g' = fold kv_apply (writes batch) (db_contents db g)" "g_stream g' = g_stream g @ log_bytes (writes batch)"
      "set (g_imm_ops g' @ g_mem_ops g') \<subseteq> set (g_imm_ops g @ g_mem_ops g @ writes batch)"
    using write_opts_ok [OF g(1), of opt] by (elim exE conjE) (rule that)
  then have "db_holds cf mode n w (fold kv_apply (writes batch) m) (stream @ log_bytes (writes batch)) (S \<union> set (writes batch)) db'"
    using g unfolding db_holds_def by (intro exI [of _ g']) auto
  then show ?thesis using w(1) by blast
qed

lemma db_get_holds:
  assumes "db_holds cf mode n w m stream S db"
  shows "\<exists>db' b r. db_get cf db k = Some (Inr (db', b, r)) \<and> db_holds cf mode n w m stream S db' \<and> ref_denotes r (m k)"
proof -
  obtain g where g: "db_ok cf mode n w db g" "db_contents db g = m" "g_stream g = stream" "set (g_imm_ops g @ g_mem_ops g) \<subseteq> S"
    using assms unfolding db_holds_def by blast
  obtain db' b r where r: "db_get cf db k = Some (Inr (db', b, r))" "db_ok cf mode n w db' g" "db_runs db' g = db_runs db g"
      "ref_denotes r (db_contents db g k)"
    using db_get_ok [OF g(1), of k] by (elim exE conjE) (rule that)
  then show ?thesis using g unfolding db_holds_def db_contents_def by auto
qed

lemma db_synchronize_holds:
  assumes "db_holds cf mode n w m stream S db"
  shows "\<exists>db'. db_synchronize cf mode db = Some (Inr db') \<and> db_holds cf mode n w m stream S db'"
proof -
  obtain g where g: "db_ok cf mode n w db g" "db_contents db g = m" "g_stream g = stream" "set (g_imm_ops g @ g_mem_ops g) \<subseteq> S"
    using assms unfolding db_holds_def by blast
  have "log_idle (cf_params cf) mode (db_fs db) (db_wal db) (g_start g) (g_stream g)" using db_okD(8) [OF g(1)] by (simp add: log_ok_def)
  then obtain fs' wal' where s: "wal_sync (cf_params cf) mode (db_fs db) (db_wal db) = Some (Inr (fs', wal'))"
      "log_idle (cf_params cf) mode fs' wal' (g_start g) (g_stream g)" "log_frame (cf_params cf) (db_fs db) fs'"
    using wal_sync_ok by blast
  have "db_ok cf mode n w (with_fs (db\<lparr> db_wal := wal' \<rparr>) fs') g \<and> db_contents (with_fs (db\<lparr> db_wal := wal' \<rparr>) fs') g = db_contents db g"
    using write_mem_ok [of cf mode n w "[]" db g fs' wal'] g(1) s(2,3) by (cases db) simp
  then show ?thesis using s(1) g unfolding db_holds_def by (auto simp: db_synchronize_def)
qed

lemma database_step_ok:
  fixes D :: "('c, 'n) database" and cf :: "('c, 'bf) config"
  assumes "db_holds cf mode (Suc n) (w + ops_weight (act_ops a)) m stream S (inner D)"
  shows "\<exists>D' out. database_step cf mode nt now D a = Some (Inr (D', out)) \<and> outcome_ok m a out \<and>
     db_holds cf mode n w (fold kv_apply (act_ops a) m) (stream @ log_bytes (act_ops a)) (S \<union> set (act_ops a)) (inner D')"
proof -
  have wr: "\<exists>D'. database_write_opts cf mode nt now D batch opt = Some (Inr D') \<and>
     db_holds cf mode n w (fold kv_apply (writes batch) m) (stream @ log_bytes (writes batch)) (S \<union> set (writes batch)) (inner D')"
    if "act_ops a = writes batch" for batch opt
    using db_write_holds [of cf mode n w batch m stream S "inner D" opt] assms [unfolded that]
    by (auto simp: database_write_opts_def Let_def)
  have n: "db_holds cf mode n w m stream S (inner D)" using assms by (rule db_holds_mono) simp_all
  show ?thesis
  proof (cases a)
    case (PutAct k v)
    then show ?thesis using wr [of "\<lparr> writes = [Put k v] \<rparr>" write_options_new]
      by (auto simp: finished_def database_put_def database_put_opts_def write_batch_put_def write_batch_new_def)
  next
    case (DeleteAct k)
    then show ?thesis using wr [of "\<lparr> writes = [Delete k] \<rparr>" write_options_new]
      by (auto simp: finished_def database_delete_def write_batch_delete_def write_batch_new_def)
  next
    case (WriteAct batch opt)
    then show ?thesis using wr [of batch opt] by (auto simp: finished_def)
  next
    case (GetAct k)
    then show ?thesis using db_get_holds [OF n, of k] by (auto simp: database_get_def Let_def)
  next
    case SyncAct
    then show ?thesis using db_synchronize_holds [OF n] by (auto simp: finished_def database_synchronize_def)
  next
    case (TaskAct i)
    then have "db_holds cf mode (Suc n) w m stream S (inner D)" using assms by simp
    from work_step_returns [OF db_datastore_keeps this, of nt now i "tasks D"] TaskAct show ?thesis
      by (auto simp: finished_def)
  qed
qed

lemma run_ops_simps [simp]: "run_ops [] = []" "run_ops (a # as) = act_ops (snd a) @ run_ops as"
  by (simp_all add: run_ops_def)

lemma database_run_ok:
  fixes D :: "('c, 'n) database" and cf :: "('c, 'bf) config"
  assumes "db_holds cf mode (n + length as) (w + ops_weight (run_ops as)) m stream S (inner D)"
  shows "\<exists>D' outs. database_run cf mode nt D as = Some (Inr (D', outs)) \<and> outcomes_ok m as outs \<and>
     db_holds cf mode n w (fold kv_apply (run_ops as) m) (stream @ log_bytes (run_ops as)) (S \<union> set (run_ops as)) (inner D')"
  using assms
proof (induction as arbitrary: D m stream S)
  case (Cons a as)
  have "db_holds cf mode (Suc (n + length as)) (w + ops_weight (run_ops as) + ops_weight (act_ops (snd a))) m stream S (inner D)"
    using Cons.prems by (simp add: ac_simps)
  from database_step_ok [OF this, of nt "fst a"] obtain D1 out where 1:
      "database_step cf mode nt (fst a) D (snd a) = Some (Inr (D1, out))" "outcome_ok m (snd a) out"
      "db_holds cf mode (n + length as) (w + ops_weight (run_ops as)) (fold kv_apply (act_ops (snd a)) m)
        (stream @ log_bytes (act_ops (snd a))) (S \<union> set (act_ops (snd a))) (inner D1)"
    by blast
  from Cons.IH [OF 1(3)] obtain D' outs where
      "database_run cf mode nt D1 as = Some (Inr (D', outs))" "outcomes_ok (fold kv_apply (act_ops (snd a)) m) as outs"
      "db_holds cf mode n w (fold kv_apply (run_ops as) (fold kv_apply (act_ops (snd a)) m))
        ((stream @ log_bytes (act_ops (snd a))) @ log_bytes (run_ops as)) ((S \<union> set (act_ops (snd a))) \<union> set (run_ops as)) (inner D')"
    by blast
  then show ?case using 1(1,2) by (simp add: Un_assoc)
qed simp

section \<open>Creating, stopping and opening\<close>

lemma database_create_holds:
  assumes "config_ok cf" "params_ok (cf_params cf)" and "start \<noteq> Open" and "\<forall>i. fs (data_block_path (cf_params cf) i) = None"
    and "n * 2 ^ 33 < 2 ^ 63" "w + 100 < 2 ^ 32"
  shows "\<exists>D. database_new_with_params cf nt elapsed now start NoEntry fs = Some (Inr D) \<and>
     db_holds cf mode n w Map.empty [] {} (inner D)"
proof -
  have "start_create (cf_params cf) start NoEntry fs = Inr (True, fs)"
    using assms(3) by (cases start) (simp_all add: start_create_def)
  from logic_new_create_ok [OF assms(1,2) _ _ this assms(4-6), of elapsed mode] obtain db where
      "logic_new cf elapsed start NoEntry fs = Some (Inr db)" "db_ok cf mode n w db (ghost_new (cf_params cf))"
      "db_contents db (ghost_new (cf_params cf)) = Map.empty" by auto
  then show ?thesis unfolding db_holds_def
    by (auto simp: database_new_with_params_def ghost_new_def Let_def intro!: exI [of _ "ghost_new (cf_params cf)"])
qed

text \<open>The files of a database after it has been stopped, or when its process ends between two steps.\<close>

definition left_on_disk :: "('c, 'bf) config \<Rightarrow> io_mode \<Rightarrow> 'n notify \<Rightarrow> ('c, 'n) database \<Rightarrow> fs set" where
  "left_on_disk cf mode nt D =
     {fs. fs = db_fs (inner D) \<or> (\<exists>D'. database_stop cf mode nt D = Some (Inr D') \<and> fs = db_fs (inner D'))}"

lemma database_stop_ok:
  assumes "db_ok cf mode n w (inner D) g"
  shows "\<exists>D'. database_stop cf mode nt D = Some (Inr D') \<and> on_disk cf (inner D) g (db_fs (inner D'))"
proof -
  have "log_idle (cf_params cf) mode (db_fs (inner D)) (db_wal (inner D)) (g_start g) (g_stream g)"
    using db_okD(8) [OF assms] by (simp add: log_ok_def)
  then obtain fs' wal' where "wal_stop (cf_params cf) mode (db_fs (inner D)) (db_wal (inner D)) = Some (Inr (fs', wal'))"
      "writer_ok (cf_params cf) mode fs' (g_start g) (wl_writer wal') (g_stream g)" "log_frame (cf_params cf) (db_fs (inner D)) fs'"
    using wal_stop_ok by blast
  then show ?thesis by (simp add: database_stop_def db_stop_def on_disk_def writer_ok_def)
qed

lemma left_on_disk_ok:
  assumes "db_ok cf mode n w (inner D) g" and "fs \<in> left_on_disk cf mode nt D"
  shows "on_disk cf (inner D) g fs"
proof -
  have "log_files_ok (cf_params cf) (db_fs (inner D)) (g_start g) (g_stream g)"
    using db_okD(8) [OF assms(1)] by (simp add: log_ok_def log_idle_def writer_ok_def)
  then show ?thesis using assms(2) database_stop_ok [OF assms(1), of nt] by (auto simp: left_on_disk_def on_disk_def)
qed

lemma database_reopen_holds:
  assumes h: "db_holds cf mode n w m stream S (inner D)" and fs: "fs \<in> left_on_disk cf mode nt D"
    and S: "\<forall>op \<in> S. recoverable op" and stream: "length stream mod PAGE_SIZE \<noteq> 0"
    and start: "start \<noteq> CreateOrOverride" and params: "params_ok (cf_params cf)"
  shows "\<exists>D'. database_new_with_params cf nt elapsed now start Folder fs = Some (Inr D') \<and>
     (\<exists>stream' S'. db_holds cf AsyncIo n w m stream' S' (inner D'))"
proof -
  obtain g where g: "db_ok cf mode n w (inner D) g" "db_contents (inner D) g = m" "g_stream g = stream" "set (g_imm_ops g @ g_mem_ops g) \<subseteq> S"
    using h unfolding db_holds_def by blast
  have "log_replayable g" unfolding log_replayable_def using g(3,4) S stream by blast
  from logic_new_open_ok [OF g(1) left_on_disk_ok [OF g(1) fs] this start params, of elapsed] obtain db' g' where
      "logic_new cf elapsed start Folder fs = Some (Inr db')" "db_ok cf AsyncIo n w db' g'" "db_contents db' g' = db_contents (inner D) g"
    by blast
  then show ?thesis using g(2) unfolding db_holds_def by (auto simp: database_new_with_params_def Let_def)
qed

end
