(* ===== verification/Spec2Isabelle.thy ===== *)
theory Spec2Isabelle
  imports Lsm_WalReader Lsm_TableIterator Lsm_Database
begin

text \<open>
  A verification development for \<open>lsm-rs\<close>, a log-structured merge tree in Rust (sources under
  \<open>src/\<close>).
\<close>

section \<open>The database refines a map\<close>

text \<open>A database on which the properties are tried: two levels, and memtables of forty bytes.\<close>

definition tiny_config :: "(nat \<times> (u64 \<times> bool data_block) list, bool) config" where
  "tiny_config = example_config\<lparr> cf_params := (cf_params example_config)\<lparr> max_memtable_size := 40 \<rparr> \<rparr>"

lemma tiny_config_ok: "config_ok tiny_config" "params_ok (cf_params tiny_config)"
  by (simp_all add: tiny_config_def config_ok_def params_ok_def seeks_fit_def example_config_def small_params_def default_params_def)

definition tiny_run :: "(nat \<times> action) list" where
  "tiny_run = [(1, PutAct [1] [10]), (2, TaskAct 0), (3, PutAct [2] [20]), (4, DeleteAct [1]), (5, TaskAct 1), (6, GetAct [2]), (7, GetAct [1])]"

lemma tiny_run_ok:
  "run_ops tiny_run = [Put [1] [10], Put [2] [20], Delete [1]]" "length tiny_run = 7"
  "ops_weight (run_ops tiny_run) + 100 < 2 ^ 32" "\<forall>op \<in> set (run_ops tiny_run). recoverable op"
  "length (log_bytes (run_ops tiny_run)) mod PAGE_SIZE \<noteq> 0"
  by (simp_all add: tiny_run_def op_weight_def entry_weight_def recoverable_def PAGE_SIZE_def encode_entry_length del: encode_entry.simps)

text \<open>C22: The database refines a key-value map. A new database and any sequence of puts, deletes, batches,
  lookups, synchronizations and steps of the background tasks, in any order: every call returns without an
  error, and every lookup returns what the writes before it left in the map, whatever flushes and
  compactions ran in between. The run is bounded by what the code keeps in machine words: fewer than
  \<open>2 ^ 30\<close> steps, for the identifiers of blocks, and writes of less than four gigabytes, for the offsets in
  tables.\<close>

theorem database_refines_map:
  assumes "config_ok cf" and "params_ok (cf_params cf)" and "start \<noteq> Open"
    and "\<forall>i. fs (data_block_path (cf_params cf) i) = None"
    and "length as * 2 ^ 33 < 2 ^ 63" and "ops_weight (run_ops as) + 100 < 2 ^ 32"
  shows "\<exists>D D' outs. database_new_with_params cf nt elapsed now start NoEntry fs = Some (Inr D) \<and>
      database_run cf mode nt D as = Some (Inr (D', outs)) \<and> outcomes_ok Map.empty as outs"
proof -
  obtain D where D: "database_new_with_params cf nt elapsed now start NoEntry fs = Some (Inr D)"
      "db_holds cf mode (0 + length as) (0 + ops_weight (run_ops as)) Map.empty [] {} (inner D)"
    using database_create_holds [OF assms(1-4), of "0 + length as" "0 + ops_weight (run_ops as)" nt elapsed now mode] assms(5,6)
    by auto
  then show ?thesis using database_run_ok [OF D(2), of nt] by blast
qed

theorem database_refines_map_witness:
  "\<exists>D D' outs. database_new_with_params tiny_config list_notify (\<lambda>i. 0) 0 CreateOrOpen NoEntry Map.empty = Some (Inr D) \<and>
     database_run tiny_config StdIo list_notify D tiny_run = Some (Inr (D', outs)) \<and> outcomes_ok Map.empty tiny_run outs"
  using database_refines_map [OF tiny_config_ok, of CreateOrOpen Map.empty tiny_run list_notify "\<lambda>i. 0" 0 StdIo] tiny_run_ok(2,3)
  by simp



section \<open>The invariant and the compactions\<close>

lemma tiny_database:
  "\<exists>db. logic_new tiny_config (\<lambda>i. 0) CreateOrOpen NoEntry Map.empty = Some (Inr db) \<and>
     db_ok tiny_config StdIo 5 100000 db (ghost_new (cf_params tiny_config)) \<and> db_contents db (ghost_new (cf_params tiny_config)) = Map.empty"
  by (rule logic_new_create_ok [OF tiny_config_ok, where ?fs0.0 = Map.empty]) (simp_all add: start_create_def)

text \<open>C24: Every call of a client and every step of a background task returns and keeps the database well-formed:
  tables sorted and listed in the manifest, levels below the first without overlaps, newer runs above older
  ones, the log holding exactly the writes of the memtables. What a step uses up of the identifiers and
  sizes is what the invariant counts down.\<close>

theorem database_step_keeps_invariant:
  assumes "db_ok cf mode (Suc n) (w + ops_weight (act_ops a)) (inner D) g"
  shows "\<exists>D' out g'. database_step cf mode nt now D a = Some (Inr (D', out)) \<and> db_ok cf mode n w (inner D') g' \<and>
      db_contents (inner D') g' = fold kv_apply (act_ops a) (db_contents (inner D) g)"
proof -
  have "db_holds cf mode (Suc n) (w + ops_weight (act_ops a)) (db_contents (inner D) g) (g_stream g) (set (g_imm_ops g @ g_mem_ops g)) (inner D)"
    using assms unfolding db_holds_def by blast
  from database_step_ok [OF this, of nt now] show ?thesis unfolding db_holds_def by blast
qed

theorem database_step_keeps_invariant_witness:
  "\<exists>db g D' out. db_ok tiny_config StdIo 4 90000 db g \<and>
     database_step tiny_config StdIo list_notify 3 \<lparr> inner = db, tasks = task_manager_new list_notify 0 1 \<rparr> (PutAct [1] [2]) = Some (Inr (D', out)) \<and>
     (\<exists>g'. db_ok tiny_config StdIo 4 90000 (inner D') g' \<and> db_contents (inner D') g' = [[1] \<mapsto> [2]])"
proof -
  obtain db where db: "db_ok tiny_config StdIo 5 100000 db (ghost_new (cf_params tiny_config))"
      "db_contents db (ghost_new (cf_params tiny_config)) = Map.empty" using tiny_database by blast
  let ?D = "\<lparr> inner = db, tasks = task_manager_new list_notify 0 1 \<rparr>"
  have "db_ok tiny_config StdIo (Suc 4) (90000 + ops_weight (act_ops (PutAct [1] [2]))) (inner ?D) (ghost_new (cf_params tiny_config))"
    using db_ok_mono [OF db(1), of "Suc 4" "90000 + ops_weight (act_ops (PutAct [1] [2]))"]
    by (simp add: op_weight_def entry_weight_def)
  from database_step_keeps_invariant [OF this, of list_notify 3] db db_ok_mono [OF db(1), of 4 90000] show ?thesis by fastforce
qed

text \<open>C25: A level compaction always comes to its end, whatever tables it merges or moves, and leaves the contents
  as they were; so does the compaction of a memtable.\<close>

theorem compactions_return:
  assumes "db_ok cf mode (Suc n) w db g"
  shows "\<exists>db1 b1 g1 db2 b2 g2.
      do_level_compaction cf db = Some (Inr (db1, b1)) \<and> db_ok cf mode n w db1 g1 \<and> db_contents db1 g1 = db_contents db g \<and>
      do_memtable_compaction cf mode db = Some (Inr (db2, b2)) \<and> db_ok cf mode n w db2 g2 \<and> db_contents db2 g2 = db_contents db g"
proof -
  have "db_holds cf mode (Suc n) w (db_contents db g) (g_stream g) (set (g_imm_ops g @ g_mem_ops g)) db"
    using assms unfolding db_holds_def by blast
  then have "(\<exists>db2 b2. ds_memtable_compaction (db_datastore cf mode) db = Some (Inr (db2, b2)) \<and>
        db_holds cf mode n w (db_contents db g) (g_stream g) (set (g_imm_ops g @ g_mem_ops g)) db2) \<and>
      (\<exists>db1 b1. ds_level_compaction (db_datastore cf mode) db = Some (Inr (db1, b1)) \<and>
        db_holds cf mode n w (db_contents db g) (g_stream g) (set (g_imm_ops g @ g_mem_ops g)) db1)"
    by (rule db_datastore_keeps [unfolded datastore_keeps_def, THEN spec, THEN spec, THEN mp, THEN conjunct2])
  then obtain db1 b1 db2 b2 where "do_level_compaction cf db = Some (Inr (db1, b1))" "do_memtable_compaction cf mode db = Some (Inr (db2, b2))"
      "db_holds cf mode n w (db_contents db g) (g_stream g) (set (g_imm_ops g @ g_mem_ops g)) db1"
      "db_holds cf mode n w (db_contents db g) (g_stream g) (set (g_imm_ops g @ g_mem_ops g)) db2"
    unfolding db_datastore_def datastore.simps by blast
  then show ?thesis unfolding db_holds_def by blast
qed

theorem compactions_return_witness:
  "\<exists>db g db1 b1 g1. db_ok tiny_config StdIo 5 100000 db g \<and> do_level_compaction tiny_config db = Some (Inr (db1, b1)) \<and>
     db_ok tiny_config StdIo 4 100000 db1 g1 \<and> db_contents db1 g1 = Map.empty"
proof -
  obtain db where db: "db_ok tiny_config StdIo (Suc 4) 100000 db (ghost_new (cf_params tiny_config))"
      "db_contents db (ghost_new (cf_params tiny_config)) = Map.empty" using tiny_database by auto
  from compactions_return [OF db(1)] db show ?thesis by auto
qed

text \<open>C26: A merge of tables adds to the new table, in order, what the reference merge of their runs yields: every
  key once, with its newest entry.\<close>

theorem merge_loop_is_merge_runs:
  assumes "list_all2 (table_holds cf (st_fs s)) ts rs" and "store_ok cf s m T"
    and "table_fits (merge_runs rs)" and "unat (next_data_block_id m) + length (merge_runs rs) < 2 ^ 64"
  shows "\<exists>its. map_result (\<lambda>t. table_iterator_new cf (st_fs s) t False) ts = Inr its \<and>
      merge_loop cf s (table_builder_new cf tid mn mx) its None =
        Some (fold_result (table_add cf) (s, table_builder_new cf tid mn mx) (merge_runs rs)) \<and>
      sorted_strict (map fst (merge_runs rs)) \<and>
      (\<forall>k. map_of (merge_runs rs) k = None \<longleftrightarrow> lookup_runs rs k = None) \<and>
      (\<forall>k e. map_of (merge_runs rs) k = Some e \<longrightarrow> (\<exists>r \<in> set rs. map_of r k = Some e) \<and>
         (\<forall>r \<in> set rs. \<forall>e'. map_of r k = Some e' \<longrightarrow> entry_seq_number e' \<le> entry_seq_number e))"
proof -
  have sorted: "sorted_runs rs" using lv_holdsD(3,4) [OF assms(1)] by (auto simp: in_set_conv_nth)
  obtain its where its: "map_result (\<lambda>t. table_iterator_new cf (st_fs s) t False) ts = Inr its" "list_all2 (ti_delivers cf (st_fs s)) its rs"
    using iterators_ok [OF assms(1)] by blast
  have "merge_loop cf s (table_builder_new cf tid mn mx) its None =
      Some (fold_result (table_add cf) (s, table_builder_new cf tid mn mx) (merge_runs rs))"
    using merge_loop_ok [OF its(2) assms(2) table_building_new [OF store_okD(1) [OF assms(2)]], of None] assms(3,4)
    by (simp add: runs_from_def)
  moreover have "sorted_strict (map fst (merge_runs rs))" using merge_runs_correct [OF sorted] by (rule conjunct1)
  moreover have "map_of (merge_runs rs) k = None \<longleftrightarrow> lookup_runs rs k = None" for k
    using merge_map_of [OF sorted, of k] merge_dominates [OF sorted, of _ k] unfolding lookup_runs_None
    by (metis not_None_eq)
  moreover have "(\<exists>r \<in> set rs. map_of r k = Some e) \<and> (\<forall>r \<in> set rs. \<forall>e'. map_of r k = Some e' \<longrightarrow> entry_seq_number e' \<le> entry_seq_number e)"
    if "map_of (merge_runs rs) k = Some e" for k e
    using merge_map_of [OF sorted that] merge_dominates [OF sorted, of _ k] that by fastforce
  ultimately show ?thesis using its(1) by blast
qed

theorem merge_loop_is_merge_runs_witness:
  "\<exists>s t its. build_table example_config example_store 1 [1] [3] example_entries = Inr (s, t) \<and>
     map_result (\<lambda>t. table_iterator_new example_config (st_fs s) t False) [t] = Inr its \<and>
     merge_loop example_config s (table_builder_new example_config 2 [1] [3]) its None =
       Some (fold_result (table_add example_config) (s, table_builder_new example_config 2 [1] [3]) example_entries)"
proof -
  note ex = example_entries_ok
  have hd: "fst (hd example_entries) = [1]" "fst (last example_entries) = [3]" "length example_entries = 3"
    by (simp_all add: example_entries_def)
  obtain s t m' where b: "build_table example_config example_store 1 [1] [3] example_entries = Inr (s, t)" "store_ok example_config s m' (\<lambda>i. {})"
      "blocks_drawn (metadata_new False (cf_params example_config)) (Suc 3) m'" "table_holds example_config (st_fs s) t example_entries"
    using build_table_ok [OF example_store_ok ex(1-5), of 1] unfolding hd by blast
  have one: "merge_runs [example_entries] = example_entries" by (rule merge_runs_single [OF ex(2)])
  have "unat (next_data_block_id m') + 3 < 2 ^ 64" using b(3) by (simp add: blocks_drawn_def metadata_new_def)
  then show ?thesis
    using b(1) merge_loop_is_merge_runs [of example_config s "[t]" "[example_entries]" m' "\<lambda>i. {}" 2 "[1]" "[3]"] b(2,4) ex(3)
    unfolding one hd by auto
qed

section \<open>Bounds and errors\<close>

text \<open>C27: The size limit of a level is computed without overflow exactly up to level 14; from level 15 on a
  compaction panics, whatever the number of levels the parameters allow.\<close>

theorem level_size_limit_overflows:
  "level_max_size (level_new p (of_nat i)) =
     (if i mod 2 ^ 32 \<le> 14 then Inr (1048576 * 10 ^ (i mod 2 ^ 32 - 1)) else Inl (Panic ''attempt to multiply with overflow''))"
  by (simp add: level_max_size_eq level_new_def unat_of_nat)



end
